(* ===== verification/Prelude.thy ===== *)
theory Prelude
  imports Main "HOL-Library.Word"
begin

text \<open>
  Shared vocabulary of the xv6 development: machine integers at the width the C code uses,
  the outcome of a kernel operation (a value and a state, a panic, a process put to sleep, a
  process gone for good with the state the scheduler goes on with, a spin that never ends on its
  own, undefined behaviour), the total-correctness predicate
  \<open>ensures\<close> with its calculation rules, and the names of the kernel's spinlocks, sleep-locks
  and sleep channels.  The spinlocks the executing CPU holds are the field \<open>held\<close> of the root
  state record; \<open>Spinlock\<close> proves that the detailed lock code implements the operations
  \<open>lk_acquire\<close> and \<open>lk_release\<close> (and \<open>lk_init\<close>, a lock just initialised) defined here.
\<close>

unbundle bit_operations_syntax

section \<open>Machine integers (kernel/types.h)\<close>

type_synonym u8 = "8 word"
type_synonym u16 = "16 word"
type_synonym u32 = "32 word"
type_synonym u64 = "64 word"

section \<open>Outcomes of kernel operations\<close>

datatype sleeplock_id = SlBuf nat | SlInode nat

datatype lock = LkKmem | LkBcache | LkLog | LkItable | LkFtable | LkPid | LkWait
  | LkProc nat | LkPipe u64 | LkCons | LkUart | LkPr | LkTicks | LkVdisk
  | LkSleep sleeplock_id

datatype chan = ChLog | ChSleep sleeplock_id | ChPipeRead u64 | ChPipeWrite u64
  | ChCons | ChUart | ChTicks | ChDiskFree | ChBuf nat | ChProc nat

datatype ('a, 's) outcome =
    Ok 'a 's
  | Panic string
  | Sleep chan 's
  | Gone 's
  | Spin
  | Undef

fun obind :: "('a, 's) outcome \<Rightarrow> ('a \<Rightarrow> 's \<Rightarrow> ('b, 's) outcome) \<Rightarrow> ('b, 's) outcome" where
  "obind (Ok a s) f = f a s"
| "obind (Panic e) f = Panic e"
| "obind (Sleep c s) f = Sleep c s"
| "obind (Gone s) f = Gone s"
| "obind Spin f = Spin"
| "obind Undef f = Undef"

fun ensures :: "('a, 's) outcome \<Rightarrow> ('a \<Rightarrow> 's \<Rightarrow> bool) \<Rightarrow> bool" where
  "ensures (Ok a s) P = P a s"
| "ensures _ P = False"

lemma obind_cong [fundef_cong]:
  "m = m' \<Longrightarrow> (\<And>a s. m' = Ok a s \<Longrightarrow> f a s = g a s) \<Longrightarrow> obind m f = obind m' g"
  by (cases m) auto

lemma ensures_obind [simp]:
  "ensures (obind m f) P = ensures m (\<lambda>a s. ensures (f a s) P)"
  by (cases m) simp_all

lemma ensures_mono:
  "ensures m P \<Longrightarrow> (\<And>a s. P a s \<Longrightarrow> Q a s) \<Longrightarrow> ensures m Q"
  by (cases m) simp_all

lemma ensures_conj:
  "ensures m P \<Longrightarrow> ensures m Q \<Longrightarrow> ensures m (\<lambda>a s. P a s \<and> Q a s)"
  by (cases m) simp_all

lemma ensures_iff_Ok: "ensures m P \<longleftrightarrow> (\<exists>a s. m = Ok a s \<and> P a s)"
  by (cases m) simp_all

lemma ensuresI: "m = Ok a s \<Longrightarrow> P a s \<Longrightarrow> ensures m P"
  by simp

lemma ensuresD: "ensures m P \<Longrightarrow> m = Ok a s \<Longrightarrow> P a s"
  by simp

lemma ensures_Let: "ensures (Let x f) P = ensures (f x) P"
  by (simp add: Let_def)

lemma ensures_if [simp]:
  "ensures (if b then m else m') P = (if b then ensures m P else ensures m' P)"
  by simp

lemma obind_eq_Ok:
  "obind m f = Ok b t \<longleftrightarrow> (\<exists>a s. m = Ok a s \<and> f a s = Ok b t)"
  by (cases m) simp_all

lemma obind_assoc: "obind (obind m f) g = obind m (\<lambda>a s. obind (f a s) g)"
  by (cases m) simp_all

lemma obind_Ok [simp]: "obind m Ok = m"
  by (cases m) simp_all

text \<open>
  \<open>keeps g x m\<close>: if \<open>m\<close> returns, the part \<open>g\<close> of the state has the value \<open>x\<close>.  The frame lemmas of the
  components are collected in \<open>frames\<close>.
\<close>

definition keeps :: "('s \<Rightarrow> 'g) \<Rightarrow> 'g \<Rightarrow> ('a, 's) outcome \<Rightarrow> bool" where
  "keeps g x m \<longleftrightarrow> (\<forall>a t. m = Ok a t \<longrightarrow> g t = x)"

named_theorems frames

lemma keeps_simps [simp]:
  "keeps g x (Ok a t) = (g t = x)" "keeps g x (Panic e)" "keeps g x (Sleep c t)" "keeps g x (Gone t)" "keeps g x Spin" "keeps g x Undef"
  by (simp_all add: keeps_def)

lemma keeps_obind [frames]:
  "keeps g x m \<Longrightarrow> (\<And>a t. g t = x \<Longrightarrow> keeps g x (f a t)) \<Longrightarrow> keeps g x (obind m f)"
  by (cases m) auto

lemma keeps_obind_Ok:
  "keeps g x m \<Longrightarrow> (\<And>a t. m = Ok a t \<Longrightarrow> g t = x \<Longrightarrow> keeps g x (f a t)) \<Longrightarrow> keeps g x (obind m f)"
  by (cases m) auto

lemma keeps_if [frames]: "(b \<Longrightarrow> keeps g x m) \<Longrightarrow> (\<not> b \<Longrightarrow> keeps g x m') \<Longrightarrow> keeps g x (if b then m else m')"
  by simp

lemma keeps_let [frames]: "keeps g x (f v) \<Longrightarrow> keeps g x (Let v f)"
  by simp

lemma keepsD: "keeps g x m \<Longrightarrow> m = Ok a t \<Longrightarrow> g t = x"
  by (simp add: keeps_def)

section \<open>The interface to user programs (kernel/fcntl.h, kernel/stat.h, kernel/fs.h)\<close>

definition O_RDONLY :: u32 where [simp]: "O_RDONLY = 0"
definition O_WRONLY :: u32 where [simp]: "O_WRONLY = 1"
definition O_RDWR :: u32 where [simp]: "O_RDWR = 2"
definition O_CREATE :: u32 where [simp]: "O_CREATE = 0x200"
definition O_TRUNC :: u32 where [simp]: "O_TRUNC = 0x400"

definition T_DIR :: u16 where [simp]: "T_DIR = 1"
definition T_FILE :: u16 where [simp]: "T_FILE = 2"
definition T_DEVICE :: u16 where [simp]: "T_DEVICE = 3"

definition DIRSIZ :: nat where [simp]: "DIRSIZ = 14"

record stat =
  st_dev :: u32
  st_ino :: u32
  st_type :: u16
  st_nlink :: u16
  st_size :: u64

section \<open>The root of the kernel state and its spinlocks\<close>

text \<open>
  \<open>held\<close> is the set of spinlocks for which \<open>holding()\<close> (kernel/spinlock.c) is true on the CPU
  that runs the operation, \<open>cur\<close> is \<open>mycpu()->proc\<close> as an index of the process table.
\<close>

record kstate =
  held :: "lock set"
  cur :: "nat option"

definition lk_acquire :: "lock \<Rightarrow> 'a kstate_scheme \<Rightarrow> (unit, 'a kstate_scheme) outcome" where
  "lk_acquire l s =
     (if l \<in> held s then Panic ''acquire'' else Ok () (s\<lparr>held := insert l (held s)\<rparr>))"

definition lk_release :: "lock \<Rightarrow> 'a kstate_scheme \<Rightarrow> (unit, 'a kstate_scheme) outcome" where
  "lk_release l s =
     (if l \<in> held s then Ok () (s\<lparr>held := held s - {l}\<rparr>) else Panic ''release'')"

definition lk_init :: "lock \<Rightarrow> 'a kstate_scheme \<Rightarrow> 'a kstate_scheme" where
  "lk_init l s = s\<lparr>held := held s - {l}\<rparr>"

lemma lk_init_id [simp]: "l \<notin> held s \<Longrightarrow> lk_init l s = s"
  by (simp add: lk_init_def)

lemma lk_acquire_Ok [simp]:
  "l \<notin> held s \<Longrightarrow> lk_acquire l s = Ok () (s\<lparr>held := insert l (held s)\<rparr>)"
  by (simp add: lk_acquire_def)

lemma lk_acquire_Panic [simp]: "l \<in> held s \<Longrightarrow> lk_acquire l s = Panic ''acquire''"
  by (simp add: lk_acquire_def)

lemma lk_release_Ok [simp]:
  "l \<in> held s \<Longrightarrow> lk_release l s = Ok () (s\<lparr>held := held s - {l}\<rparr>)"
  by (simp add: lk_release_def)

lemma lk_release_Panic [simp]: "l \<notin> held s \<Longrightarrow> lk_release l s = Panic ''release''"
  by (simp add: lk_release_def)

lemma held_update_same [simp]: "held s = H \<Longrightarrow> s\<lparr>held := H\<rparr> = s"
  by (cases s) simp

section \<open>Words as numbers\<close>

lemma unat_add_nowrap:
  "unat (a :: 'a::len word) + unat b < 2 ^ LENGTH('a) \<Longrightarrow> unat (a + b) = unat a + unat b"
  by (simp add: unat_word_ariths)

lemma unat_sub_le: "(b :: 'a::len word) \<le> a \<Longrightarrow> unat (a - b) = unat a - unat b"
  by (simp add: unat_sub)

lemma sint_small:
  assumes "unat (x :: u32) < 2147483648"
  shows "sint x = int (unat x)"
proof -
  have u: "uint x = int (unat x)" by simp
  have "- (2 ^ 31) \<le> uint x" by (rule order_trans [of _ 0]) simp_all
  moreover have "int (unat x) < 2147483648" using assms by linarith
  then have "uint x < 2 ^ 31" by simp
  ultimately have "signed_take_bit 31 (uint x) = uint x" by (rule signed_take_bit_int_eq_self)
  then show ?thesis by (simp add: sint_uint)
qed

lemma unat_ucast_64 [simp]: "unat (ucast (n :: u32) :: u64) = unat n"
  by (simp add: unsigned_ucast_eq take_bit_nat_eq_self [OF order.strict_trans2 [OF unsigned_less [of n]]])

end
