(* ===== verification/Spinlock.thy ===== *)
theory Spinlock
  imports Prelude
begin

text \<open>
  kernel/spinlock.c at the level of its memory cells: the \<open>locked\<close> word changed by an atomic
  swap, the \<open>cpu\<close> field written by separate stores, the per-CPU nesting depth and the interrupt
  enable bit.  \<open>lock_step\<close> interleaves any number of CPUs between those accesses; the reachable
  states satisfy mutual exclusion and keep interrupts off on every CPU that is inside a lock
  operation or holds a lock.  \<open>acquire_release_refine\<close> links the code to the set-level operations
  the other theories use.
\<close>

section \<open>State and operations\<close>

record spinlock =
  sl_locked :: u32
  sl_name :: string
  sl_cpu :: "nat option"

record cpu =
  noff :: int
  intena :: bool

record harts =
  cpus :: "nat \<Rightarrow> cpu"
  sie :: "nat \<Rightarrow> bool"
  locks :: "lock \<Rightarrow> spinlock"

definition initlock :: "lock \<Rightarrow> string \<Rightarrow> 'a harts_scheme \<Rightarrow> 'a harts_scheme" where
  "initlock l name s =
     s\<lparr>locks := (locks s)(l := \<lparr>sl_locked = 0, sl_name = name, sl_cpu = None\<rparr>)\<rparr>"

definition intr_get :: "nat \<Rightarrow> 'a harts_scheme \<Rightarrow> bool" where
  "intr_get h s = sie s h"

definition intr_off :: "nat \<Rightarrow> 'a harts_scheme \<Rightarrow> 'a harts_scheme" where
  "intr_off h s = s\<lparr>sie := (sie s)(h := False)\<rparr>"

definition intr_on :: "nat \<Rightarrow> 'a harts_scheme \<Rightarrow> 'a harts_scheme" where
  "intr_on h s = s\<lparr>sie := (sie s)(h := True)\<rparr>"

definition push_off :: "nat \<Rightarrow> 'a harts_scheme \<Rightarrow> 'a harts_scheme" where
  "push_off h s =
     (let old = intr_get h s;
          s1 = intr_off h s;
          c = cpus s1 h;
          c1 = (if noff c = 0 then c\<lparr>intena := old\<rparr> else c)
      in s1\<lparr>cpus := (cpus s1)(h := c1\<lparr>noff := noff c1 + 1\<rparr>)\<rparr>)"

definition pop_off :: "nat \<Rightarrow> 'a harts_scheme \<Rightarrow> (unit, 'a harts_scheme) outcome" where
  "pop_off h s =
     (let c = cpus s h in
      if intr_get h s then Panic ''pop_off - interruptible''
      else if noff c < 1 then Panic ''pop_off''
      else
        (let c1 = c\<lparr>noff := noff c - 1\<rparr>;
             s1 = s\<lparr>cpus := (cpus s)(h := c1)\<rparr>
         in Ok () (if noff c1 = 0 \<and> intena c1 then intr_on h s1 else s1)))"

definition holding :: "nat \<Rightarrow> lock \<Rightarrow> 'a harts_scheme \<Rightarrow> bool" where
  "holding h l s \<longleftrightarrow> sl_locked (locks s l) \<noteq> 0 \<and> sl_cpu (locks s l) = Some h"

definition test_and_set :: "lock \<Rightarrow> 'a harts_scheme \<Rightarrow> u32 \<times> 'a harts_scheme" where
  "test_and_set l s =
     (sl_locked (locks s l), s\<lparr>locks := (locks s)(l := (locks s l)\<lparr>sl_locked := 1\<rparr>)\<rparr>)"

definition set_cpu :: "lock \<Rightarrow> nat option \<Rightarrow> 'a harts_scheme \<Rightarrow> 'a harts_scheme" where
  "set_cpu l c s = s\<lparr>locks := (locks s)(l := (locks s l)\<lparr>sl_cpu := c\<rparr>)\<rparr>"

definition lock_release_word :: "lock \<Rightarrow> 'a harts_scheme \<Rightarrow> 'a harts_scheme" where
  "lock_release_word l s = s\<lparr>locks := (locks s)(l := (locks s l)\<lparr>sl_locked := 0\<rparr>)\<rparr>"

text \<open>
  One CPU running alone: the swap loop of \<open>acquire\<close> leaves at once when the word was 0 and
  otherwise never leaves (\<open>Spin\<close>), since nobody else can clear it.
\<close>

definition acquire :: "nat \<Rightarrow> lock \<Rightarrow> 'a harts_scheme \<Rightarrow> (unit, 'a harts_scheme) outcome" where
  "acquire h l s =
     (let s1 = push_off h s in
      if holding h l s1 then Panic ''acquire''
      else
        (case test_and_set l s1 of (old, s2) \<Rightarrow>
           if old \<noteq> 0 then Spin else Ok () (set_cpu l (Some h) s2)))"

definition release :: "nat \<Rightarrow> lock \<Rightarrow> 'a harts_scheme \<Rightarrow> (unit, 'a harts_scheme) outcome" where
  "release h l s =
     (if \<not> holding h l s then Panic ''release''
      else pop_off h (lock_release_word l (set_cpu l None s)))"

section \<open>Interleaved execution\<close>

text \<open>
  A CPU is running its own code, spinning in \<open>acquire\<close>, between the winning swap and the store
  to \<open>lk->cpu\<close>, between that field's reset and the releasing store, or before the final
  \<open>pop_off\<close>.  \<open>intr_on\<close> is called outside locks only (\<open>scheduler\<close>, \<open>usertrap\<close>).
  Matched calls of \<open>push_off\<close> and \<open>pop_off\<close> inside one function (\<open>myproc\<close>, \<open>uartputc_sync\<close>) and the \<open>intena\<close> that
  \<open>sched\<close> saves and restores are not steps.
\<close>

datatype pc = Running | Spinning lock | Recording lock | Unlocking lock | Popping lock

record smp = harts +
  pcs :: "nat \<Rightarrow> pc"

definition goto :: "nat \<Rightarrow> pc \<Rightarrow> smp \<Rightarrow> smp" where
  "goto h p s = s\<lparr>pcs := (pcs s)(h := p)\<rparr>"

inductive lock_step :: "smp \<Rightarrow> smp \<Rightarrow> bool" where
  acq_enter: "pcs s h = Running \<Longrightarrow> \<not> holding h l (push_off h s) \<Longrightarrow>
    lock_step s (goto h (Spinning l) (push_off h s))"
| acq_spin: "pcs s h = Spinning l \<Longrightarrow> test_and_set l s = (old, s1) \<Longrightarrow> old \<noteq> 0 \<Longrightarrow>
    lock_step s s1"
| acq_win: "pcs s h = Spinning l \<Longrightarrow> test_and_set l s = (old, s1) \<Longrightarrow> old = 0 \<Longrightarrow>
    lock_step s (goto h (Recording l) s1)"
| acq_record: "pcs s h = Recording l \<Longrightarrow>
    lock_step s (goto h Running (set_cpu l (Some h) s))"
| rel_enter: "pcs s h = Running \<Longrightarrow> holding h l s \<Longrightarrow>
    lock_step s (goto h (Unlocking l) (set_cpu l None s))"
| rel_unlock: "pcs s h = Unlocking l \<Longrightarrow>
    lock_step s (goto h (Popping l) (lock_release_word l s))"
| rel_pop: "pcs s h = Popping l \<Longrightarrow> pop_off h s = Ok () s1 \<Longrightarrow>
    lock_step s (goto h Running s1)"
| enable: "pcs s h = Running \<Longrightarrow> noff (cpus s h) = 0 \<Longrightarrow> lock_step s (intr_on h s)"
| disable: "pcs s h = Running \<Longrightarrow> lock_step s (intr_off h s)"

definition smp_init :: smp where
  "smp_init =
     \<lparr>cpus = (\<lambda>_. \<lparr>noff = 0, intena = False\<rparr>), sie = (\<lambda>_. False),
      locks = (\<lambda>_. \<lparr>sl_locked = 0, sl_name = [], sl_cpu = None\<rparr>), pcs = (\<lambda>_. Running)\<rparr>"

inductive smp_reach :: "smp \<Rightarrow> bool" where
  init: "smp_reach smp_init"
| step: "smp_reach s \<Longrightarrow> lock_step s t \<Longrightarrow> smp_reach t"

definition owns :: "smp \<Rightarrow> nat \<Rightarrow> lock \<Rightarrow> bool" where
  "owns s h l \<longleftrightarrow> pcs s h = Recording l \<or> pcs s h = Unlocking l \<or> holding h l s"

section \<open>The invariant\<close>

definition holder :: "smp \<Rightarrow> nat \<Rightarrow> lock set" where
  "holder s h = {l. sl_cpu (locks s l) = Some h}"

definition in_window :: "smp \<Rightarrow> nat \<Rightarrow> lock \<Rightarrow> bool" where
  "in_window s h l \<longleftrightarrow> pcs s h = Recording l \<or> pcs s h = Unlocking l"

definition word_ok :: "smp \<Rightarrow> lock \<Rightarrow> bool" where
  "word_ok s l \<longleftrightarrow>
     (sl_cpu (locks s l) \<noteq> None \<longrightarrow> sl_locked (locks s l) \<noteq> 0 \<and> (\<forall>h. \<not> in_window s h l)) \<and>
     (\<forall>h. in_window s h l \<longrightarrow> sl_locked (locks s l) \<noteq> 0) \<and>
     (\<forall>h h'. in_window s h l \<and> in_window s h' l \<longrightarrow> h = h')"

definition lock_word_inv :: "smp \<Rightarrow> bool" where
  "lock_word_inv s \<longleftrightarrow> (\<forall>l. word_ok s l)"

definition depth_inv :: "smp \<Rightarrow> bool" where
  "depth_inv s \<longleftrightarrow> (\<forall>h. finite (holder s h) \<and>
     noff (cpus s h) = int (card (holder s h)) + (if pcs s h = Running then 0 else 1) \<and>
     (noff (cpus s h) > 0 \<longrightarrow> \<not> sie s h))"

named_theorems spin_defs

lemmas [spin_defs] = goto_def push_off_def pop_off_def intr_get_def intr_off_def intr_on_def
  test_and_set_def set_cpu_def lock_release_word_def holding_def Let_def

lemma step_fields [simp]:
  "locks (push_off h s) = locks s" "sie (push_off h s) = (sie s)(h := False)"
  "noff (cpus (push_off h s) h') = (if h' = h then noff (cpus s h) + 1 else noff (cpus s h'))"
  "locks (set_cpu l c s) = (locks s)(l := (locks s l)\<lparr>sl_cpu := c\<rparr>)"
  "cpus (set_cpu l c s) = cpus s" "sie (set_cpu l c s) = sie s"
  "locks (lock_release_word l s) = (locks s)(l := (locks s l)\<lparr>sl_locked := 0\<rparr>)"
  "cpus (lock_release_word l s) = cpus s" "sie (lock_release_word l s) = sie s"
  "locks (intr_on h s) = locks s" "cpus (intr_on h s) = cpus s"
  "sie (intr_on h s) = (sie s)(h := True)"
  "locks (intr_off h s) = locks s" "cpus (intr_off h s) = cpus s"
  "sie (intr_off h s) = (sie s)(h := False)"
  by (simp_all add: spin_defs)

lemma step_fields_smp [simp]:
  "pcs (goto h p s) = (pcs s)(h := p)" "cpus (goto h p s) = cpus s" "sie (goto h p s) = sie s"
  "locks (goto h p s) = locks s"
  "pcs (push_off h s) = pcs s" "pcs (set_cpu l c s) = pcs s" "pcs (lock_release_word l s) = pcs s"
  "pcs (intr_on h s) = pcs s" "pcs (intr_off h s) = pcs s"
  by (simp_all add: spin_defs)

lemma word_ok_frame:
  assumes "word_ok s l" and "\<And>h. in_window t h l = in_window s h l"
    and "sl_cpu (locks t l) = sl_cpu (locks s l)"
    and "sl_locked (locks s l) \<noteq> 0 \<Longrightarrow> sl_locked (locks t l) \<noteq> 0"
  shows "word_ok t l"
  using assms unfolding word_ok_def by metis

lemma word_ok_step: "lock_step s t \<Longrightarrow> (\<And>l. word_ok s l) \<Longrightarrow> word_ok t l'"
proof (induction rule: lock_step.induct)
  case (acq_enter s h l)
  show ?case
    by (rule word_ok_frame [OF acq_enter.prems]) (use acq_enter.hyps in \<open>auto simp: in_window_def\<close>)
next
  case (acq_spin s h l old s1)
  then have s1: "s1 = s\<lparr>locks := (locks s)(l := (locks s l)\<lparr>sl_locked := 1\<rparr>)\<rparr>"
    by (simp add: test_and_set_def)
  show ?case
    by (rule word_ok_frame [OF acq_spin.prems]) (auto simp: s1 in_window_def)
next
  case (acq_win s h l old s1)
  then have s1: "s1 = s\<lparr>locks := (locks s)(l := (locks s l)\<lparr>sl_locked := 1\<rparr>)\<rparr>"
    and "sl_locked (locks s l) = 0"
    by (simp_all add: test_and_set_def)
  then have "sl_cpu (locks s l) = None" and "\<And>h'. \<not> in_window s h' l"
    using acq_win.prems [of l] by (auto simp: word_ok_def)
  then show ?case
  proof (cases "l' = l")
    case True
    with \<open>sl_cpu (locks s l) = None\<close> \<open>\<And>h'. \<not> in_window s h' l\<close> show ?thesis
      by (simp add: word_ok_def s1 in_window_def)
  next
    case False
    show ?thesis
      by (rule word_ok_frame [OF acq_win.prems])
        (use False acq_win.hyps in \<open>auto simp: s1 in_window_def\<close>)
  qed
next
  case (acq_record s h l)
  show ?case
  proof (cases "l' = l")
    case True
    with acq_record.hyps acq_record.prems [of l] show ?thesis
      unfolding word_ok_def by (auto simp: in_window_def)
  next
    case False
    show ?thesis
      by (rule word_ok_frame [OF acq_record.prems])
        (use False acq_record.hyps in \<open>auto simp: in_window_def\<close>)
  qed
next
  case (rel_enter s h l)
  show ?case
  proof (cases "l' = l")
    case True
    with rel_enter.hyps rel_enter.prems [of l] show ?thesis
      unfolding word_ok_def by (auto simp: in_window_def holding_def)
  next
    case False
    show ?thesis
      by (rule word_ok_frame [OF rel_enter.prems])
        (use False rel_enter.hyps in \<open>auto simp: in_window_def\<close>)
  qed
next
  case (rel_unlock s h l)
  show ?case
  proof (cases "l' = l")
    case True
    with rel_unlock.hyps rel_unlock.prems [of l] show ?thesis
      unfolding word_ok_def by (auto simp: in_window_def)
  next
    case False
    show ?thesis
      by (rule word_ok_frame [OF rel_unlock.prems])
        (use False rel_unlock.hyps in \<open>auto simp: in_window_def\<close>)
  qed
next
  case (rel_pop s h l s1)
  then have "pcs s1 = pcs s" "locks s1 = locks s"
    by (auto simp: spin_defs split: if_splits)
  with rel_pop show ?case
    by (intro word_ok_frame [OF rel_pop.prems]) (auto simp: in_window_def)
next
  case (enable s h)
  show ?case
    by (rule word_ok_frame [OF enable.prems]) (auto simp: in_window_def)
next
  case (disable s h)
  show ?case
    by (rule word_ok_frame [OF disable.prems]) (auto simp: in_window_def)
qed

lemma lock_word_inv_step: "lock_step s t \<Longrightarrow> lock_word_inv s \<Longrightarrow> lock_word_inv t"
  by (simp add: lock_word_inv_def word_ok_step)

lemma holder_simps [simp]:
  "holder (goto h p s) = holder s"
  "holder (push_off h s) = holder s"
  "holder (intr_on h s) = holder s"
  "holder (intr_off h s) = holder s"
  "holder (lock_release_word l s) = holder s"
  "holder (s\<lparr>locks := (locks s)(l := (locks s l)\<lparr>sl_locked := w\<rparr>)\<rparr>) = holder s"
  by (auto simp: holder_def spin_defs fun_eq_iff)

lemma holder_set_cpu:
  "holder (set_cpu l c s) h = (if c = Some h then insert l (holder s h) else holder s h - {l})"
  by (auto simp: holder_def set_cpu_def)

lemma pop_off_fields:
  assumes "pop_off h s = Ok () s1"
  shows "pcs s1 = pcs s" and "holder s1 = holder s"
    and "noff (cpus s1 h') = (if h' = h then noff (cpus s h) - 1 else noff (cpus s h'))"
    and "sie s1 h' \<Longrightarrow> h' = h \<and> noff (cpus s h) = 1 \<or> sie s h'"
  using assms by (auto simp: holder_def spin_defs fun_eq_iff split: if_splits)

lemma depth_inv_step:
  "lock_step s t \<Longrightarrow> lock_word_inv s \<Longrightarrow> depth_inv s \<Longrightarrow> depth_inv t"
proof (induction rule: lock_step.induct)
  case (acq_enter s h l)
  then show ?case by (simp add: depth_inv_def)
next
  case (acq_spin s h l old s1)
  then have "s1 = s\<lparr>locks := (locks s)(l := (locks s l)\<lparr>sl_locked := 1\<rparr>)\<rparr>"
    by (simp add: test_and_set_def)
  with acq_spin show ?case by (simp add: depth_inv_def)
next
  case (acq_win s h l old s1)
  then have "s1 = s\<lparr>locks := (locks s)(l := (locks s l)\<lparr>sl_locked := 1\<rparr>)\<rparr>"
    by (simp add: test_and_set_def)
  with acq_win show ?case by (simp add: depth_inv_def)
next
  case (acq_record s h l)
  then have "l \<notin> holder s h'" for h'
    by (force simp: holder_def lock_word_inv_def word_ok_def in_window_def)
  with acq_record show ?case
    by (simp add: depth_inv_def holder_set_cpu)
next
  case (rel_enter s h l)
  then have h: "l \<in> holder s h' \<longleftrightarrow> h' = h" for h'
    by (auto simp: holding_def holder_def)
  with rel_enter have "0 < card (holder s h)"
    by (auto simp: depth_inv_def card_gt_0_iff)
  with h rel_enter show ?case
    by (simp add: depth_inv_def holder_set_cpu card_Diff_singleton_if)
next
  case (rel_unlock s h l)
  then show ?case by (simp add: depth_inv_def)
next
  case (rel_pop s h l s1)
  note f = pop_off_fields [OF rel_pop.hyps(2)]
  have off: "noff (cpus s h') > 0 \<longrightarrow> \<not> sie s h'" for h'
    using rel_pop.prems(2) by (simp add: depth_inv_def)
  have "noff (cpus s1 h') > 0 \<longrightarrow> \<not> sie s1 h'" for h'
    using off [of h'] f(4) [of h'] unfolding f(3) by (auto split: if_splits)
  with rel_pop show ?case by (simp add: depth_inv_def f(1-3))
next
  case (enable s h)
  then show ?case by (simp add: depth_inv_def)
next
  case (disable s h)
  then show ?case by (simp add: depth_inv_def)
qed

lemma smp_reach_inv: "smp_reach s \<Longrightarrow> lock_word_inv s \<and> depth_inv s"
proof (induction rule: smp_reach.induct)
  case init
  show ?case
    by (auto simp: lock_word_inv_def word_ok_def in_window_def depth_inv_def smp_init_def holder_def)
next
  case (step s t)
  then show ?case by (blast intro: lock_word_inv_step depth_inv_step)
qed

section \<open>Properties\<close>

text \<open>
  C2: mutual exclusion.  In every interleaving of any number of CPUs through \<open>acquire\<close> and
  \<open>release\<close>, at most one CPU owns a given lock, where owning starts at the winning atomic swap
  and ends at the releasing store.
\<close>

theorem mutual_exclusion:
  assumes "smp_reach s" and "owns s h l" and "owns s h' l"
  shows "h = h'"
proof -
  from assms(1) have "lock_word_inv s"
    by (simp add: smp_reach_inv)
  with assms(2,3) show ?thesis
    unfolding lock_word_inv_def word_ok_def in_window_def owns_def holding_def
    by (metis option.distinct(1) option.inject)
qed

lemma smp_reach_one_holder:
  "smp_reach (goto 0 Running (set_cpu LkKmem (Some 0) (goto 0 (Recording LkKmem)
     (snd (test_and_set LkKmem (goto 0 (Spinning LkKmem) (push_off 0 smp_init)))))))"
proof -
  have "smp_reach (goto 0 (Spinning LkKmem) (push_off 0 smp_init))"
    by (rule smp_reach.step [OF smp_reach.init lock_step.acq_enter])
      (simp_all add: smp_init_def spin_defs)
  then have "smp_reach (goto 0 (Recording LkKmem)
      (snd (test_and_set LkKmem (goto 0 (Spinning LkKmem) (push_off 0 smp_init)))))"
    by (rule smp_reach.step [OF _ lock_step.acq_win [where h = 0 and l = LkKmem and old = 0]])
      (simp_all add: smp_init_def spin_defs)
  then show ?thesis
    by (rule smp_reach.step [OF _ lock_step.acq_record]) (simp add: spin_defs)
qed

theorem mutual_exclusion_witness:
  "\<exists>s. smp_reach s \<and> owns s 0 LkKmem \<and> (\<forall>h. owns s h LkKmem = (h = 0))"
proof -
  let ?s = "goto 0 Running (set_cpu LkKmem (Some 0) (goto 0 (Recording LkKmem)
     (snd (test_and_set LkKmem (goto 0 (Spinning LkKmem) (push_off 0 smp_init))))))"
  have o: "owns ?s 0 LkKmem"
    by (simp add: owns_def spin_defs)
  with smp_reach_one_holder have "owns ?s h LkKmem = (h = 0)" for h
    using mutual_exclusion [of ?s h LkKmem 0] by auto
  with o smp_reach_one_holder show ?thesis by blast
qed

text \<open>
  C33: interrupts stay off on a CPU from the moment it enters \<open>acquire\<close> until it has released its
  last lock, and the nesting depth \<open>noff\<close> equals the number of locks it holds or is operating on;
  so no interrupt handler can run while the CPU holds a spinlock.
\<close>

theorem interrupts_off_in_locks:
  assumes "smp_reach s" and "pcs s h \<noteq> Running \<or> holding h l s"
  shows "\<not> sie s h \<and> noff (cpus s h) =
    int (card {l. sl_cpu (locks s l) = Some h}) + (if pcs s h = Running then 0 else 1)"
proof -
  from assms(1) have d: "depth_inv s"
    by (simp add: smp_reach_inv)
  have "pcs s h = Running \<Longrightarrow> card (holder s h) > 0"
    using assms(2) d by (auto simp: depth_inv_def holding_def holder_def card_gt_0_iff)
  with d show ?thesis
    by (auto simp: depth_inv_def holder_def split: if_splits)
qed

theorem interrupts_off_in_locks_witness:
  "\<exists>s. smp_reach s \<and> holding 0 LkKmem s \<and> \<not> sie s 0"
proof -
  let ?s = "goto 0 Running (set_cpu LkKmem (Some 0) (goto 0 (Recording LkKmem)
     (snd (test_and_set LkKmem (goto 0 (Spinning LkKmem) (push_off 0 smp_init))))))"
  have o: "holding 0 LkKmem ?s"
    by (simp add: spin_defs)
  with smp_reach_one_holder show ?thesis
    using interrupts_off_in_locks [of ?s 0 LkKmem] by blast
qed

text \<open>
  C34: \<open>release\<close> never panics in \<open>pop_off\<close>: a CPU at the end of \<open>release\<close> always has interrupts
  off and a positive nesting depth.
\<close>

theorem release_pop_off_safe:
  assumes "smp_reach s" and "pcs s h = Popping l"
  shows "\<exists>s1. pop_off h s = Ok () s1 \<and> noff (cpus s1 h) = noff (cpus s h) - 1"
proof -
  from assms(1) have d: "depth_inv s"
    by (simp add: smp_reach_inv)
  with assms(2) have "noff (cpus s h) > 0" and "\<not> sie s h"
    by (auto simp: depth_inv_def dest!: spec [where x = h])
  then show ?thesis
    by (auto simp: pop_off_def intr_get_def intr_on_def Let_def)
qed

lemma smp_reach_popping:
  "\<exists>s. smp_reach s \<and> pcs s 0 = Popping LkKmem"
proof -
  let ?s = "goto 0 Running (set_cpu LkKmem (Some 0) (goto 0 (Recording LkKmem)
     (snd (test_and_set LkKmem (goto 0 (Spinning LkKmem) (push_off 0 smp_init))))))"
  have "smp_reach (goto 0 (Unlocking LkKmem) (set_cpu LkKmem None ?s))"
    by (rule smp_reach.step [OF smp_reach_one_holder lock_step.rel_enter])
      (simp_all add: spin_defs)
  then have "smp_reach (goto 0 (Popping LkKmem) (lock_release_word LkKmem
      (goto 0 (Unlocking LkKmem) (set_cpu LkKmem None ?s))))"
    by (rule smp_reach.step [OF _ lock_step.rel_unlock]) simp
  then show ?thesis by fastforce
qed

theorem release_pop_off_safe_witness:
  "\<exists>s s1. smp_reach s \<and> pcs s 0 = Popping LkKmem \<and> pop_off 0 s = Ok () s1"
  using smp_reach_popping release_pop_off_safe by blast

subsection \<open>Nesting\<close>

fun push_n :: "nat \<Rightarrow> nat \<Rightarrow> 'a harts_scheme \<Rightarrow> 'a harts_scheme" where
  "push_n 0 h s = s"
| "push_n (Suc n) h s = push_n n h (push_off h s)"

fun pop_n :: "nat \<Rightarrow> nat \<Rightarrow> 'a harts_scheme \<Rightarrow> (unit, 'a harts_scheme) outcome" where
  "pop_n 0 h s = Ok () s"
| "pop_n (Suc n) h s = obind (pop_off h s) (\<lambda>_ s1. pop_n n h s1)"

lemma push_n_fields:
  "0 \<le> noff (cpus s h) \<Longrightarrow>
     noff (cpus (push_n n h s) h) = noff (cpus s h) + int n \<and>
     sie (push_n n h s) = (if n = 0 then sie s else (sie s)(h := False)) \<and>
     intena (cpus (push_n n h s) h) =
       (if noff (cpus s h) = 0 \<and> 0 < n then sie s h else intena (cpus s h)) \<and>
     locks (push_n n h s) = locks s"
proof (induction n arbitrary: s)
  case 0
  then show ?case by simp
next
  case (Suc n)
  have i: "intena (cpus (push_off h s) h) =
      (if noff (cpus s h) = 0 then sie s h else intena (cpus s h))"
    by (simp add: spin_defs)
  from Suc.prems have "0 \<le> noff (cpus (push_off h s) h)"
    by simp
  from Suc.IH [OF this] Suc.prems i show ?case by auto
qed

lemma pop_n_fields:
  "\<not> sie s h \<Longrightarrow> int (Suc n) \<le> noff (cpus s h) \<Longrightarrow>
     ensures (pop_n (Suc n) h s) (\<lambda>_ t. noff (cpus t h) = noff (cpus s h) - int (Suc n) \<and>
       sie t = (sie s)(h := noff (cpus s h) = int (Suc n) \<and> intena (cpus s h)) \<and>
       locks t = locks s)"
proof (induction n arbitrary: s)
  case 0
  then show ?case by (auto simp: spin_defs fun_eq_iff)
next
  case (Suc n)
  let ?t = "s\<lparr>cpus := (cpus s)(h := (cpus s h)\<lparr>noff := noff (cpus s h) - 1\<rparr>)\<rparr>"
  from Suc.prems have p: "pop_off h s = Ok () ?t"
    by (simp add: spin_defs)
  have "ensures (pop_n (Suc n) h ?t) (\<lambda>_ t. noff (cpus t h) = noff (cpus ?t h) - int (Suc n) \<and>
       sie t = (sie ?t)(h := noff (cpus ?t h) = int (Suc n) \<and> intena (cpus ?t h)) \<and>
       locks t = locks ?t)"
    by (rule Suc.IH) (use Suc.prems in auto)
  then show ?case
    by (subst pop_n.simps, unfold p obind.simps) (erule ensures_mono, auto)
qed

text \<open>
  C35: \<open>push_off\<close> and \<open>pop_off\<close> nest: after \<open>n\<close> matched calls on a CPU no \<open>pop_off\<close> has panicked
  and the nesting depth, the interrupt enable bit and all locks are what they were before.
\<close>

theorem push_pop_nest:
  assumes "0 \<le> noff (cpus s h)" and "0 < noff (cpus s h) \<longrightarrow> \<not> sie s h"
  shows "ensures (pop_n n h (push_n n h s)) (\<lambda>_ t. noff (cpus t h) = noff (cpus s h) \<and>
    sie t = sie s \<and> locks t = locks s)"
proof (cases n)
  case 0
  then show ?thesis by simp
next
  case (Suc k)
  note f = push_n_fields [OF assms(1), of n]
  have "ensures (pop_n (Suc k) h (push_n n h s)) (\<lambda>_ t.
      noff (cpus t h) = noff (cpus (push_n n h s) h) - int (Suc k) \<and>
      sie t = (sie (push_n n h s))
        (h := noff (cpus (push_n n h s) h) = int (Suc k) \<and> intena (cpus (push_n n h s) h)) \<and>
      locks t = locks (push_n n h s))"
    by (rule pop_n_fields) (use f Suc assms(1) in auto)
  then show ?thesis
    unfolding Suc by (rule ensures_mono) (use f Suc assms in \<open>auto simp: fun_upd_idem\<close>)
qed

theorem push_pop_nest_witness:
  "ensures (pop_n 3 0 (push_n 3 0 (intr_on 0 smp_init))) (\<lambda>_ t. sie t 0)"
  using push_pop_nest [of "intr_on 0 smp_init" 0 3]
  by (auto simp: smp_init_def intr_on_def elim: ensures_mono)

subsection \<open>Refinement of the set-level lock operations\<close>

definition lock_view :: "nat \<Rightarrow> nat option \<Rightarrow> harts \<Rightarrow> kstate" where
  "lock_view h c s = \<lparr>held = {l. holding h l s}, cur = c\<rparr>"

text \<open>The interrupt state of a CPU after one more \<open>push_off\<close> and after a \<open>pop_off\<close>.\<close>

definition irq_pushed :: "nat \<Rightarrow> 'a harts_scheme \<Rightarrow> 'a harts_scheme \<Rightarrow> bool" where
  "irq_pushed h s t \<longleftrightarrow> sie t = (sie s)(h := False) \<and>
     cpus t = (cpus s)(h := (cpus s h)\<lparr>noff := noff (cpus s h) + 1,
       intena := (if noff (cpus s h) = 0 then sie s h else intena (cpus s h))\<rparr>)"

definition irq_popped :: "nat \<Rightarrow> 'a harts_scheme \<Rightarrow> 'a harts_scheme \<Rightarrow> bool" where
  "irq_popped h s t \<longleftrightarrow> sie t = (sie s)(h := noff (cpus s h) = 1 \<and> intena (cpus s h)) \<and>
     cpus t = (cpus s)(h := (cpus s h)\<lparr>noff := noff (cpus s h) - 1\<rparr>)"

text \<open>The locks of the other CPUs.\<close>

definition others_keep :: "nat \<Rightarrow> harts \<Rightarrow> harts \<Rightarrow> bool" where
  "others_keep h s t \<longleftrightarrow> (\<forall>h' c. h' \<noteq> h \<longrightarrow> lock_view h' c t = lock_view h' c s)"

lemma acquire_cases:
  "acquire h l s =
     (if holding h l s then Panic ''acquire''
      else if sl_locked (locks s l) \<noteq> 0 then Spin
      else Ok () (set_cpu l (Some h) (snd (test_and_set l (push_off h s)))))"
  by (simp add: acquire_def holding_def test_and_set_def Let_def)

lemma acquire_irq: "acquire h l s = Ok () t \<Longrightarrow> irq_pushed h s t"
  by (auto simp: acquire_cases irq_pushed_def test_and_set_def push_off_def intr_off_def intr_get_def Let_def fun_eq_iff
      split: if_splits)

lemma release_irq: "release h l s = Ok () t \<Longrightarrow> irq_popped h s t"
  by (auto simp: release_def irq_popped_def pop_off_def intr_get_def intr_on_def Let_def fun_eq_iff split: if_splits)

lemma lock_others:
  "acquire h l s = Ok () t \<Longrightarrow> others_keep h s t" "release h l s = Ok () t \<Longrightarrow> others_keep h s t"
  by (auto simp: acquire_cases release_def others_keep_def lock_view_def holding_def test_and_set_def pop_off_def intr_get_def
      intr_on_def set_cpu_def lock_release_word_def Let_def split: if_splits)

text \<open>
  C24: On one CPU, \<open>initlock\<close>, \<open>acquire\<close> and \<open>release\<close> implement the operations on the set of held locks.  \<open>acquire\<close>
  spins exactly when another CPU has the lock; otherwise it has the outcome of \<open>lk_acquire\<close> on the
  locks that \<open>holding()\<close> reports, so it panics when the CPU holds the lock already.  \<open>release\<close>, with interrupts
  off and a positive depth, has the outcome of \<open>lk_release\<close>.  An \<open>acquire\<close> that returns has turned interrupts
  off, one level deeper, with the enable bit saved at the first level; a \<open>release\<close> goes back one level and
  turns them on again at the last when they were on.  What other CPUs hold does not change.
\<close>

theorem acquire_release_refine:
  "lk_init l (lock_view h c s) = lock_view h c (initlock l n s) \<and>
   (acquire h l s = Spin \<longleftrightarrow> sl_locked (locks s l) \<noteq> 0 \<and> \<not> holding h l s) \<and>
   (acquire h l s \<noteq> Spin \<longrightarrow>
      lk_acquire l (lock_view h c s) = map_outcome id (lock_view h c) (acquire h l s)) \<and>
   (1 \<le> noff (cpus s h) \<and> \<not> sie s h \<longrightarrow>
      lk_release l (lock_view h c s) = map_outcome id (lock_view h c) (release h l s)) \<and>
   (\<forall>t. acquire h l s = Ok () t \<longrightarrow> irq_pushed h s t \<and> others_keep h s t) \<and>
   (\<forall>t. release h l s = Ok () t \<longrightarrow> irq_popped h s t \<and> others_keep h s t)"
proof (intro conjI)
  show "lk_init l (lock_view h c s) = lock_view h c (initlock l n s)"
    by (auto simp: lk_init_def lock_view_def holding_def initlock_def)
  show "acquire h l s = Spin \<longleftrightarrow> sl_locked (locks s l) \<noteq> 0 \<and> \<not> holding h l s"
    by (simp add: acquire_cases)
  show "acquire h l s \<noteq> Spin \<longrightarrow>
      lk_acquire l (lock_view h c s) = map_outcome id (lock_view h c) (acquire h l s)"
    by (auto simp: acquire_cases lock_view_def lk_acquire_def holding_def test_and_set_def)
  show "1 \<le> noff (cpus s h) \<and> \<not> sie s h \<longrightarrow>
      lk_release l (lock_view h c s) = map_outcome id (lock_view h c) (release h l s)"
    by (auto simp: release_def lock_view_def lk_release_def holding_def pop_off_def intr_get_def
        intr_on_def set_cpu_def lock_release_word_def Let_def)
qed (use acquire_irq release_irq lock_others in blast)+

theorem acquire_release_refine_witness:
  "\<exists>s1. acquire 0 LkLog (harts.truncate smp_init) = Ok () s1 \<and> noff (cpus s1 0) = 1 \<and>
     lk_acquire LkLog (lock_view 0 None (harts.truncate smp_init)) = Ok () (lock_view 0 None s1) \<and>
     lk_release LkLog (lock_view 0 None s1) = map_outcome id (lock_view 0 None) (release 0 LkLog s1) \<and>
     acquire 0 LkLog s1 = Panic ''acquire'' \<and> lk_acquire LkLog (lock_view 0 None s1) = Panic ''acquire'' \<and>
     acquire 1 LkLog s1 = Spin"
proof -
  let ?s = "harts.truncate smp_init"
  obtain s1 where s1: "acquire 0 LkLog ?s = Ok () s1" "sl_locked (locks s1 LkLog) \<noteq> 0" "sl_cpu (locks s1 LkLog) = Some 0"
    by (simp add: acquire_def smp_init_def harts.truncate_def spin_defs)
  have p: "irq_pushed 0 ?s s1" using acquire_release_refine [of LkLog 0 None ?s] s1(1) by simp
  then have n: "noff (cpus s1 0) = 1" "\<not> sie s1 0" by (simp_all add: irq_pushed_def smp_init_def harts.truncate_def)
  have "acquire 0 LkLog s1 = Panic ''acquire''" using s1 by (simp add: acquire_cases holding_def)
  moreover have "acquire 1 LkLog s1 = Spin"
    using acquire_release_refine [of LkLog 1 None s1] s1 by (simp add: holding_def)
  ultimately show ?thesis
    using acquire_release_refine [of LkLog 0 None ?s] acquire_release_refine [of LkLog 0 None s1] s1(1) n by simp
qed

end
