(* ===== verification/Bytes.thy ===== *)
theory Bytes
  imports Prelude
begin

text \<open>
  Byte-addressed storage, shared by physical memory and by disk blocks: little-endian loads and
  stores of 16-, 32- and 64-bit words with their read-over-write laws, and the block moves every
  copy of the kernel is built from.
\<close>

type_synonym bytes = "nat \<Rightarrow> u8"

section \<open>Little-endian words\<close>

fun le_bytes :: "nat \<Rightarrow> 'a::len word \<Rightarrow> u8 list" where
  "le_bytes 0 w = []"
| "le_bytes (Suc n) w = ucast w # le_bytes n (drop_bit 8 w)"

fun le_word :: "u8 list \<Rightarrow> 'a::len word" where
  "le_word [] = 0"
| "le_word (b # bs) = ucast b OR push_bit 8 (le_word bs)"

lemma length_le_bytes [simp]: "length (le_bytes n w) = n"
  by (induction n arbitrary: w) auto

lemma le_word_le_bytes:
  "le_word (le_bytes n (w :: 'a::len word)) = (take_bit (8 * n) w :: 'a word)"
proof (induction n arbitrary: w)
  case 0
  then show ?case by simp
next
  case (Suc n)
  show ?case
    by (rule bit_word_eqI)
      (auto simp: Suc bit_simps not_less)
qed

lemma le_word_le_bytes_full:
  "LENGTH('a) \<le> 8 * n \<Longrightarrow> le_word (le_bytes n (w :: 'a::len word)) = w"
  by (simp add: le_word_le_bytes take_bit_word_eq_self)

section \<open>Reading and writing runs of bytes\<close>

definition read_bytes :: "bytes \<Rightarrow> nat \<Rightarrow> nat \<Rightarrow> u8 list" where
  "read_bytes m a n = map (\<lambda>i. m (a + i)) [0..<n]"

definition write_bytes :: "bytes \<Rightarrow> nat \<Rightarrow> u8 list \<Rightarrow> bytes" where
  "write_bytes m a bs = (\<lambda>x. if a \<le> x \<and> x < a + length bs then bs ! (x - a) else m x)"

lemma length_read_bytes [simp]: "length (read_bytes m a n) = n"
  by (simp add: read_bytes_def)

lemma nth_read_bytes [simp]: "i < n \<Longrightarrow> read_bytes m a n ! i = m (a + i)"
  by (simp add: read_bytes_def)

lemma read_bytes_0 [simp]: "read_bytes m a 0 = []"
  by (simp add: read_bytes_def)

lemma read_bytes_cong:
  "(\<And>x. a \<le> x \<Longrightarrow> x < a + n \<Longrightarrow> m x = m' x) \<Longrightarrow> read_bytes m a n = read_bytes m' a n"
  by (simp add: read_bytes_def)

lemma read_bytes_add: "read_bytes m a (j + k) = read_bytes m a j @ read_bytes m (a + j) k"
  by (rule nth_equalityI) (auto simp: nth_append add.assoc)

lemma write_bytes_Nil [simp]: "write_bytes m a [] = m"
  by (auto simp: write_bytes_def fun_eq_iff)

lemma write_bytes_outside [simp]:
  "x < a \<or> a + length bs \<le> x \<Longrightarrow> write_bytes m a bs x = m x"
  by (auto simp: write_bytes_def)

lemma write_bytes_inside:
  "a \<le> x \<Longrightarrow> x < a + length bs \<Longrightarrow> write_bytes m a bs x = bs ! (x - a)"
  by (simp add: write_bytes_def)

lemma read_write_bytes_same [simp]:
  "length bs = n \<Longrightarrow> read_bytes (write_bytes m a bs) a n = bs"
  by (rule nth_equalityI) (auto simp: write_bytes_def)

lemma read_write_bytes_disjoint:
  "a + n \<le> b \<or> b + length bs \<le> a \<Longrightarrow> read_bytes (write_bytes m b bs) a n = read_bytes m a n"
  by (rule read_bytes_cong) (auto simp: write_bytes_def)

lemma write_bytes_append:
  "write_bytes m a (bs @ cs) = write_bytes (write_bytes m a bs) (a + length bs) cs"
  by (auto simp: write_bytes_def fun_eq_iff nth_append)

lemma write_read_bytes_same [simp]: "write_bytes m a (read_bytes m a n) = m"
  by (auto simp: write_bytes_def fun_eq_iff)

section \<open>Words in storage\<close>

definition load16 :: "bytes \<Rightarrow> nat \<Rightarrow> u16" where
  "load16 m a = le_word (read_bytes m a 2)"

definition load32 :: "bytes \<Rightarrow> nat \<Rightarrow> u32" where
  "load32 m a = le_word (read_bytes m a 4)"

definition load64 :: "bytes \<Rightarrow> nat \<Rightarrow> u64" where
  "load64 m a = le_word (read_bytes m a 8)"

definition store16 :: "bytes \<Rightarrow> nat \<Rightarrow> u16 \<Rightarrow> bytes" where
  "store16 m a w = write_bytes m a (le_bytes 2 w)"

definition store32 :: "bytes \<Rightarrow> nat \<Rightarrow> u32 \<Rightarrow> bytes" where
  "store32 m a w = write_bytes m a (le_bytes 4 w)"

definition store64 :: "bytes \<Rightarrow> nat \<Rightarrow> u64 \<Rightarrow> bytes" where
  "store64 m a w = write_bytes m a (le_bytes 8 w)"

lemma load_store_same [simp]:
  "load16 (store16 m a v) a = v"
  "load32 (store32 m a w) a = w"
  "load64 (store64 m a x) a = x"
  by (simp_all add: load16_def store16_def load32_def store32_def load64_def store64_def
      le_word_le_bytes_full)

lemma load16_cong: "(\<And>x. a \<le> x \<Longrightarrow> x < a + 2 \<Longrightarrow> m x = m' x) \<Longrightarrow> load16 m a = load16 m' a"
  and load32_cong: "(\<And>x. a \<le> x \<Longrightarrow> x < a + 4 \<Longrightarrow> m x = m' x) \<Longrightarrow> load32 m a = load32 m' a"
  and load64_cong: "(\<And>x. a \<le> x \<Longrightarrow> x < a + 8 \<Longrightarrow> m x = m' x) \<Longrightarrow> load64 m a = load64 m' a"
  unfolding load16_def load32_def load64_def
  by (auto cong: read_bytes_cong intro!: arg_cong [where f = le_word] read_bytes_cong)

lemma store16_outside [simp]: "x < a \<or> a + 2 \<le> x \<Longrightarrow> store16 m a w x = m x"
  and store32_outside [simp]: "x < a \<or> a + 4 \<le> x \<Longrightarrow> store32 m a v x = m x"
  and store64_outside [simp]: "x < a \<or> a + 8 \<le> x \<Longrightarrow> store64 m a u x = m x"
  by (simp_all add: store16_def store32_def store64_def)

lemma load64_store64_disjoint:
  "a + 8 \<le> b \<or> b + 8 \<le> a \<Longrightarrow> load64 (store64 m b w) a = load64 m a"
  by (rule load64_cong) auto

lemma load32_store32_disjoint:
  "a + 4 \<le> b \<or> b + 4 \<le> a \<Longrightarrow> load32 (store32 m b w) a = load32 m a"
  by (rule load32_cong) auto

lemma load16_store16_disjoint:
  "a + 2 \<le> b \<or> b + 2 \<le> a \<Longrightarrow> load16 (store16 m b w) a = load16 m a"
  by (rule load16_cong) auto

lemma load16_store32_disjoint: "a + 2 \<le> b \<or> b + 4 \<le> a \<Longrightarrow> load16 (store32 m b w) a = load16 m a"
  by (rule load16_cong) auto

lemma le_word_zero: "(\<forall>b \<in> set bs. b = 0) \<Longrightarrow> le_word bs = 0"
  by (induction bs) auto

lemma load64_zero: "(\<And>x. a \<le> x \<Longrightarrow> x < a + 8 \<Longrightarrow> m x = 0) \<Longrightarrow> load64 m a = 0"
  by (auto simp: load64_def read_bytes_def intro!: le_word_zero)

lemma load32_zero: "(\<And>x. a \<le> x \<Longrightarrow> x < a + 4 \<Longrightarrow> m x = 0) \<Longrightarrow> load32 m a = 0"
  by (auto simp: load32_def read_bytes_def intro!: le_word_zero)

lemma load16_zero: "(\<And>x. a \<le> x \<Longrightarrow> x < a + 2 \<Longrightarrow> m x = 0) \<Longrightarrow> load16 m a = 0"
  by (auto simp: load16_def read_bytes_def intro!: le_word_zero)

end
