(* ===== verification/Cstring.thy ===== *)
theory Cstring
  imports Bytes
begin

text \<open>
  kernel/string.c over byte-addressed memory.  A pointer is an address; the loops are the loops
  of the source, one recursive call per iteration.  The lemmas relate them to the reference
  operations of \<open>Bytes\<close>: \<open>memmove\<close> is the simultaneous copy whatever the overlap,
  \<open>strncmp\<close> decides equality of the NUL-terminated prefixes, \<open>strncpy\<close> pads and
  \<open>safestrcpy\<close> always terminates.
\<close>

section \<open>Definitions\<close>

function memset_loop :: "bytes \<Rightarrow> nat \<Rightarrow> u32 \<Rightarrow> nat \<Rightarrow> nat \<Rightarrow> bytes" where
  "memset_loop m dst c i n =
     (if i < n then memset_loop (m(dst + i := ucast c)) dst c (Suc i) n else m)"
  by pat_completeness auto
termination
  by (relation "measure (\<lambda>(m, dst, c, i, n). n - i)") auto

declare memset_loop.simps [simp del]

definition memset :: "bytes \<Rightarrow> nat \<Rightarrow> u32 \<Rightarrow> nat \<Rightarrow> bytes" where
  "memset m dst c n = memset_loop m dst c 0 n"

fun memcmp :: "bytes \<Rightarrow> nat \<Rightarrow> nat \<Rightarrow> nat \<Rightarrow> int" where
  "memcmp m s1 s2 0 = 0"
| "memcmp m s1 s2 (Suc n) =
     (if m s1 \<noteq> m s2 then uint (m s1) - uint (m s2) else memcmp m (s1 + 1) (s2 + 1) n)"

fun copy_backward :: "bytes \<Rightarrow> nat \<Rightarrow> nat \<Rightarrow> nat \<Rightarrow> bytes" where
  "copy_backward m d s 0 = m"
| "copy_backward m d s (Suc n) = copy_backward (m(d - 1 := m (s - 1))) (d - 1) (s - 1) n"

fun copy_forward :: "bytes \<Rightarrow> nat \<Rightarrow> nat \<Rightarrow> nat \<Rightarrow> bytes" where
  "copy_forward m d s 0 = m"
| "copy_forward m d s (Suc n) = copy_forward (m(d := m s)) (d + 1) (s + 1) n"

definition memmove :: "bytes \<Rightarrow> nat \<Rightarrow> nat \<Rightarrow> nat \<Rightarrow> bytes" where
  "memmove m dst src n =
     (if n = 0 then m
      else if src < dst \<and> src + n > dst then copy_backward m (dst + n) (src + n) n
      else copy_forward m dst src n)"

definition memcpy :: "bytes \<Rightarrow> nat \<Rightarrow> nat \<Rightarrow> nat \<Rightarrow> bytes" where
  "memcpy m dst src n = memmove m dst src n"

fun strncmp :: "bytes \<Rightarrow> nat \<Rightarrow> nat \<Rightarrow> nat \<Rightarrow> int" where
  "strncmp m p q 0 = 0"
| "strncmp m p q (Suc n) =
     (if m p \<noteq> 0 \<and> m p = m q then strncmp m (p + 1) (q + 1) n
      else uint (m p) - uint (m q))"

function strncpy_copy :: "bytes \<Rightarrow> nat \<Rightarrow> nat \<Rightarrow> int \<Rightarrow> bytes \<times> nat \<times> int" where
  "strncpy_copy m s t n =
     (if n > 0
      then (let m' = m(s := m t) in
            if m t \<noteq> 0 then strncpy_copy m' (Suc s) (Suc t) (n - 1) else (m', Suc s, n - 1))
      else (m, s, n - 1))"
  by pat_completeness auto
termination
  by (relation "measure (\<lambda>(m, s, t, n). nat n)") auto

function strncpy_pad :: "bytes \<Rightarrow> nat \<Rightarrow> int \<Rightarrow> bytes" where
  "strncpy_pad m s n = (if n > 0 then strncpy_pad (m(s := 0)) (Suc s) (n - 1) else m)"
  by pat_completeness auto
termination
  by (relation "measure (\<lambda>(m, s, n). nat n)") auto

declare strncpy_copy.simps [simp del] strncpy_pad.simps [simp del]

definition strncpy :: "bytes \<Rightarrow> nat \<Rightarrow> nat \<Rightarrow> int \<Rightarrow> bytes" where
  "strncpy m s t n =
     (case strncpy_copy m s t n of (m', s', n') \<Rightarrow> strncpy_pad m' s' n')"

function safestrcpy_copy :: "bytes \<Rightarrow> nat \<Rightarrow> nat \<Rightarrow> int \<Rightarrow> bytes \<times> nat" where
  "safestrcpy_copy m s t n =
     (if n - 1 > 0
      then (let m' = m(s := m t) in
            if m t \<noteq> 0 then safestrcpy_copy m' (Suc s) (Suc t) (n - 1) else (m', Suc s))
      else (m, s))"
  by pat_completeness auto
termination
  by (relation "measure (\<lambda>(m, s, t, n). nat n)") auto

declare safestrcpy_copy.simps [simp del]

definition safestrcpy :: "bytes \<Rightarrow> nat \<Rightarrow> nat \<Rightarrow> int \<Rightarrow> bytes" where
  "safestrcpy m s t n =
     (if n \<le> 0 then m
      else case safestrcpy_copy m s t n of (m', s') \<Rightarrow> m'(s' := 0))"

partial_function (option) strlen_from :: "bytes \<Rightarrow> nat \<Rightarrow> nat \<Rightarrow> nat option" where
  "strlen_from m s n = (if m (s + n) = 0 then Some n else strlen_from m s (Suc n))"

definition strlen :: "bytes \<Rightarrow> nat \<Rightarrow> nat option" where
  "strlen m s = strlen_from m s 0"

text \<open>Reference: the NUL-terminated string at an address, cut at \<open>n\<close> bytes.\<close>

definition cstr :: "bytes \<Rightarrow> nat \<Rightarrow> nat \<Rightarrow> u8 list" where
  "cstr m p n = takeWhile (\<lambda>c. c \<noteq> 0) (read_bytes m p n)"

section \<open>Strings and variable arguments as lists\<close>

text \<open>
  Where a string is only read, it is the list of its bytes before the NUL, which \<open>nth0\<close> reads at an
  index, the NUL included.  The variable arguments of \<open>printf\<close> are a list of values of the type
  \<open>va_arg\<close> asks for.
\<close>

definition str :: "string \<Rightarrow> u8 list" where
  "str cs = map of_char cs"

definition nth0 :: "u8 list \<Rightarrow> nat \<Rightarrow> u8" where
  "nth0 cs i = (if i < length cs then cs ! i else 0)"

lemma nth0_simps [simp]:
  "nth0 [] i = 0" "nth0 (x # xs) 0 = x" "nth0 (x # xs) (Suc i) = nth0 xs i"
  by (simp_all add: nth0_def)

datatype printf_arg = AInt u32 | ALong u64 | AStr "u8 list option"

fun va_int :: "printf_arg list \<Rightarrow> (u32 \<times> printf_arg list) option" where
  "va_int (AInt x # as) = Some (x, as)"
| "va_int _ = None"

fun va_long :: "printf_arg list \<Rightarrow> (u64 \<times> printf_arg list) option" where
  "va_long (ALong x # as) = Some (x, as)"
| "va_long _ = None"

fun va_str :: "printf_arg list \<Rightarrow> (u8 list option \<times> printf_arg list) option" where
  "va_str (AStr x # as) = Some (x, as)"
| "va_str _ = None"

section \<open>memset\<close>

lemma memset_loop_eq:
  "memset_loop m dst c i n =
     (\<lambda>x. if dst + i \<le> x \<and> x < dst + n then ucast c else m x)"
proof (induction m dst c i n rule: memset_loop.induct)
  case (1 m dst c i n)
  show ?case
  proof (cases "i < n")
    case True
    then show ?thesis
      by (subst memset_loop.simps) (auto simp: 1 fun_eq_iff)
  next
    case False
    then show ?thesis by (subst memset_loop.simps) (auto simp: fun_eq_iff)
  qed
qed

lemma memset_eq:
  "memset m dst c n = (\<lambda>x. if dst \<le> x \<and> x < dst + n then ucast c else m x)"
  by (simp add: memset_def memset_loop_eq)

lemma memset_outside [simp]: "x < dst \<or> dst + n \<le> x \<Longrightarrow> memset m dst c n x = m x"
  by (auto simp: memset_eq)

lemma memset_inside: "dst \<le> x \<Longrightarrow> x < dst + n \<Longrightarrow> memset m dst c n x = ucast c"
  by (simp add: memset_eq)

section \<open>memmove\<close>

lemma copy_forward_eq:
  "d \<le> s \<or> s + n \<le> d \<Longrightarrow> copy_forward m d s n = write_bytes m d (read_bytes m s n)"
proof (induction n arbitrary: m d s)
  case 0
  then show ?case by simp
next
  case (Suc n)
  have "copy_forward m d s (Suc n) =
      write_bytes (m(d := m s)) (d + 1) (read_bytes (m(d := m s)) (s + 1) n)"
    unfolding copy_forward.simps using Suc.prems by (intro Suc.IH) auto
  also have "read_bytes (m(d := m s)) (s + 1) n = read_bytes m (s + 1) n"
    using Suc.prems by (intro read_bytes_cong) auto
  finally show ?case
    by (auto simp: write_bytes_def fun_eq_iff intro!: arg_cong [where f = m])
qed

lemma copy_backward_eq:
  "s \<le> d \<Longrightarrow> copy_backward m (d + n) (s + n) n = write_bytes m d (read_bytes m s n)"
proof (induction n arbitrary: m)
  case 0
  then show ?case by simp
next
  case (Suc n)
  let ?m = "m(d + n := m (s + n))"
  have "copy_backward m (d + Suc n) (s + Suc n) (Suc n) = write_bytes ?m d (read_bytes ?m s n)"
    using Suc by simp
  also have "read_bytes ?m s n = read_bytes m s n"
    using Suc.prems by (intro read_bytes_cong) auto
  finally show ?case
    by (auto simp: write_bytes_def read_bytes_def fun_eq_iff nth_append simp del: upt_Suc)
qed

lemma memmove_eq: "memmove m dst src n = write_bytes m dst (read_bytes m src n)"
  by (auto simp: memmove_def copy_forward_eq copy_backward_eq)

text \<open>
  C29: whatever the two regions' overlap, \<open>memmove\<close> behaves as if the whole source had been read
  before the first byte is written: afterwards the destination holds the old source bytes and
  every byte outside the destination is unchanged.
\<close>

theorem memmove_overlap:
  "memmove m dst src n =
     (\<lambda>x. if dst \<le> x \<and> x < dst + n then m (src + (x - dst)) else m x)"
  by (auto simp: memmove_eq write_bytes_def fun_eq_iff)

section \<open>Comparison\<close>

lemma read_bytes_Suc: "read_bytes m p (Suc n) = m p # read_bytes m (p + 1) n"
  by (rule nth_equalityI) (auto simp: nth_Cons split: nat.splits)

lemma cstr_Suc: "cstr m p (Suc n) = (if m p = 0 then [] else m p # cstr m (p + 1) n)"
  by (simp add: cstr_def read_bytes_Suc)

lemma cstr_0 [simp]: "cstr m p 0 = []"
  by (simp add: cstr_def)

text \<open>
  C38: \<open>strncmp\<close> returns 0 exactly when the two NUL-terminated strings agree on their first \<open>n\<close>
  bytes; this is the comparison \<open>namecmp\<close> uses for directory entries.
\<close>

theorem strncmp_equal_strings: "strncmp m p q n = 0 \<longleftrightarrow> cstr m p n = cstr m q n"
proof (induction n arbitrary: p q)
  case 0
  then show ?case by simp
next
  case (Suc n)
  then show ?case
    by (auto simp: cstr_Suc word_eq_iff_unsigned [where ?'a = int])
qed

lemma memcmp_eq_0: "memcmp m p q n = 0 \<longleftrightarrow> read_bytes m p n = read_bytes m q n"
  by (induction n arbitrary: p q) (auto simp: read_bytes_Suc word_eq_iff_unsigned [where ?'a = int])

section \<open>Bounded copies\<close>

lemma length_cstr: "length (cstr m p n) \<le> n"
  using length_takeWhile_le [of "\<lambda>c. c \<noteq> 0" "read_bytes m p n"] by (simp add: cstr_def)

lemma cstr_nonzero: "c \<in> set (cstr m p n) \<Longrightarrow> c \<noteq> 0"
  by (auto simp: cstr_def dest: set_takeWhileD)

lemma cstr_cong:
  "(\<And>x. p \<le> x \<Longrightarrow> x < p + n \<Longrightarrow> m x = m' x) \<Longrightarrow> cstr m p n = cstr m' p n"
  unfolding cstr_def by (rule arg_cong [where f = "takeWhile _"], rule read_bytes_cong)

lemma cstr_write:
  assumes "\<forall>c \<in> set bs. c \<noteq> 0" and "length bs < n"
  shows "cstr (write_bytes m p (bs @ 0 # cs)) p n = bs"
proof -
  have "read_bytes (write_bytes m p (bs @ 0 # cs)) p (length bs + Suc (n - Suc (length bs))) =
      bs @ 0 # read_bytes (write_bytes m p (bs @ 0 # cs)) (p + length bs + 1) (n - Suc (length bs))"
    unfolding read_bytes_add read_bytes_Suc
    by (auto simp: write_bytes_inside nth_append intro!: nth_equalityI)
  then show ?thesis
    using assms by (simp add: cstr_def)
qed

lemma strncpy_pad_eq:
  "strncpy_pad m s n = (\<lambda>x. if s \<le> x \<and> x < s + nat n then 0 else m x)"
proof (induction m s n rule: strncpy_pad.induct)
  case (1 m s n)
  show ?case
    by (subst strncpy_pad.simps) (auto simp: 1 fun_eq_iff)
qed

lemma strncpy_eq_nat:
  assumes "s + n \<le> t \<or> t + n \<le> s"
  shows "strncpy m s t (int n) =
    write_bytes m s (cstr m t n @ replicate (n - length (cstr m t n)) 0)"
  using assms unfolding strncpy_def
proof (induction n arbitrary: m s t)
  case 0
  show ?case
    by (subst strncpy_copy.simps) (auto simp: strncpy_pad_eq fun_eq_iff)
next
  case (Suc n)
  show ?case
  proof (cases "m t = 0")
    case True
    then show ?thesis
      by (subst strncpy_copy.simps)
        (auto simp: strncpy_pad_eq write_bytes_def fun_eq_iff cstr_Suc nth_Cons split: nat.splits)
  next
    case False
    let ?m = "m(s := m t)"
    have L: "cstr ?m (Suc t) n = cstr m (Suc t) n"
      using Suc.prems by (intro cstr_cong) auto
    have "(case strncpy_copy ?m (Suc s) (Suc t) (int n) of (m', s', n') \<Rightarrow> strncpy_pad m' s' n') =
        write_bytes ?m (Suc s) (cstr m (Suc t) n @ replicate (n - length (cstr m (Suc t) n)) 0)"
      unfolding L [symmetric] by (rule Suc.IH) (use Suc.prems in auto)
    then show ?thesis
      using False
      by (subst strncpy_copy.simps) (auto simp: cstr_Suc write_bytes_def fun_eq_iff)
  qed
qed

lemma strncpy_eq:
  assumes "s + nat n \<le> t \<or> t + nat n \<le> s" and "0 \<le> n"
  shows "strncpy m s t n =
    write_bytes m s (cstr m t (nat n) @ replicate (nat n - length (cstr m t (nat n))) 0)"
  using strncpy_eq_nat [OF assms(1), of m] assms(2) by simp

lemma safestrcpy_copy_eq:
  assumes "s + Suc n \<le> t \<or> t + Suc n \<le> s"
  shows "(case safestrcpy_copy m s t (int (Suc n)) of (m', s') \<Rightarrow> m'(s' := 0)) =
    write_bytes m s (cstr m t n @ 0 # (if length (cstr m t n) < n then [0] else []))"
  using assms
proof (induction n arbitrary: m s t)
  case 0
  show ?case
    by (subst safestrcpy_copy.simps) (auto simp: write_bytes_def fun_eq_iff)
next
  case (Suc n)
  show ?case
  proof (cases "m t = 0")
    case True
    then show ?thesis
      by (subst safestrcpy_copy.simps)
        (auto simp: write_bytes_def fun_eq_iff cstr_Suc nth_Cons split: nat.splits)
  next
    case False
    let ?m = "m(s := m t)"
    have L: "cstr ?m (Suc t) n = cstr m (Suc t) n"
      using Suc.prems by (intro cstr_cong) auto
    have n: "int (Suc (Suc n)) - 1 = int (Suc n)"
      by simp
    have "(case safestrcpy_copy ?m (Suc s) (Suc t) (int (Suc n)) of (m', s') \<Rightarrow> m'(s' := 0)) =
        write_bytes ?m (Suc s) (cstr m (Suc t) n @ 0 #
          (if length (cstr m (Suc t) n) < n then [0] else []))"
      unfolding L [symmetric] by (rule Suc.IH) (use Suc.prems in auto)
    then show ?thesis
      using False
      by (subst safestrcpy_copy.simps, unfold n)
        (auto simp: cstr_Suc write_bytes_def fun_eq_iff)
  qed
qed

text \<open>
  C39: for regions that do not overlap, \<open>safestrcpy\<close> into a buffer of \<open>n > 0\<close> bytes leaves there
  the source string cut at \<open>n - 1\<close> bytes, always NUL-terminated inside the buffer, and changes no
  byte outside it.
\<close>

theorem safestrcpy_terminated:
  assumes "s + nat n \<le> t \<or> t + nat n \<le> s" and "n > 0"
  shows "cstr (safestrcpy m s t n) s (nat n) = cstr m t (nat n - 1) \<and>
    (\<forall>x. x < s \<or> s + nat n \<le> x \<longrightarrow> safestrcpy m s t n x = m x)"
proof (intro conjI allI impI)
  let ?l = "cstr m t (nat n - 1)"
  have len: "length ?l < nat n"
    using length_cstr [of m t "nat n - 1"] assms(2) by linarith
  obtain k where k: "n = int (Suc k)"
    using assms(2) by (metis Suc_pred' zero_less_imp_eq_int)
  have eq: "safestrcpy m s t n =
      write_bytes m s (?l @ 0 # (if length ?l < nat n - 1 then [0] else []))"
    using safestrcpy_copy_eq [of s k t m] assms
    unfolding k by (simp add: safestrcpy_def del: of_nat_Suc)
  show "cstr (safestrcpy m s t n) s (nat n) = ?l"
    unfolding eq by (rule cstr_write) (use len cstr_nonzero in auto)
  show "safestrcpy m s t n x = m x" if "x < s \<or> s + nat n \<le> x" for x
    unfolding eq using len that by (intro write_bytes_outside) auto
qed

theorem safestrcpy_terminated_witness:
  "cstr (safestrcpy (\<lambda>x. if x = 100 then 7 else 0) 0 100 16) 0 16 = [7]"
  using safestrcpy_terminated [of 0 16 100 "\<lambda>x. if x = 100 then 7 else 0"]
  by (simp add: cstr_def read_bytes_def upt_rec)

lemma strlen_from_eq:
  "(\<And>i. n \<le> i \<Longrightarrow> i < k \<Longrightarrow> m (s + i) \<noteq> 0) \<Longrightarrow> n \<le> k \<Longrightarrow> m (s + k) = 0 \<Longrightarrow>
    strlen_from m s n = Some k"
proof (induction "k - n" arbitrary: n)
  case 0
  then show ?case by (subst strlen_from.simps) simp
next
  case (Suc d)
  then have "strlen_from m s (Suc n) = Some k"
    by (intro Suc.hyps(1)) auto
  with Suc show ?case
    by (subst strlen_from.simps) auto
qed

lemma strlen_eq:
  assumes "length (cstr m s n) < n"
  shows "strlen m s = Some (length (cstr m s n))"
proof -
  let ?k = "length (cstr m s n)"
  have "read_bytes m s n ! ?k = 0"
    using assms nth_length_takeWhile [of "\<lambda>c. c \<noteq> 0" "read_bytes m s n"] by (simp add: cstr_def)
  moreover have "m (s + i) \<noteq> 0" if "i < ?k" for i
  proof -
    have "cstr m s n ! i \<noteq> 0"
      by (rule cstr_nonzero [OF nth_mem [OF that]])
    then show ?thesis
      using that assms by (simp add: cstr_def takeWhile_nth)
  qed
  ultimately show ?thesis
    unfolding strlen_def using assms by (intro strlen_from_eq) auto
qed

end
