(* ===== verification/Kalloc.thy ===== *)
theory Kalloc
  imports Cstring
begin

text \<open>
  kernel/kalloc.c: the physical page allocator.  The free list lives in the free pages
  themselves, one \<open>struct run\<close> pointer in the first eight bytes of each page, so the state is the
  byte memory and the head pointer.  \<open>flist\<close> relates it to a list of page addresses; the
  allocator's contract is the locale \<open>page_allocator\<close>, interpreted on \<open>kalloc\<close> and \<open>kfree\<close>.
  \<open>kend\<close> is the linker symbol \<open>end\<close>, the first address after the kernel.
\<close>

section \<open>Memory layout (kernel/riscv.h, kernel/memlayout.h)\<close>

definition PGSIZE :: u64 where
  [simp]: "PGSIZE = 4096"

definition KERNBASE :: u64 where
  [simp]: "KERNBASE = 0x80000000"

definition PHYSTOP :: u64 where
  "PHYSTOP = KERNBASE + 128 * 1024 * 1024"

definition PGROUNDUP :: "u64 \<Rightarrow> u64" where
  "PGROUNDUP sz = (sz + PGSIZE - 1) AND NOT (PGSIZE - 1)"

definition PGROUNDDOWN :: "u64 \<Rightarrow> u64" where
  "PGROUNDDOWN a = a AND NOT (PGSIZE - 1)"

lemma PHYSTOP_eq [simp]: "PHYSTOP = 0x88000000"
  by (simp add: PHYSTOP_def)

section \<open>State and operations\<close>

record kmem_state = kstate +
  mem :: bytes
  freelist :: u64
  kend :: u64

definition kfree :: "u64 \<Rightarrow> 'a kmem_state_scheme \<Rightarrow> (unit, 'a kmem_state_scheme) outcome" where
  "kfree pa s =
     (if pa mod PGSIZE \<noteq> 0 \<or> pa < kend s \<or> pa \<ge> PHYSTOP then Panic ''kfree''
      else
        (let s1 = s\<lparr>mem := memset (mem s) (unat pa) 1 (unat PGSIZE)\<rparr> in
         obind (lk_acquire LkKmem s1) (\<lambda>_ s2.
           let s3 = s2\<lparr>mem := store64 (mem s2) (unat pa) (freelist s2)\<rparr>;
               s4 = s3\<lparr>freelist := pa\<rparr>
           in lk_release LkKmem s4)))"

definition kalloc :: "'a kmem_state_scheme \<Rightarrow> (u64, 'a kmem_state_scheme) outcome" where
  "kalloc s =
     obind (lk_acquire LkKmem s) (\<lambda>_ s1.
       let r = freelist s1;
           s2 = (if r \<noteq> 0 then s1\<lparr>freelist := load64 (mem s1) (unat r)\<rparr> else s1)
       in obind (lk_release LkKmem s2) (\<lambda>_ s3.
            Ok r (if r \<noteq> 0 then s3\<lparr>mem := memset (mem s3) (unat r) 5 (unat PGSIZE)\<rparr> else s3)))"

lemma kfree_Ok_bound: "kfree p s = Ok u t \<Longrightarrow> p < PHYSTOP"
  by (simp add: kfree_def not_le split: if_splits)

function freerange_loop ::
  "u64 \<Rightarrow> u64 \<Rightarrow> 'a kmem_state_scheme \<Rightarrow> (unit, 'a kmem_state_scheme) outcome" where
  "freerange_loop p pa_end s =
     (if p + PGSIZE \<le> pa_end
      then obind (kfree p s) (\<lambda>_ s1. freerange_loop (p + PGSIZE) pa_end s1)
      else Ok () s)"
  by pat_completeness auto
termination
proof (relation "measure (\<lambda>(p, e, s). 2 ^ 64 - unat p)")
  fix p e :: u64 and s s1 :: "'a kmem_state_scheme" and u :: unit
  assume "kfree p s = Ok u s1"
  then have "unat p < unat PHYSTOP"
    using kfree_Ok_bound word_less_nat_alt by blast
  then show "((p + PGSIZE, e, s1), (p, e, s)) \<in> measure (\<lambda>(p, e, s). 2 ^ 64 - unat p)"
    by (simp add: unat_word_ariths)
qed simp

declare freerange_loop.simps [simp del]

definition freerange ::
  "u64 \<Rightarrow> u64 \<Rightarrow> 'a kmem_state_scheme \<Rightarrow> (unit, 'a kmem_state_scheme) outcome" where
  "freerange pa_start pa_end s = freerange_loop (PGROUNDUP pa_start) pa_end s"

definition kinit :: "'a kmem_state_scheme \<Rightarrow> (unit, 'a kmem_state_scheme) outcome" where
  "kinit s = freerange (kend s) PHYSTOP (lk_init LkKmem s)"

section \<open>The free list\<close>

fun flist :: "bytes \<Rightarrow> u64 \<Rightarrow> u64 list \<Rightarrow> bool" where
  "flist m p [] \<longleftrightarrow> p = 0"
| "flist m p (a # as) \<longleftrightarrow> p = a \<and> a \<noteq> 0 \<and> flist m (load64 m (unat a)) as"

definition page_ok :: "'a kmem_state_scheme \<Rightarrow> u64 \<Rightarrow> bool" where
  "page_ok s pa \<longleftrightarrow> pa mod PGSIZE = 0 \<and> kend s \<le> pa \<and> pa < PHYSTOP"

definition kmem_inv :: "'a kmem_state_scheme \<Rightarrow> u64 list \<Rightarrow> bool" where
  "kmem_inv s xs \<longleftrightarrow> flist (mem s) (freelist s) xs \<and> distinct xs \<and>
     (\<forall>a \<in> set xs. page_ok s a) \<and> 0 < kend s"

text \<open>The bytes of the page at \<open>pa\<close>.\<close>

definition in_page :: "u64 \<Rightarrow> nat \<Rightarrow> bool" where
  "in_page pa x \<longleftrightarrow> unat pa \<le> x \<and> x < unat pa + 4096"

lemma aligned_unat: "pa mod PGSIZE = 0 \<longleftrightarrow> unat pa mod 4096 = 0"
  by (simp add: word_unat_eq_iff unat_mod)

lemma alignedE:
  assumes "(p :: u64) mod PGSIZE = 0"
  obtains k where "unat p = 4096 * k"
  using assms unfolding aligned_unat by (auto elim!: dvdE simp: mod_eq_0_iff_dvd)

lemma aligned_base:
  assumes "(n :: nat) mod k = 0" and "n \<le> x" and "x < n + k"
  shows "n = k * (x div k)"
proof -
  from assms(1) obtain q where q: "n = k * q"
    by auto
  with assms(2,3) have "x div k = q"
    by (intro div_nat_eqI) auto
  with q show ?thesis by simp
qed

lemma pages_disjoint:
  assumes "a mod PGSIZE = 0" "b mod PGSIZE = 0" "in_page a x" "in_page b x"
  shows "a = b"
  using aligned_base [of "unat a" 4096 x] aligned_base [of "unat b" 4096 x]
    assms(1,2) [unfolded aligned_unat] assms(3,4)
  by (simp add: in_page_def word_unat_eq_iff)

subsection \<open>Rounding to pages\<close>

lemma and_not_mask_eq: "(x :: 'a::len word) AND NOT (mask n) = x - take_bit n x"
proof -
  have "NOT x AND take_bit n x = 0"
    by (rule bit_word_eqI) (simp add: bit_simps)
  then have "x - take_bit n x = x AND NOT (take_bit n x)"
    by (rule disjunctive_diff_eq_and_not) 
  also have "\<dots> = x AND NOT (mask n)"
    by (rule bit_word_eqI) (auto simp: bit_simps)
  finally show ?thesis by simp
qed

lemma unat_and_not_mask: "unat ((x :: 'a::len word) AND NOT (mask n)) = unat x - unat x mod 2 ^ n"
proof -
  have t: "unat (take_bit n x) = unat x mod 2 ^ n"
    unfolding unsigned_take_bit_eq by (rule take_bit_eq_mod)
  then have "take_bit n x \<le> x"
    by (simp add: word_le_nat_alt)
  then show ?thesis
    by (simp add: and_not_mask_eq unat_sub t)
qed

lemma PGROUNDDOWN_eq: "unat (PGROUNDDOWN a) = unat a - unat a mod 4096"
proof -
  have "PGROUNDDOWN a = a AND NOT (mask 12)"
    by (simp add: PGROUNDDOWN_def mask_eq_exp_minus_1)
  then show ?thesis by (simp add: unat_and_not_mask)
qed

lemma PGROUNDUP_eq:
  assumes "unat a + 4095 < 2 ^ 64"
  shows "unat (PGROUNDUP a) = (unat a + 4095) - (unat a + 4095) mod 4096"
proof -
  have "PGROUNDUP a = (a + 4095) AND NOT (mask 12)"
    by (simp add: PGROUNDUP_def mask_eq_exp_minus_1 add.commute)
  moreover have "unat (a + 4095) = unat a + 4095"
    using assms by (simp add: unat_word_ariths)
  ultimately show ?thesis by (simp add: unat_and_not_mask)
qed

lemma PGROUNDUP_least:
  assumes "unat a + 4095 < 2 ^ 64"
  shows "PGROUNDUP a mod PGSIZE = 0" "a \<le> PGROUNDUP a"
    "q mod PGSIZE = 0 \<Longrightarrow> a \<le> q \<longleftrightarrow> PGROUNDUP a \<le> q"
proof -
  note e = PGROUNDUP_eq [OF assms]
  show "PGROUNDUP a mod PGSIZE = 0"
    unfolding aligned_unat e by (simp add: minus_mod_eq_mult_div)
  show l: "a \<le> PGROUNDUP a"
    unfolding word_le_nat_alt e by (simp add: minus_mod_eq_mult_div)
  assume "q mod PGSIZE = 0"
  then obtain k where k: "unat q = 4096 * k"
    unfolding aligned_unat by auto
  have "unat a \<le> 4096 * k \<longleftrightarrow> 4096 * ((unat a + 4095) div 4096) \<le> 4096 * k"
    using div_less_iff_less_mult [of 4096 "unat a + 4095" "Suc k"] by auto
  with l show "a \<le> q \<longleftrightarrow> PGROUNDUP a \<le> q"
    unfolding word_le_nat_alt e k by (simp add: minus_mod_eq_mult_div)
qed

subsection \<open>List segments in memory\<close>

lemma page_ok_nonzero: "page_ok s a \<Longrightarrow> 0 < kend s \<Longrightarrow> a \<noteq> 0"
  by (auto simp: page_ok_def)

lemma flist_cong:
  assumes "\<And>a x. a \<in> set xs \<Longrightarrow> in_page a x \<Longrightarrow> m x = m' x"
  shows "flist m p xs \<longleftrightarrow> flist m' p xs"
  using assms
proof (induction xs arbitrary: p)
  case Nil
  then show ?case by simp
next
  case (Cons a xs)
  have "load64 m (unat a) = load64 m' (unat a)"
    by (rule load64_cong) (use Cons.prems [of a] in \<open>auto simp: in_page_def\<close>)
  with Cons show ?case by auto
qed

lemma flist_outside:
  assumes "flist m p xs" and "\<forall>a \<in> set xs. a mod PGSIZE = 0" and "pa mod PGSIZE = 0"
    and "pa \<notin> set xs" and "\<And>x. \<not> in_page pa x \<Longrightarrow> m' x = m x"
  shows "flist m' p xs"
proof -
  have eq: "m x = m' x" if a: "a \<in> set xs" and x: "in_page a x" for a x
  proof -
    have "a mod PGSIZE = 0" "a \<noteq> pa"
      using assms(2,4) a by auto
    then have "\<not> in_page pa x"
      using pages_disjoint [OF _ assms(3) x] by auto
    then show ?thesis
      by (rule assms(5) [symmetric])
  qed
  have "flist m p xs \<longleftrightarrow> flist m' p xs"
    by (rule flist_cong) (rule eq)
  with assms(1) show ?thesis by simp
qed

section \<open>Behaviour of the operations\<close>

lemma kfree_panics:
  "kfree pa s = Panic ''kfree'' \<or> page_ok s pa"
  by (auto simp: kfree_def page_ok_def)

lemma kfree_ensures:
  assumes "kmem_inv s xs" and "page_ok s pa" and "pa \<notin> set xs" and "LkKmem \<notin> held s"
  shows "ensures (kfree pa s) (\<lambda>_ t. kmem_inv t (pa # xs) \<and>
    (\<exists>m. t = s\<lparr>mem := m, freelist := pa\<rparr> \<and> (\<forall>x. \<not> in_page pa x \<longrightarrow> m x = mem s x)))"
proof -
  let ?m = "store64 (memset (mem s) (unat pa) 1 4096) (unat pa) (freelist s)"
  have out: "?m x = mem s x" if "\<not> in_page pa x" for x
    using that by (auto simp: in_page_def not_le not_less)
  have "flist ?m (freelist s) xs"
    by (rule flist_outside [where m = "mem s" and pa = pa])
      (use assms out in \<open>auto simp: kmem_inv_def page_ok_def\<close>)
  then have "kmem_inv (s\<lparr>mem := ?m, freelist := pa\<rparr>) (pa # xs)"
    using assms page_ok_nonzero [OF assms(2)] by (auto simp: kmem_inv_def page_ok_def)
  moreover have "kfree pa s = Ok () (s\<lparr>mem := ?m, freelist := pa\<rparr>)"
    using assms(2,4) by (auto simp: kfree_def page_ok_def Let_def not_less)
  ultimately show ?thesis
    using out by auto
qed

lemma kalloc_Nil:
  "kmem_inv s [] \<Longrightarrow> LkKmem \<notin> held s \<Longrightarrow> kalloc s = Ok 0 s"
  by (simp add: kalloc_def kmem_inv_def Let_def)

lemma kalloc_Cons:
  assumes "kmem_inv s (a # xs)" and "LkKmem \<notin> held s"
  shows "kalloc s = Ok a
    (s\<lparr>freelist := load64 (mem s) (unat a), mem := memset (mem s) (unat a) 5 4096\<rparr>)"
  using assms by (simp add: kalloc_def kmem_inv_def Let_def)

lemma kalloc_ensures:
  assumes "kmem_inv s (a # xs)" and "LkKmem \<notin> held s"
  shows "ensures (kalloc s) (\<lambda>p t. p = a \<and> kmem_inv t xs \<and>
    (\<forall>x. in_page a x \<longrightarrow> mem t x = 5) \<and>
    (\<exists>m f. t = s\<lparr>freelist := f, mem := m\<rparr> \<and> (\<forall>x. \<not> in_page a x \<longrightarrow> m x = mem s x)))"
proof -
  let ?m = "memset (mem s) (unat a) 5 4096"
  have out: "?m x = mem s x" if "\<not> in_page a x" for x
    using that by (auto simp: in_page_def not_le not_less)
  have ins: "?m x = 5" if "in_page a x" for x
    using that by (auto simp: in_page_def memset_inside)
  have "flist ?m (load64 (mem s) (unat a)) xs"
    by (rule flist_outside [where m = "mem s" and pa = a])
      (use assms out in \<open>auto simp: kmem_inv_def page_ok_def\<close>)
  then have "kmem_inv (s\<lparr>freelist := load64 (mem s) (unat a), mem := ?m\<rparr>) xs"
    using assms by (auto simp: kmem_inv_def page_ok_def)
  then show ?thesis
    unfolding kalloc_Cons [OF assms] ensures.simps using out ins
    by (intro conjI exI [where x = ?m] exI [where x = "load64 (mem s) (unat a)"]) simp_all
qed

section \<open>The allocator's contract\<close>

text \<open>
  What a client of a page allocator relies on: \<open>pages U s xs\<close> says that in state \<open>s\<close> the pages
  \<open>xs\<close> out of the managed pages \<open>U\<close> are free, the next one handed out first.
\<close>

locale page_allocator =
  fixes alloc :: "'s \<Rightarrow> (u64, 's) outcome"
    and free :: "u64 \<Rightarrow> 's \<Rightarrow> (unit, 's) outcome"
    and pages :: "u64 set \<Rightarrow> 's \<Rightarrow> u64 list \<Rightarrow> bool"
  assumes pages_ok: "pages U s xs \<Longrightarrow> distinct xs \<and> 0 \<notin> set xs \<and> set xs \<subseteq> U"
    and alloc_Nil: "pages U s [] \<Longrightarrow> alloc s = Ok 0 s"
    and alloc_Cons: "pages U s (x # xs) \<Longrightarrow> ensures (alloc s) (\<lambda>p t. p = x \<and> pages U t xs)"
    and free_Cons: "pages U s xs \<Longrightarrow> p \<in> U \<Longrightarrow> p \<notin> set xs \<Longrightarrow>
      ensures (free p s) (\<lambda>_ t. pages U t (p # xs))"
begin

lemma alloc_step:
  assumes "pages U s xs" and "A \<inter> set xs = {}" and "alloc s = Ok p t" and "p \<noteq> 0"
  shows "p \<notin> A \<and> p \<in> U \<and> (\<exists>ys. pages U t ys \<and> insert p A \<inter> set ys = {} \<and>
    insert p A \<union> set ys = A \<union> set xs)"
proof (cases xs)
  case Nil
  with assms alloc_Nil show ?thesis by simp
next
  case (Cons x ys)
  with assms(1,3) alloc_Cons have "p = x" "pages U t ys"
    by fastforce+
  with Cons assms(1,2) pages_ok show ?thesis by fastforce
qed

lemma free_step:
  assumes "pages U s xs" and "A \<inter> set xs = {}" and "p \<in> A" and "A \<subseteq> U"
  shows "ensures (free p s) (\<lambda>_ t. \<exists>ys. pages U t ys \<and> (A - {p}) \<inter> set ys = {} \<and>
    (A - {p}) \<union> set ys = A \<union> set xs)"
proof -
  have "ensures (free p s) (\<lambda>_ t. pages U t (p # xs))"
    using assms by (intro free_Cons) auto
  then show ?thesis
    by (rule ensures_mono) (use assms in \<open>auto intro!: exI [where x = "p # xs"]\<close>)
qed

lemma alloc_free_id:
  assumes "pages U s (x # xs)"
  shows "ensures (obind (alloc s) free) (\<lambda>_ t. pages U t (x # xs))"
proof -
  from assms pages_ok have "x \<in> U" "x \<notin> set xs" by fastforce+
  then show ?thesis
    unfolding ensures_obind
    by (intro ensures_mono [OF alloc_Cons [OF assms]]) (auto intro: free_Cons)
qed

end

definition kpages :: "u64 set \<Rightarrow> 'a kmem_state_scheme \<Rightarrow> u64 list \<Rightarrow> bool" where
  "kpages U s xs \<longleftrightarrow> kmem_inv s xs \<and> LkKmem \<notin> held s \<and> U = {q. page_ok s q}"

lemma page_ok_update [simp]:
  "page_ok (s\<lparr>mem := m\<rparr>) = page_ok s" "page_ok (s\<lparr>freelist := f\<rparr>) = page_ok s"
  by (simp_all add: page_ok_def fun_eq_iff)

interpretation ka: page_allocator kalloc kfree kpages
proof
  fix U :: "u64 set" and s :: "'a kmem_state_scheme" and xs x p
  show "kpages U s xs \<Longrightarrow> distinct xs \<and> 0 \<notin> set xs \<and> set xs \<subseteq> U"
    by (auto simp: kpages_def kmem_inv_def dest: page_ok_nonzero)
  show "kpages U s [] \<Longrightarrow> kalloc s = Ok 0 s"
    by (simp add: kpages_def kalloc_Nil)
  show "kpages U s (x # xs) \<Longrightarrow> ensures (kalloc s) (\<lambda>p t. p = x \<and> kpages U t xs)"
    unfolding kpages_def by (elim conjE, rule ensures_mono [OF kalloc_ensures]) auto
  show "kpages U s xs \<Longrightarrow> p \<in> U \<Longrightarrow> p \<notin> set xs \<Longrightarrow>
      ensures (kfree p s) (\<lambda>_ t. kpages U t (p # xs))"
    unfolding kpages_def by (elim conjE, rule ensures_mono [OF kfree_ensures]) auto
qed

section \<open>Properties\<close>

lemma aligned_next:
  assumes "p mod PGSIZE = 0" and "q mod PGSIZE = 0" and "p \<le> q" and "q \<noteq> p"
    and "unat (p + PGSIZE) = unat p + 4096"
  shows "p + PGSIZE \<le> q"
proof -
  obtain j where "unat q = 4096 * j"
    using assms(2) by (rule alignedE)
  moreover obtain k where "unat p = 4096 * k"
    using assms(1) by (rule alignedE)
  ultimately show ?thesis
    using assms(3,4) unfolding word_le_nat_alt assms(5) word_unat_eq_iff by simp
qed

lemma aligned_interval_split:
  assumes "p mod PGSIZE = 0" and "unat (p + PGSIZE) = unat p + 4096" and "p < b"
  shows "{q. q mod PGSIZE = 0 \<and> p \<le> q \<and> q < b} =
    insert p {q. q mod PGSIZE = 0 \<and> p + PGSIZE \<le> q \<and> q < b}"
proof (rule set_eqI, unfold mem_Collect_eq insert_iff, rule iffI)
  fix q
  assume "q mod PGSIZE = 0 \<and> p \<le> q \<and> q < b"
  then show "q = p \<or> q mod PGSIZE = 0 \<and> p + PGSIZE \<le> q \<and> q < b"
    using aligned_next [OF assms(1) _ _ _ assms(2), of q] by (cases "q = p") simp_all
next
  fix q
  assume "q = p \<or> q mod PGSIZE = 0 \<and> p + PGSIZE \<le> q \<and> q < b"
  moreover have "p \<le> p + PGSIZE"
    unfolding word_le_nat_alt assms(2) by simp
  ultimately show "q mod PGSIZE = 0 \<and> p \<le> q \<and> q < b"
    using assms(1,3) order.trans [of p "p + PGSIZE" q] by (elim disjE conjE) simp_all
qed

lemma freerange_loop_ensures:
  assumes "kmem_inv s xs" and "LkKmem \<notin> held s" and "p mod PGSIZE = 0" and "kend s \<le> p"
    and "p \<le> PHYSTOP" and "\<forall>q \<in> set xs. q < p"
  shows "ensures (freerange_loop p PHYSTOP s) (\<lambda>_ t. \<exists>ys. kmem_inv t ys \<and>
    set ys = set xs \<union> {q. q mod PGSIZE = 0 \<and> p \<le> q \<and> q < PHYSTOP} \<and>
    held t = held s \<and> kend t = kend s)"
  using assms
proof (induction p PHYSTOP s arbitrary: xs rule: freerange_loop.induct)
  case (1 p s)
  obtain k where k: "unat p = 4096 * k"
    using "1.prems"(3) by (rule alignedE)
  have le: "unat p \<le> 0x88000000"
    using "1.prems"(5) by (simp add: word_le_nat_alt)
  then have plus: "unat (p + PGSIZE) = unat p + 4096"
    by (simp add: unat_word_ariths)
  show ?case
  proof (cases "p + PGSIZE \<le> PHYSTOP")
    case True
    then have p: "page_ok s p" "p \<notin> set xs"
      using "1.prems" le plus by (auto simp: page_ok_def word_le_nat_alt word_less_nat_alt)
    have al: "(p + PGSIZE) mod PGSIZE = 0"
      unfolding aligned_unat plus using k by simp
    have "p < PHYSTOP"
      using p(1) by (simp add: page_ok_def)
    note split = aligned_interval_split [OF "1.prems"(3) plus this]
    have "ensures (kfree p s) (\<lambda>_ t. ensures (freerange_loop (p + PGSIZE) PHYSTOP t)
        (\<lambda>_ t'. \<exists>ys. kmem_inv t' ys \<and> set ys = set (p # xs) \<union>
          {q. q mod PGSIZE = 0 \<and> p + PGSIZE \<le> q \<and> q < PHYSTOP} \<and>
          held t' = held s \<and> kend t' = kend s))"
    proof -
      obtain t where t: "kfree p s = Ok () t" "kmem_inv t (p # xs)" "held t = held s" "kend t = kend s"
        using kfree_ensures [OF "1.prems"(1) p "1.prems"(2)] by (auto simp: ensures_iff_Ok)
      have "ensures (freerange_loop (p + PGSIZE) PHYSTOP t) (\<lambda>_ t'. \<exists>ys. kmem_inv t' ys \<and>
          set ys = set (p # xs) \<union> {q. q mod PGSIZE = 0 \<and> p + PGSIZE \<le> q \<and> q < PHYSTOP} \<and>
          held t' = held t \<and> kend t' = kend t)"
        by (rule "1.hyps" [OF True t(1) t(2) _ al _ True])
          (use "1.prems" t plus in \<open>auto simp: word_le_nat_alt word_less_nat_alt\<close>)
      with t show ?thesis by simp
    qed
    then show ?thesis
      using True unfolding split by (subst freerange_loop.simps) simp
  next
    case False
    then have "p = PHYSTOP"
      using plus le k by (simp add: word_le_nat_alt word_unat_eq_iff)
    with False "1.prems" show ?thesis
      by (subst freerange_loop.simps) auto
  qed
qed

text \<open>
  C26: \<open>kinit\<close> puts every whole page between the kernel's end and PHYSTOP on the free list, each
  exactly once, and nothing else.
\<close>

theorem kinit_frees_all:
  assumes "held s = {}" and "freelist s = 0" and "0 < kend s"
    and "unat (kend s) \<le> unat PHYSTOP - 4096"
  shows "ensures (kinit s) (\<lambda>_ t. \<exists>ys. kmem_inv t ys \<and> set ys = {q. page_ok t q} \<and>
    held t = held s)"
proof -
  have nw: "unat (kend s) + 4095 < 2 ^ 64"
    using assms(4) by simp
  note up = PGROUNDUP_least [OF nw]
  have le: "PGROUNDUP (kend s) \<le> PHYSTOP"
    using assms(4) by (subst up(3) [symmetric]) (simp_all add: word_le_nat_alt aligned_unat)
  have inv: "kmem_inv s []"
    using assms(2,3) by (simp add: kmem_inv_def)
  have "ensures (kinit s) (\<lambda>_ t. \<exists>ys. kmem_inv t ys \<and>
      set ys = {q. q mod PGSIZE = 0 \<and> PGROUNDUP (kend s) \<le> q \<and> q < PHYSTOP} \<and>
      held t = held s \<and> kend t = kend s)"
    using freerange_loop_ensures [OF inv _ up(1) up(2) le] assms(1)
    by (simp add: kinit_def freerange_def)
  moreover have "{q. q mod PGSIZE = 0 \<and> PGROUNDUP (kend s) \<le> q \<and> q < PHYSTOP} =
      {q. q mod PGSIZE = 0 \<and> kend s \<le> q \<and> q < PHYSTOP}"
    by (rule Collect_cong) (use up(3) in \<open>simp cong: conj_cong\<close>)
  ultimately show ?thesis
    by (elim ensures_mono) (auto simp: page_ok_def)
qed

theorem kinit_frees_all_witness:
  "ensures (kinit \<lparr>held = {}, cur = None, mem = (\<lambda>_. 0), freelist = 0, kend = 0x80021000\<rparr>)
     (\<lambda>_ t. \<exists>ys. kmem_inv t ys \<and> set ys = {q. page_ok t q} \<and> held t = {})"
  using kinit_frees_all
    [of "\<lparr>held = {}, cur = None, mem = (\<lambda>_. 0), freelist = 0, kend = 0x80021000\<rparr>"]
  by simp

text \<open>
  Runs of the allocator with clients: pages are allocated, the owners of the pages \<open>A\<close> write
  anything into their own pages, and give pages back.
\<close>

inductive page_run :: "kmem_state \<Rightarrow> kmem_state \<Rightarrow> u64 set \<Rightarrow> bool" for s0 where
  start: "page_run s0 s0 {}"
| alloc: "page_run s0 s A \<Longrightarrow> kalloc s = Ok p t \<Longrightarrow> p \<noteq> 0 \<Longrightarrow> page_run s0 t (insert p A)"
| scribble: "page_run s0 s A \<Longrightarrow> (\<And>x. (\<forall>p \<in> A. \<not> in_page p x) \<Longrightarrow> m x = mem s x) \<Longrightarrow>
    page_run s0 (s\<lparr>mem := m\<rparr>) A"
| free: "page_run s0 s A \<Longrightarrow> p \<in> A \<Longrightarrow> kfree p s = Ok () t \<Longrightarrow> page_run s0 t (A - {p})"

lemma kpages_scribble:
  assumes "kpages U s ys" and "A \<inter> set ys = {}" and "A \<subseteq> U"
    and m: "\<And>x. (\<forall>p \<in> A. \<not> in_page p x) \<Longrightarrow> m x = mem s x"
  shows "kpages U (s\<lparr>mem := m\<rparr>) ys"
proof -
  have out: "m x = mem s x" if y: "y \<in> set ys" and x: "in_page y x" for y x
  proof (rule m, rule ballI, rule notI)
    fix p assume p: "p \<in> A" "in_page p x"
    with assms y have "page_ok s p" "page_ok s y" "p \<noteq> y"
      by (auto simp: kpages_def kmem_inv_def)
    with p x show False
      using pages_disjoint [of p y x] by (auto simp: page_ok_def)
  qed
  then have "flist m (freelist s) ys"
    using assms(1) flist_cong [of ys m "mem s"] by (auto simp: kpages_def kmem_inv_def)
  with assms(1) show ?thesis
    by (simp add: kpages_def kmem_inv_def)
qed

lemma page_run_kpages:
  assumes "page_run s0 s A" and "kpages U s0 xs"
  shows "A \<subseteq> U \<and> (\<exists>ys. kpages U s ys \<and> A \<inter> set ys = {} \<and> A \<union> set ys = set xs)"
  using assms(1)
proof induction
  case start
  with assms(2) show ?case by auto
next
  case (alloc s A p t)
  then obtain ys where ys: "A \<subseteq> U" "kpages U s ys" "A \<inter> set ys = {}" "A \<union> set ys = set xs"
    by blast
  from ka.alloc_step [OF ys(2,3) alloc.hyps(2,3)] ys(1,4) show ?case by simp
next
  case (scribble s A m)
  then show ?case using kpages_scribble by blast
next
  case (free s A p t)
  then obtain ys where ys: "A \<subseteq> U" "kpages U s ys" "A \<inter> set ys = {}" "A \<union> set ys = set xs"
    by blast
  from ka.free_step [OF ys(2,3) free.hyps(2) ys(1)] free.hyps(3) ys(1,4) show ?case by auto
qed

text \<open>
  C4: In every run of the allocator in which clients write only into pages they own, the pages
  handed out and the pages still free split the initial free list, so a page is never handed
  out twice and none is lost; a further \<open>kalloc\<close> returns 0 exactly when no page is left and
  otherwise a page nobody owns, and \<open>kfree\<close> of an owned page does not panic.
\<close>

theorem no_double_allocation:
  assumes "kmem_inv s0 xs" and "LkKmem \<notin> held s0" and "page_run s0 s A"
  shows "(\<exists>ys. kmem_inv s ys \<and> A \<inter> set ys = {} \<and> A \<union> set ys = set xs) \<and>
    ensures (kalloc s) (\<lambda>p _. if A = set xs then p = 0 else p \<in> set xs - A) \<and>
    (\<forall>p. p \<in> A \<longrightarrow> ensures (kfree p s) (\<lambda>_ t. page_run s0 t (A - {p})))"
proof -
  define U where "U = {q. page_ok s0 q}"
  have "kpages U s0 xs"
    using assms(1,2) by (simp add: kpages_def U_def)
  from page_run_kpages [OF assms(3) this] obtain ys
    where ys: "A \<subseteq> U" "kpages U s ys" "A \<inter> set ys = {}" "A \<union> set ys = set xs"
    by blast
  have k: "ensures (kalloc s) (\<lambda>p _. if A = set xs then p = 0 else p \<in> set xs - A)"
  proof (cases ys)
    case Nil
    with ys ka.alloc_Nil [of U s] show ?thesis by simp
  next
    case (Cons y zs)
    from ys(2) [unfolded this] show ?thesis
      by (intro ensures_mono [OF ka.alloc_Cons]) (use ys(3,4) Cons in auto)
  qed
  have f: "ensures (kfree p s) (\<lambda>_ t. page_run s0 t (A - {p}))" if p: "p \<in> A" for p
    using ka.free_step [OF ys(2,3) p ys(1)] page_run.free [OF assms(3) p]
    by (auto simp: ensures_iff_Ok)
  from ys k f show ?thesis
    by (auto simp: kpages_def)
qed

definition one_page :: kmem_state where
  "one_page = \<lparr>held = {}, cur = None, mem = (\<lambda>_. 0), freelist = 0x87fff000, kend = 0x80021000\<rparr>"

theorem no_double_allocation_witness:
  "ensures (kalloc one_page) (\<lambda>p _. p = 0x87fff000)"
proof -
  have inv: "kmem_inv one_page [0x87fff000]"
    by (simp add: kmem_inv_def one_page_def page_ok_def load64_zero)
  show ?thesis
    using no_double_allocation [OF inv _ page_run.start] by (simp add: one_page_def)
qed

text \<open>
  C27: \<open>kfree\<close> stops the kernel on every address that is not a whole page between the kernel's
  end and PHYSTOP; on every other page it overwrites the page with junk, changes no other page,
  and makes it the next page \<open>kalloc\<close> returns, again with only that page overwritten.
\<close>

theorem kfree_kalloc_roundtrip:
  assumes "kmem_inv s xs" and "LkKmem \<notin> held s" and "pa \<notin> set xs"
  shows "if page_ok s pa
    then ensures (kfree pa s) (\<lambda>_ t. kmem_inv t (pa # xs) \<and>
      ensures (kalloc t) (\<lambda>p t'. p = pa \<and> kmem_inv t' xs \<and>
        (\<forall>x. \<not> in_page pa x \<longrightarrow> mem t' x = mem s x)))
    else kfree pa s = Panic ''kfree''"
proof (cases "page_ok s pa")
  case True
  have "ensures (kalloc t) (\<lambda>p t'. p = pa \<and> kmem_inv t' xs \<and>
        (\<forall>x. \<not> in_page pa x \<longrightarrow> mem t' x = mem s x))"
    if "kmem_inv t (pa # xs)" "t = s\<lparr>mem := m, freelist := pa\<rparr>"
      "\<forall>x. \<not> in_page pa x \<longrightarrow> m x = mem s x" for t m
    by (rule ensures_mono [OF kalloc_ensures [OF that(1)]]) (use that assms(2) in auto)
  then show ?thesis
    unfolding if_P [OF True]
    by (intro ensures_mono [OF kfree_ensures [OF assms(1) True assms(3,2)]]) blast
next
  case False
  with kfree_panics [of pa s] show ?thesis by auto
qed

theorem kfree_kalloc_roundtrip_witness:
  "ensures (kfree 0x87ffe000 one_page) (\<lambda>_ t. ensures (kalloc t) (\<lambda>p _. p = 0x87ffe000)) \<and>
   kfree 0x87ffe008 one_page = Panic ''kfree''"
proof -
  have inv: "kmem_inv one_page [0x87fff000]"
    by (simp add: kmem_inv_def one_page_def page_ok_def load64_zero)
  have h: "LkKmem \<notin> held one_page"
    by (simp add: one_page_def)
  have "ensures (kfree 0x87ffe000 one_page) (\<lambda>_ t. ensures (kalloc t) (\<lambda>p _. p = 0x87ffe000))"
    using kfree_kalloc_roundtrip [where pa = "0x87ffe000", OF inv h]
    by (auto simp: page_ok_def one_page_def elim!: ensures_mono)
  moreover have "kfree 0x87ffe008 one_page = Panic ''kfree''"
    using kfree_kalloc_roundtrip [where pa = "0x87ffe008", OF inv h]
    by (simp add: page_ok_def one_page_def)
  ultimately show ?thesis by simp
qed

end
