(* ===== verification/Vm.thy ===== *)
theory Vm
  imports Kalloc
begin

text \<open>
  Sv39 page tables (kernel/vm.c with the page-table macros of kernel/riscv.h and
  kernel/memlayout.h): \<open>walk\<close> and the operations built on it, on page-table pages that live in
  physical memory.  A \<open>pte_t *\<close> is the physical address of the entry, 0 the null pointer; the
  kernel side of a copy is the list of bytes read or written there.  The lemmas relate every
  operation to the abstract translation \<open>xlate\<close> of virtual addresses to leaf entries.
\<close>

section \<open>Page-table entries and virtual addresses\<close>

definition PTE_V :: u64 where "PTE_V = 1"
definition PTE_R :: u64 where "PTE_R = 2"
definition PTE_W :: u64 where "PTE_W = 4"
definition PTE_X :: u64 where "PTE_X = 8"
definition PTE_U :: u64 where "PTE_U = 16"

lemmas pte_bits = PTE_V_def PTE_R_def PTE_W_def PTE_X_def PTE_U_def

definition PA2PTE :: "u64 \<Rightarrow> u64" where
  "PA2PTE pa = push_bit 10 (drop_bit 12 pa)"

definition PTE2PA :: "u64 \<Rightarrow> u64" where
  "PTE2PA pte = push_bit 12 (drop_bit 10 pte)"

definition PTE_FLAGS :: "u64 \<Rightarrow> u64" where
  "PTE_FLAGS pte = pte AND 0x3FF"

definition PX :: "nat \<Rightarrow> u64 \<Rightarrow> u64" where
  "PX level va = drop_bit (12 + 9 * level) va AND 0x1FF"

definition MAXVA :: u64 where
  "MAXVA = push_bit (9 + 9 + 9 + 12 - 1) 1"

lemma MAXVA_eq [simp]: "MAXVA = 0x4000000000"
  by (simp add: MAXVA_def)

definition TRAMPOLINE :: u64 where
  "TRAMPOLINE = MAXVA - PGSIZE"

definition TRAPFRAME :: u64 where
  "TRAPFRAME = TRAMPOLINE - PGSIZE"

definition KSTACK :: "nat \<Rightarrow> u64" where
  "KSTACK p = TRAMPOLINE - (of_nat p + 1) * 2 * PGSIZE"

definition UART0 :: u64 where "UART0 = 0x10000000"
definition VIRTIO0 :: u64 where "VIRTIO0 = 0x10001000"
definition PLIC :: u64 where "PLIC = 0x0c000000"
definition NPROC :: nat where [simp]: "NPROC = 64"

section \<open>Operations\<close>

record vm_state = kmem_state +
  kernel_pagetable :: u64
  etext :: u64
  trampoline :: u64
  satp :: u64

fun walk_level :: "nat \<Rightarrow> u64 \<Rightarrow> u64 \<Rightarrow> bool \<Rightarrow> 'a kmem_state_scheme
    \<Rightarrow> (u64, 'a kmem_state_scheme) outcome" where
  "walk_level 0 pagetable va alloc s = Ok (pagetable + 8 * PX 0 va) s"
| "walk_level (Suc l) pagetable va alloc s =
     (let pte = pagetable + 8 * PX (Suc l) va; e = load64 (mem s) (unat pte)
      in if e AND PTE_V \<noteq> 0 then walk_level l (PTE2PA e) va alloc s
         else if \<not> alloc then Ok 0 s
         else obind (kalloc s) (\<lambda>p s.
           if p = 0 then Ok 0 s
           else walk_level l p va alloc
             (s\<lparr>mem := store64 (memset (mem s) (unat p) 0 4096) (unat pte) (PA2PTE p OR PTE_V)\<rparr>)))"

definition walk :: "u64 \<Rightarrow> u64 \<Rightarrow> bool \<Rightarrow> 'a kmem_state_scheme
    \<Rightarrow> (u64, 'a kmem_state_scheme) outcome" where
  "walk pagetable va alloc s =
     (if MAXVA \<le> va then Panic ''walk'' else walk_level 2 pagetable va alloc s)"

definition walkaddr :: "u64 \<Rightarrow> u64 \<Rightarrow> 'a kmem_state_scheme \<Rightarrow> (u64, 'a kmem_state_scheme) outcome" where
  "walkaddr pagetable va s =
     (if MAXVA \<le> va then Ok 0 s
      else obind (walk pagetable va False s) (\<lambda>pte s.
        if pte = 0 then Ok 0 s
        else let e = load64 (mem s) (unat pte) in
          if e AND PTE_V = 0 then Ok 0 s
          else if e AND PTE_U = 0 then Ok 0 s
          else Ok (PTE2PA e) s))"

lemma walk_Ok_bound: "walk pt va alloc s = Ok p t \<Longrightarrow> va < MAXVA"
  by (simp add: walk_def split: if_splits)

text \<open>How far an address is below MAXVA: the measure of the loops that walk upwards.\<close>

definition va_left :: "u64 \<Rightarrow> nat" where
  "va_left a = unat MAXVA - unat a"

lemma va_left_step: "a < MAXVA \<Longrightarrow> va_left (a + PGSIZE) < va_left a"
  by (simp add: va_left_def word_less_nat_alt unat_word_ariths)

function mappages_loop :: "u64 \<Rightarrow> u64 \<Rightarrow> u64 \<Rightarrow> u64 \<Rightarrow> u64 \<Rightarrow> 'a kmem_state_scheme
    \<Rightarrow> (int, 'a kmem_state_scheme) outcome" where
  "mappages_loop pagetable a last_va pa perm s =
     obind (walk pagetable a True s) (\<lambda>pte s.
       if pte = 0 then Ok (-1) s
       else if load64 (mem s) (unat pte) AND PTE_V \<noteq> 0 then Panic ''mappages: remap''
       else let s = s\<lparr>mem := store64 (mem s) (unat pte) (PA2PTE pa OR perm OR PTE_V)\<rparr> in
         if a = last_va then Ok 0 s
         else mappages_loop pagetable (a + PGSIZE) last_va (pa + PGSIZE) perm s)"
  by pat_completeness auto
termination
  by (relation "measure (\<lambda>(pt, a, last_va, pa, perm, s). va_left a)")
    (auto dest: walk_Ok_bound va_left_step simp del: PGSIZE_def MAXVA_eq)

definition mappages :: "u64 \<Rightarrow> u64 \<Rightarrow> u64 \<Rightarrow> u64 \<Rightarrow> u64 \<Rightarrow> 'a kmem_state_scheme
    \<Rightarrow> (int, 'a kmem_state_scheme) outcome" where
  "mappages pagetable va sz pa perm s =
     (if va mod PGSIZE \<noteq> 0 then Panic ''mappages: va not aligned''
      else if sz mod PGSIZE \<noteq> 0 then Panic ''mappages: size not aligned''
      else if sz = 0 then Panic ''mappages: size''
      else mappages_loop pagetable va (va + sz - PGSIZE) pa perm s)"

lemma mappages_Ok_bound: "mappages pt va sz pa perm s = Ok r t \<Longrightarrow> va < MAXVA"
  by (subst (asm) mappages_def, subst (asm) mappages_loop.simps)
    (auto simp: obind_eq_Ok dest: walk_Ok_bound split: if_splits)

definition kvmmap :: "u64 \<Rightarrow> u64 \<Rightarrow> u64 \<Rightarrow> u64 \<Rightarrow> u64 \<Rightarrow> 'a kmem_state_scheme
    \<Rightarrow> (unit, 'a kmem_state_scheme) outcome" where
  "kvmmap kpgtbl va pa sz perm s =
     obind (mappages kpgtbl va sz pa perm s) (\<lambda>r s. if r \<noteq> 0 then Panic ''kvmmap'' else Ok () s)"

text \<open>\<open>proc_mapstacks\<close> of kernel/proc.c: a kernel stack for every process slot.\<close>

function proc_mapstacks_loop :: "nat \<Rightarrow> u64 \<Rightarrow> 'a kmem_state_scheme
    \<Rightarrow> (unit, 'a kmem_state_scheme) outcome" where
  "proc_mapstacks_loop i kpgtbl s =
     (if i < NPROC
      then obind (kalloc s) (\<lambda>pa s.
        if pa = 0 then Panic ''kalloc''
        else obind (kvmmap kpgtbl (KSTACK i) pa PGSIZE (PTE_R OR PTE_W) s) (\<lambda>_ s.
          proc_mapstacks_loop (Suc i) kpgtbl s))
      else Ok () s)"
  by pat_completeness auto
termination by (relation "measure (\<lambda>(i, pt, s). NPROC - i)") auto

definition proc_mapstacks :: "u64 \<Rightarrow> 'a kmem_state_scheme \<Rightarrow> (unit, 'a kmem_state_scheme) outcome" where
  "proc_mapstacks kpgtbl s = proc_mapstacks_loop 0 kpgtbl s"

definition kvmmake :: "'a vm_state_scheme \<Rightarrow> (u64, 'a vm_state_scheme) outcome" where
  "kvmmake s =
     obind (kalloc s) (\<lambda>kpgtbl s.
       if kpgtbl = 0 then Undef
       else
         let s = s\<lparr>mem := memset (mem s) (unat kpgtbl) 0 4096\<rparr> in
         obind (kvmmap kpgtbl UART0 UART0 PGSIZE (PTE_R OR PTE_W) s) (\<lambda>_ s.
         obind (kvmmap kpgtbl VIRTIO0 VIRTIO0 PGSIZE (PTE_R OR PTE_W) s) (\<lambda>_ s.
         obind (kvmmap kpgtbl PLIC PLIC 0x4000000 (PTE_R OR PTE_W) s) (\<lambda>_ s.
         obind (kvmmap kpgtbl KERNBASE KERNBASE (etext s - KERNBASE) (PTE_R OR PTE_X) s) (\<lambda>_ s.
         obind (kvmmap kpgtbl (etext s) (etext s) (PHYSTOP - etext s) (PTE_R OR PTE_W) s) (\<lambda>_ s.
         obind (kvmmap kpgtbl TRAMPOLINE (trampoline s) PGSIZE (PTE_R OR PTE_X) s) (\<lambda>_ s.
         obind (proc_mapstacks kpgtbl s) (\<lambda>_ s.
         Ok kpgtbl s))))))))"

definition kvminit :: "'a vm_state_scheme \<Rightarrow> (unit, 'a vm_state_scheme) outcome" where
  "kvminit s = obind (kvmmake s) (\<lambda>kpgtbl s. Ok () (s\<lparr>kernel_pagetable := kpgtbl\<rparr>))"

definition kvminithart :: "'a vm_state_scheme \<Rightarrow> 'a vm_state_scheme" where
  "kvminithart s = s\<lparr>satp := push_bit 60 8 OR drop_bit 12 (kernel_pagetable s)\<rparr>"

text \<open>
  The loop of \<open>uvmunmap\<close>; \<open>last_va\<close> is the bound \<open>va + npages*PGSIZE\<close>, computed modulo \<open>2^64\<close>.
\<close>

function uvmunmap_loop :: "u64 \<Rightarrow> u64 \<Rightarrow> u64 \<Rightarrow> bool \<Rightarrow> 'a kmem_state_scheme
    \<Rightarrow> (unit, 'a kmem_state_scheme) outcome" where
  "uvmunmap_loop pagetable a last_va do_free s =
     (if a < last_va
      then obind (walk pagetable a False s) (\<lambda>pte s.
        if pte = 0 then Panic ''uvmunmap: walk''
        else let e = load64 (mem s) (unat pte) in
          if e AND PTE_V = 0 then Panic ''uvmunmap: not mapped''
          else if PTE_FLAGS e = PTE_V then Panic ''uvmunmap: not a leaf''
          else obind (if do_free then kfree (PTE2PA e) s else Ok () s) (\<lambda>_ s.
            uvmunmap_loop pagetable (a + PGSIZE) last_va do_free
              (s\<lparr>mem := store64 (mem s) (unat pte) 0\<rparr>)))
      else Ok () s)"
  by pat_completeness auto
termination
  by (relation "measure (\<lambda>(pt, a, last_va, f, s). va_left a)")
    (auto dest: walk_Ok_bound va_left_step simp del: PGSIZE_def MAXVA_eq)

definition uvmunmap :: "u64 \<Rightarrow> u64 \<Rightarrow> u64 \<Rightarrow> bool \<Rightarrow> 'a kmem_state_scheme
    \<Rightarrow> (unit, 'a kmem_state_scheme) outcome" where
  "uvmunmap pagetable va npages do_free s =
     (if va mod PGSIZE \<noteq> 0 then Panic ''uvmunmap: not aligned''
      else uvmunmap_loop pagetable va (va + npages * PGSIZE) do_free s)"

definition uvmcreate :: "'a kmem_state_scheme \<Rightarrow> (u64, 'a kmem_state_scheme) outcome" where
  "uvmcreate s =
     obind (kalloc s) (\<lambda>pagetable s.
       if pagetable = 0 then Ok 0 s
       else Ok pagetable (s\<lparr>mem := memset (mem s) (unat pagetable) 0 4096\<rparr>))"

definition uvmfirst :: "u64 \<Rightarrow> u8 list \<Rightarrow> 'a kmem_state_scheme
    \<Rightarrow> (unit, 'a kmem_state_scheme) outcome" where
  "uvmfirst pagetable src s =
     (if 4096 \<le> length src then Panic ''uvmfirst: more than a page''
      else obind (kalloc s) (\<lambda>p s.
        if p = 0 then Undef
        else obind (mappages pagetable 0 PGSIZE p (PTE_W OR PTE_R OR PTE_X OR PTE_U)
            (s\<lparr>mem := memset (mem s) (unat p) 0 4096\<rparr>)) (\<lambda>_ s.
          Ok () (s\<lparr>mem := write_bytes (mem s) (unat p) src\<rparr>))))"

definition uvmdealloc :: "u64 \<Rightarrow> u64 \<Rightarrow> u64 \<Rightarrow> 'a kmem_state_scheme
    \<Rightarrow> (u64, 'a kmem_state_scheme) outcome" where
  "uvmdealloc pagetable oldsz newsz s =
     (if oldsz \<le> newsz then Ok oldsz s
      else obind
        (if PGROUNDUP newsz < PGROUNDUP oldsz
         then uvmunmap pagetable (PGROUNDUP newsz)
           (scast (ucast ((PGROUNDUP oldsz - PGROUNDUP newsz) div PGSIZE) :: 32 word)) True s
         else Ok () s)
        (\<lambda>_ s. Ok newsz s))"

function uvmalloc_loop :: "u64 \<Rightarrow> u64 \<Rightarrow> u64 \<Rightarrow> u64 \<Rightarrow> u64 \<Rightarrow> 'a kmem_state_scheme
    \<Rightarrow> (u64, 'a kmem_state_scheme) outcome" where
  "uvmalloc_loop pagetable a oldsz newsz xperm s =
     (if a < newsz
      then obind (kalloc s) (\<lambda>p s.
        if p = 0 then obind (uvmdealloc pagetable a oldsz s) (\<lambda>_ s. Ok 0 s)
        else obind (mappages pagetable a PGSIZE p (PTE_R OR PTE_U OR xperm)
            (s\<lparr>mem := memset (mem s) (unat p) 0 4096\<rparr>)) (\<lambda>r s.
          if r \<noteq> 0
          then obind (kfree p s) (\<lambda>_ s. obind (uvmdealloc pagetable a oldsz s) (\<lambda>_ s. Ok 0 s))
          else uvmalloc_loop pagetable (a + PGSIZE) oldsz newsz xperm s))
      else Ok newsz s)"
  by pat_completeness auto
termination
  by (relation "measure (\<lambda>(pt, a, oldsz, newsz, x, s). va_left a)")
    (auto dest: mappages_Ok_bound va_left_step simp del: PGSIZE_def MAXVA_eq)

definition uvmalloc :: "u64 \<Rightarrow> u64 \<Rightarrow> u64 \<Rightarrow> u64 \<Rightarrow> 'a kmem_state_scheme
    \<Rightarrow> (u64, 'a kmem_state_scheme) outcome" where
  "uvmalloc pagetable oldsz newsz xperm s =
     (if newsz < oldsz then Ok oldsz s
      else uvmalloc_loop pagetable (PGROUNDUP oldsz) (PGROUNDUP oldsz) newsz xperm s)"

text \<open>
  The recursion of \<open>freewalk\<close>: the first argument bounds the nesting of calls, 0 stands for an
  exhausted kernel stack; \<open>i\<close> is the loop counter of the call on \<open>pagetable\<close>.
\<close>

function freewalk :: "nat \<Rightarrow> u64 \<Rightarrow> nat \<Rightarrow> 'a kmem_state_scheme
    \<Rightarrow> (unit, 'a kmem_state_scheme) outcome" where
  "freewalk 0 pagetable i s = Undef"
| "freewalk (Suc d) pagetable i s =
     (if i < 512
      then let slot = unat (pagetable + 8 * of_nat i); pte = load64 (mem s) slot in
        if pte AND PTE_V \<noteq> 0 \<and> pte AND (PTE_R OR PTE_W OR PTE_X) = 0
        then obind (freewalk d (PTE2PA pte) 0 s) (\<lambda>_ s.
          freewalk (Suc d) pagetable (Suc i) (s\<lparr>mem := store64 (mem s) slot 0\<rparr>))
        else if pte AND PTE_V \<noteq> 0 then Panic ''freewalk: leaf''
        else freewalk (Suc d) pagetable (Suc i) s
      else kfree pagetable s)"
  by pat_completeness auto
termination
  by (relation "measures [\<lambda>(d, pt, i, s). d, \<lambda>(d, pt, i, s). 512 - i]") auto

definition FREEWALK_DEPTH :: nat where
  "FREEWALK_DEPTH = 32"

definition uvmfree :: "u64 \<Rightarrow> u64 \<Rightarrow> 'a kmem_state_scheme \<Rightarrow> (unit, 'a kmem_state_scheme) outcome" where
  "uvmfree pagetable sz s =
     obind (if 0 < sz then uvmunmap pagetable 0 (PGROUNDUP sz div PGSIZE) True s else Ok () s)
       (\<lambda>_ s. freewalk FREEWALK_DEPTH pagetable 0 s)"

function uvmcopy_loop :: "u64 \<Rightarrow> u64 \<Rightarrow> u64 \<Rightarrow> u64 \<Rightarrow> 'a kmem_state_scheme
    \<Rightarrow> (int, 'a kmem_state_scheme) outcome" where
  "uvmcopy_loop old new i sz s =
     (if i < sz
      then obind (walk old i False s) (\<lambda>pte s.
        if pte = 0 then Panic ''uvmcopy: pte should exist''
        else let e = load64 (mem s) (unat pte) in
          if e AND PTE_V = 0 then Panic ''uvmcopy: page not present''
          else obind (kalloc s) (\<lambda>p s.
            if p = 0 then obind (uvmunmap new 0 (i div PGSIZE) True s) (\<lambda>_ s. Ok (-1) s)
            else obind (mappages new i PGSIZE p (PTE_FLAGS e)
                (s\<lparr>mem := memmove (mem s) (unat p) (unat (PTE2PA e)) 4096\<rparr>)) (\<lambda>r s.
              if r \<noteq> 0
              then obind (kfree p s) (\<lambda>_ s.
                obind (uvmunmap new 0 (i div PGSIZE) True s) (\<lambda>_ s. Ok (-1) s))
              else uvmcopy_loop old new (i + PGSIZE) sz s)))
      else Ok 0 s)"
  by pat_completeness auto
termination
  by (relation "measure (\<lambda>(old, new, i, sz, s). va_left i)")
    (auto dest: walk_Ok_bound va_left_step simp del: PGSIZE_def MAXVA_eq)

definition uvmcopy :: "u64 \<Rightarrow> u64 \<Rightarrow> u64 \<Rightarrow> 'a kmem_state_scheme
    \<Rightarrow> (int, 'a kmem_state_scheme) outcome" where
  "uvmcopy old new sz s = uvmcopy_loop old new 0 sz s"

definition uvmclear :: "u64 \<Rightarrow> u64 \<Rightarrow> 'a kmem_state_scheme \<Rightarrow> (unit, 'a kmem_state_scheme) outcome" where
  "uvmclear pagetable va s =
     obind (walk pagetable va False s) (\<lambda>pte s.
       if pte = 0 then Panic ''uvmclear''
       else Ok () (s\<lparr>mem := store64 (mem s) (unat pte)
         (load64 (mem s) (unat pte) AND NOT PTE_U)\<rparr>))"

subsection \<open>Copies between kernel and user space\<close>

lemma page_off: "unat (a - PGROUNDDOWN a) = unat a mod 4096"
  by (simp add: unat_sub_if_size PGROUNDDOWN_eq)

lemma page_room: "unat (PGSIZE - (a - PGROUNDDOWN a)) = 4096 - unat a mod 4096"
  by (subst unat_sub) (simp_all add: page_off word_le_nat_alt less_imp_le)

function copyout :: "u64 \<Rightarrow> u64 \<Rightarrow> u8 list \<Rightarrow> 'a kmem_state_scheme
    \<Rightarrow> (int, 'a kmem_state_scheme) outcome" where
  "copyout pagetable dstva src s =
     (if src = [] then Ok 0 s
      else let va0 = PGROUNDDOWN dstva in
        if MAXVA \<le> va0 then Ok (-1) s
        else obind (walk pagetable va0 False s) (\<lambda>pte s.
          let e = load64 (mem s) (unat pte) in
          if pte = 0 \<or> e AND PTE_V = 0 \<or> e AND PTE_U = 0 \<or> e AND PTE_W = 0 then Ok (-1) s
          else let n = min (unat (PGSIZE - (dstva - va0))) (length src) in
            copyout pagetable (va0 + PGSIZE) (drop n src)
              (s\<lparr>mem := write_bytes (mem s) (unat (PTE2PA e + (dstva - va0))) (take n src)\<rparr>)))"
  by pat_completeness auto
termination
  by (relation "measure (\<lambda>(pt, va, src, s). length src)") (auto simp: page_room simp del: PGSIZE_def)

text \<open>\<open>copyin\<close> returns its C result and the bytes it has stored at \<open>dst\<close>.\<close>

function copyin :: "u64 \<Rightarrow> u64 \<Rightarrow> nat \<Rightarrow> 'a kmem_state_scheme
    \<Rightarrow> (int \<times> u8 list, 'a kmem_state_scheme) outcome" where
  "copyin pagetable srcva len s =
     (if len = 0 then Ok (0, []) s
      else let va0 = PGROUNDDOWN srcva in
        obind (walkaddr pagetable va0 s) (\<lambda>pa0 s.
          if pa0 = 0 then Ok (-1, []) s
          else let n = min (unat (PGSIZE - (srcva - va0))) len;
                 bs = read_bytes (mem s) (unat (pa0 + (srcva - va0))) n in
            obind (copyin pagetable (va0 + PGSIZE) (len - n) s) (\<lambda>(r, bs') s. Ok (r, bs @ bs') s)))"
  by pat_completeness auto
termination
  by (relation "measure (\<lambda>(pt, va, len, s). len)") (auto simp: page_room simp del: PGSIZE_def)

text \<open>The inner loop of \<open>copyinstr\<close>: the bytes stored, and whether the NUL was among them.\<close>

fun copyinstr_page :: "bytes \<Rightarrow> nat \<Rightarrow> nat \<Rightarrow> u8 list \<times> bool" where
  "copyinstr_page m p 0 = ([], False)"
| "copyinstr_page m p (Suc n) =
     (if m p = 0 then ([0], True)
      else let (bs, got_null) = copyinstr_page m (Suc p) n in (m p # bs, got_null))"

function copyinstr :: "u64 \<Rightarrow> u64 \<Rightarrow> nat \<Rightarrow> 'a kmem_state_scheme
    \<Rightarrow> (int \<times> u8 list, 'a kmem_state_scheme) outcome" where
  "copyinstr pagetable srcva mx s =
     (if mx = 0 then Ok (-1, []) s
      else let va0 = PGROUNDDOWN srcva in
        obind (walkaddr pagetable va0 s) (\<lambda>pa0 s.
          if pa0 = 0 then Ok (-1, []) s
          else let n = min (unat (PGSIZE - (srcva - va0))) mx;
                 (bs, got_null) = copyinstr_page (mem s) (unat (pa0 + (srcva - va0))) n in
            if got_null then Ok (0, bs) s
            else obind (copyinstr pagetable (va0 + PGSIZE) (mx - n) s)
              (\<lambda>(r, bs') s. Ok (r, bs @ bs') s)))"
  by pat_completeness auto
termination
  by (relation "measure (\<lambda>(pt, va, mx, s). mx)") (auto simp: page_room simp del: PGSIZE_def)

section \<open>The abstract page table\<close>

text \<open>
  The entry \<open>i\<close> of the table page \<open>p\<close>; the table pages below a table at level \<open>l\<close>; the tree shape
  of the tables (page aligned, no page used twice); the valid leaf entry for an address; the
  address of the leaf slot.
\<close>

definition ent :: "bytes \<Rightarrow> u64 \<Rightarrow> nat \<Rightarrow> u64" where
  "ent m p i = load64 m (unat p + 8 * i)"

definition valid :: "u64 \<Rightarrow> bool" where
  "valid e \<longleftrightarrow> e AND PTE_V \<noteq> 0"

fun pt_pages :: "bytes \<Rightarrow> nat \<Rightarrow> u64 \<Rightarrow> u64 set" where
  "pt_pages m 0 p = {p}"
| "pt_pages m (Suc l) p =
     insert p (\<Union>i \<in> {i. i < 512 \<and> valid (ent m p i)}. pt_pages m l (PTE2PA (ent m p i)))"

fun pt_wf :: "bytes \<Rightarrow> nat \<Rightarrow> u64 \<Rightarrow> bool" where
  "pt_wf m 0 p \<longleftrightarrow> p mod PGSIZE = 0"
| "pt_wf m (Suc l) p \<longleftrightarrow> p mod PGSIZE = 0 \<and>
     (\<forall>i < 512. valid (ent m p i) \<longrightarrow> pt_wf m l (PTE2PA (ent m p i)) \<and>
        p \<notin> pt_pages m l (PTE2PA (ent m p i))) \<and>
     (\<forall>i < 512. \<forall>j < 512. i \<noteq> j \<longrightarrow> valid (ent m p i) \<longrightarrow> valid (ent m p j) \<longrightarrow>
        pt_pages m l (PTE2PA (ent m p i)) \<inter> pt_pages m l (PTE2PA (ent m p j)) = {})"

definition px :: "nat \<Rightarrow> u64 \<Rightarrow> nat" where
  "px l va = unat (PX l va)"

fun leaf :: "bytes \<Rightarrow> nat \<Rightarrow> u64 \<Rightarrow> u64 \<Rightarrow> u64 option" where
  "leaf m 0 p va = (if valid (ent m p (px 0 va)) then Some (ent m p (px 0 va)) else None)"
| "leaf m (Suc l) p va = (if valid (ent m p (px (Suc l) va))
     then leaf m l (PTE2PA (ent m p (px (Suc l) va))) va else None)"

fun leaf_slot :: "bytes \<Rightarrow> nat \<Rightarrow> u64 \<Rightarrow> u64 \<Rightarrow> u64 option" where
  "leaf_slot m 0 p va = Some (p + 8 * PX 0 va)"
| "leaf_slot m (Suc l) p va = (if valid (ent m p (px (Suc l) va))
     then leaf_slot m l (PTE2PA (ent m p (px (Suc l) va))) va else None)"

lemma px_less: "px l va < 512"
proof -
  have "PX l va = take_bit 9 (drop_bit (12 + 9 * l) va)"
    unfolding PX_def take_bit_eq_mask by (simp add: mask_eq_exp_minus_1)
  then have "px l va = take_bit 9 (unat (drop_bit (12 + 9 * l) va))"
    by (simp only: px_def unsigned_take_bit_eq)
  then show ?thesis
    using take_bit_nat_less_exp [of 9 "unat (drop_bit (12 + 9 * l) va)"] by simp
qed

lemma slot_unat:
  assumes "p mod PGSIZE = 0" and "i < 512"
  shows "unat (p + 8 * of_nat i) = unat p + 8 * i"
proof -
  obtain k where k: "unat p = 4096 * k"
    using assms(1) by (rule alignedE)
  moreover have "unat p < 2 ^ 64"
    using unsigned_less [of p] by simp
  ultimately have "unat p + 4096 \<le> 2 ^ 64" by simp
  moreover have "unat (8 * of_nat i :: u64) = 8 * i"
    using assms(2) by (simp add: unat_word_ariths unat_of_nat)
  ultimately show ?thesis
    using assms(2) by (subst unat_add_nowrap) simp_all
qed

lemma slot_px: "p mod PGSIZE = 0 \<Longrightarrow> unat (p + 8 * PX l va) = unat p + 8 * px l va"
  using slot_unat [OF _ px_less, of p l va] by (simp add: px_def)

lemma slot_in_page: "i < 512 \<Longrightarrow> unat p + 8 * i \<le> x \<Longrightarrow> x < unat p + 8 * i + 8 \<Longrightarrow> in_page p x"
  by (simp add: in_page_def)

lemma ent_cong: "(\<And>x. in_page p x \<Longrightarrow> m' x = m x) \<Longrightarrow> i < 512 \<Longrightarrow> ent m' p i = ent m p i"
  unfolding ent_def by (rule load64_cong) (auto intro: slot_in_page)

lemma ent_store:
  "ent (store64 m (unat p + 8 * i) e) p j = (if i = j then e else ent m p j)"
  unfolding ent_def by (cases i j rule: linorder_cases) (simp_all add: load64_store64_disjoint)

lemma valid_bit: "valid e \<longleftrightarrow> bit e 0"
  unfolding valid_def pte_bits using and_exp_eq_0_iff_not_bit [of e 0] by simp

lemma valid_or_V [simp]: "valid (e OR PTE_V)"
  by (simp add: valid_bit bit_or_iff pte_bits)

lemma not_valid_0 [simp]: "\<not> valid 0"
  by (simp add: valid_def)

text \<open>Memory that differs only inside the pages \<open>A\<close>.\<close>

definition same_outside :: "u64 set \<Rightarrow> bytes \<Rightarrow> bytes \<Rightarrow> bool" where
  "same_outside A m m' \<longleftrightarrow> (\<forall>x. (\<forall>q \<in> A. \<not> in_page q x) \<longrightarrow> m' x = m x)"

lemma same_outside_page:
  assumes "same_outside A m m'" and "\<forall>a \<in> A. a mod PGSIZE = 0" and "q mod PGSIZE = 0"
    and "q \<notin> A" and "in_page q x"
  shows "m' x = m x"
proof -
  have "\<forall>a \<in> A. \<not> in_page a x"
    using assms(2-5) pages_disjoint by metis
  with assms(1) show ?thesis by (simp add: same_outside_def)
qed

lemma same_outside_refl [simp]: "same_outside A m m"
  by (simp add: same_outside_def)

lemma same_outside_trans: "same_outside A m m' \<Longrightarrow> same_outside A m' m'' \<Longrightarrow> same_outside A m m''"
  by (simp add: same_outside_def)

lemma same_outside_mono: "same_outside A m m' \<Longrightarrow> A \<subseteq> B \<Longrightarrow> same_outside B m m'"
  by (simp add: same_outside_def) blast

lemma pt_pages_root [simp]: "p \<in> pt_pages m l p"
  by (cases l) simp_all

lemma pt_wf_aligned: "pt_wf m l p \<Longrightarrow> p mod PGSIZE = 0"
  by (cases l) simp_all

lemma pt_pages_aligned: "pt_wf m l p \<Longrightarrow> q \<in> pt_pages m l p \<Longrightarrow> q mod PGSIZE = 0"
proof (induction l arbitrary: p)
  case 0
  then show ?case by simp
next
  case (Suc l)
  from Suc.prems(2) consider "q = p"
    | i where "i < 512" "valid (ent m p i)" "q \<in> pt_pages m l (PTE2PA (ent m p i))"
    by auto
  then show ?case
  proof cases
    case 1
    with Suc.prems(1) show ?thesis by simp
  next
    case 2
    with Suc.prems(1) have "pt_wf m l (PTE2PA (ent m p i))" by simp
    then show ?thesis using 2(3) by (rule Suc.IH)
  qed
qed

lemma pt_cong:
  assumes "\<forall>q \<in> pt_pages m l p. \<forall>x. in_page q x \<longrightarrow> m' x = m x"
  shows "pt_pages m' l p = pt_pages m l p \<and> pt_wf m' l p = pt_wf m l p \<and>
    leaf m' l p = leaf m l p \<and> leaf_slot m' l p = leaf_slot m l p"
  using assms
proof (induction l arbitrary: p)
  case 0
  have "ent m' p i = ent m p i" if "i < 512" for i
    using 0 that by (intro ent_cong) simp_all
  then show ?case
    by (simp add: fun_eq_iff px_less)
next
  case (Suc l)
  have e: "ent m' p i = ent m p i" if "i < 512" for i
    using Suc.prems that by (intro ent_cong) simp_all
  have ih: "pt_pages m' l (PTE2PA (ent m p i)) = pt_pages m l (PTE2PA (ent m p i)) \<and>
      pt_wf m' l (PTE2PA (ent m p i)) = pt_wf m l (PTE2PA (ent m p i)) \<and>
      leaf m' l (PTE2PA (ent m p i)) = leaf m l (PTE2PA (ent m p i)) \<and>
      leaf_slot m' l (PTE2PA (ent m p i)) = leaf_slot m l (PTE2PA (ent m p i))"
    if "i < 512" "valid (ent m p i)" for i
    using Suc.prems that by (intro Suc.IH) auto
  have s: "{i. i < 512 \<and> valid (ent m' p i)} = {i. i < 512 \<and> valid (ent m p i)}"
    using e by auto
  have "pt_pages m' (Suc l) p = pt_pages m (Suc l) p"
    unfolding pt_pages.simps s by (intro arg_cong [where f = "insert p"] SUP_cong) (simp_all add: e ih)
  moreover have "pt_wf m' (Suc l) p = pt_wf m (Suc l) p"
    by (simp add: e ih cong: conj_cong imp_cong)
  moreover have "leaf m' (Suc l) p va = leaf m (Suc l) p va" for va
    using ih [OF px_less] by (simp add: e px_less)
  moreover have "leaf_slot m' (Suc l) p va = leaf_slot m (Suc l) p va" for va
    using ih [OF px_less] by (simp add: e px_less)
  ultimately show ?case by (simp add: fun_eq_iff)
qed

text \<open>The table pages below \<open>p\<close> that are not reached through its entry \<open>i\<close>.\<close>

definition others :: "bytes \<Rightarrow> nat \<Rightarrow> u64 \<Rightarrow> nat \<Rightarrow> u64 set" where
  "others m l p i =
     (\<Union>j \<in> {j. j < 512 \<and> j \<noteq> i \<and> valid (ent m p j)}. pt_pages m l (PTE2PA (ent m p j)))"

lemma pt_pages_others:
  "i < 512 \<Longrightarrow> pt_pages m (Suc l) p = insert p (others m l p i \<union>
     (if valid (ent m p i) then pt_pages m l (PTE2PA (ent m p i)) else {}))"
  unfolding others_def pt_pages.simps by (cases "valid (ent m p i)") auto

lemma others_subset: "others m l p i \<subseteq> pt_pages m (Suc l) p"
  by (auto simp: others_def)

lemma pt_wf_others:
  "i < 512 \<Longrightarrow> pt_wf m (Suc l) p \<Longrightarrow> p \<notin> others m l p i \<and>
     (valid (ent m p i) \<longrightarrow> pt_wf m l (PTE2PA (ent m p i)) \<and>
        p \<notin> pt_pages m l (PTE2PA (ent m p i)) \<and>
        pt_pages m l (PTE2PA (ent m p i)) \<inter> others m l p i = {})"
  unfolding others_def by auto

lemma pt_node_update:
  assumes wf: "pt_wf m (Suc l) p" and i: "i < 512"
    and e: "\<forall>j < 512. j \<noteq> i \<longrightarrow> ent m' p j = ent m p j"
    and same: "\<forall>q \<in> others m l p i. \<forall>x. in_page q x \<longrightarrow> m' x = m x"
    and v: "valid (ent m' p i)" and c: "c = PTE2PA (ent m' p i)" and cwf: "pt_wf m' l c"
    and pc: "p \<notin> pt_pages m' l c" and dis: "pt_pages m' l c \<inter> others m l p i = {}"
  shows "pt_wf m' (Suc l) p" "pt_pages m' (Suc l) p = insert p (others m l p i \<union> pt_pages m' l c)"
    "px (Suc l) va \<noteq> i \<Longrightarrow> leaf m' (Suc l) p va = leaf m (Suc l) p va"
    "px (Suc l) va \<noteq> i \<Longrightarrow> leaf_slot m' (Suc l) p va = leaf_slot m (Suc l) p va"
proof -
  have o: "pt_pages m' l (PTE2PA (ent m p j)) = pt_pages m l (PTE2PA (ent m p j)) \<and>
      pt_wf m' l (PTE2PA (ent m p j)) = pt_wf m l (PTE2PA (ent m p j)) \<and>
      leaf m' l (PTE2PA (ent m p j)) = leaf m l (PTE2PA (ent m p j)) \<and>
      leaf_slot m' l (PTE2PA (ent m p j)) = leaf_slot m l (PTE2PA (ent m p j))"
    if "j < 512" "j \<noteq> i" "valid (ent m p j)" for j
    using that same by (intro pt_cong) (auto simp: others_def)
  have oth: "others m' l p i = others m l p i"
    unfolding others_def by (intro SUP_cong) (use e o in auto)
  show "pt_pages m' (Suc l) p = insert p (others m l p i \<union> pt_pages m' l c)"
    unfolding pt_pages_others [OF i] oth using v c by simp
  show "px (Suc l) va \<noteq> i \<Longrightarrow> leaf m' (Suc l) p va = leaf m (Suc l) p va"
    "px (Suc l) va \<noteq> i \<Longrightarrow> leaf_slot m' (Suc l) p va = leaf_slot m (Suc l) p va"
    using e o [OF px_less] by (simp_all add: px_less)
  have ij: "pt_pages m' l c \<inter> pt_pages m' l (PTE2PA (ent m' p j)) = {}"
    if "j < 512" "j \<noteq> i" "valid (ent m' p j)" for j
    using that dis oth unfolding others_def by blast
  have kj: "pt_pages m' l (PTE2PA (ent m' p k)) \<inter> pt_pages m' l (PTE2PA (ent m' p j)) = {}"
    if "j < 512" "j \<noteq> i" "k < 512" "k \<noteq> i" "k \<noteq> j" "valid (ent m' p k)" "valid (ent m' p j)" for j k
    using that e o wf by simp
  show "pt_wf m' (Suc l) p"
    unfolding pt_wf.simps
  proof (intro conjI allI impI)
    show "p mod PGSIZE = 0" using wf by simp
    fix j assume j: "j < 512" "valid (ent m' p j)"
    show "pt_wf m' l (PTE2PA (ent m' p j))"
      using j e o wf cwf c by (cases "j = i") simp_all
    show "p \<notin> pt_pages m' l (PTE2PA (ent m' p j))"
      using j e o wf pc c by (cases "j = i") simp_all
    fix k assume k: "k < 512" "k \<noteq> j" "valid (ent m' p k)"
    show "pt_pages m' l (PTE2PA (ent m' p k)) \<inter> pt_pages m' l (PTE2PA (ent m' p j)) = {}"
      using ij [of j] ij [of k] kj [of j k] j k c by (cases "j = i"; cases "k = i") auto
  qed
qed

lemma pt_zero:
  assumes "p mod PGSIZE = 0" and "\<And>x. in_page p x \<Longrightarrow> m x = 0"
  shows "pt_wf m l p" "pt_pages m l p = {p}" "leaf m l p va = None"
proof -
  have "ent m p i = 0" if "i < 512" for i
    unfolding ent_def by (rule load64_zero) (use that assms(2) slot_in_page in blast)
  then show "pt_wf m l p" "pt_pages m l p = {p}" "leaf m l p va = None"
    using assms(1) by (cases l; simp add: px_less)+
qed

definition same_idx :: "nat \<Rightarrow> u64 \<Rightarrow> u64 \<Rightarrow> bool" where
  "same_idx l va va' \<longleftrightarrow> (\<forall>k \<le> l. px k va = px k va')"

lemma same_idx_Suc: "same_idx (Suc l) va va' \<longleftrightarrow> px (Suc l) va = px (Suc l) va' \<and> same_idx l va va'"
  by (auto simp: same_idx_def le_Suc_eq)

lemma leaf_slot_page:
  assumes "pt_wf m l p" and "leaf_slot m l p va = Some a"
  obtains q where "q \<in> pt_pages m l p" "unat a = unat q + 8 * px 0 va"
  using assms
proof (induction l arbitrary: p thesis)
  case 0
  then show ?case using slot_px [of p 0 va] by simp
next
  case (Suc l)
  have v: "valid (ent m p (px (Suc l) va))" "leaf_slot m l (PTE2PA (ent m p (px (Suc l) va))) va = Some a"
    using Suc.prems(3) by (simp_all split: if_splits)
  have "pt_wf m l (PTE2PA (ent m p (px (Suc l) va)))"
    using Suc.prems(2) v px_less by simp
  then obtain q where "q \<in> pt_pages m l (PTE2PA (ent m p (px (Suc l) va)))" "unat a = unat q + 8 * px 0 va"
    using v(2) Suc.IH by blast
  with v(1) px_less show ?case by (intro Suc.prems(1)) auto
qed

lemma store_in_page:
  assumes "unat a = unat q + 8 * i" and "i < 512" and "\<not> in_page q x"
  shows "store64 m (unat a) e x = m x"
  using assms by (auto simp: in_page_def intro!: store64_outside)

lemma leaf_slot_store:
  fixes e :: u64
  assumes "pt_wf m l p" and "leaf_slot m l p va = Some a"
  defines "m' \<equiv> store64 m (unat a) e"
  shows "pt_wf m' l p \<and> pt_pages m' l p = pt_pages m l p \<and> leaf_slot m' l p = leaf_slot m l p \<and>
    leaf m' l p = (\<lambda>va'. if same_idx l va va' then (if valid e then Some e else None)
      else leaf m l p va')"
  using assms(1,2)
proof (induction l arbitrary: p)
  case 0
  then have a: "unat a = unat p + 8 * px 0 va"
    using slot_px [of p 0 va] by simp
  show ?case
    using 0 by (auto simp: m'_def a ent_store same_idx_def fun_eq_iff)
next
  case (Suc l)
  let ?i = "px (Suc l) va" and ?c = "PTE2PA (ent m p (px (Suc l) va))"
  have v: "valid (ent m p ?i)" "leaf_slot m l ?c va = Some a"
    using Suc.prems(2) by (simp_all split: if_splits)
  note ow = pt_wf_others [OF px_less Suc.prems(1), of "Suc l" va]
  have ih: "pt_wf m' l ?c" "pt_pages m' l ?c = pt_pages m l ?c" "leaf_slot m' l ?c = leaf_slot m l ?c"
    "leaf m' l ?c = (\<lambda>va'. if same_idx l va va' then (if valid e then Some e else None)
      else leaf m l ?c va')"
    using Suc.IH [of ?c] ow v by simp_all
  obtain q where q: "q \<in> pt_pages m l ?c" "unat a = unat q + 8 * px 0 va"
    using leaf_slot_page [of m l ?c va a] ow v by blast
  have al: "q mod PGSIZE = 0" "p mod PGSIZE = 0"
    using pt_pages_aligned [of m l ?c q] q ow v Suc.prems(1) by simp_all
  have out: "m' x = m x" if "\<not> in_page q x" for x
    unfolding m'_def by (rule store_in_page [OF q(2) px_less that])
  then have so: "same_outside {q} m m'"
    by (simp add: same_outside_def)
  have "q \<noteq> p"
    using q(1) ow v by blast
  then have e: "ent m' p j = ent m p j" if "j < 512" for j
    by (intro ent_cong same_outside_page [OF so] that) (use al in simp_all)
  have same: "\<forall>q' \<in> others m l p ?i. \<forall>x. in_page q' x \<longrightarrow> m' x = m x"
  proof (intro ballI allI impI)
    fix q' x assume q': "q' \<in> others m l p ?i" "in_page q' x"
    then have "q' \<noteq> q" "q' \<in> pt_pages m (Suc l) p"
      using q(1) ow v others_subset by blast+
    with q'(2) al pt_pages_aligned [OF Suc.prems(1), of q'] show "m' x = m x"
      by (intro same_outside_page [OF so, of q']) simp_all
  qed
  have n: "pt_wf m' (Suc l) p" "pt_pages m' (Suc l) p = insert p (others m l p ?i \<union> pt_pages m' l ?c)"
    "px (Suc l) va' \<noteq> ?i \<Longrightarrow> leaf m' (Suc l) p va' = leaf m (Suc l) p va'"
    "px (Suc l) va' \<noteq> ?i \<Longrightarrow> leaf_slot m' (Suc l) p va' = leaf_slot m (Suc l) p va'" for va'
    by (rule pt_node_update [OF Suc.prems(1) px_less _ same, where c = ?c];
        use e ih ow v px_less in simp)+
  have "leaf_slot m' (Suc l) p va' = leaf_slot m (Suc l) p va'" for va'
    using n(4) [of va'] ih(3) v(1) by (cases "px (Suc l) va' = ?i") (simp_all add: e px_less)
  moreover have "leaf m' (Suc l) p va' = (if same_idx (Suc l) va va'
      then (if valid e then Some e else None) else leaf m (Suc l) p va')" for va'
    using n(3) [of va'] ih(4) v(1)
    by (cases "px (Suc l) va' = ?i") (simp_all add: e px_less same_idx_Suc)
  moreover have "pt_pages m' (Suc l) p = pt_pages m (Suc l) p"
    unfolding n(2) pt_pages_others [OF px_less [of "Suc l" va], of m l p] using ih(2) v(1) by simp
  ultimately show ?case
    using n(1) by (intro conjI ext) blast+
qed

section \<open>The walk\<close>

declare pt_pages.simps(2) [simp del] pt_wf.simps(2) [simp del]

lemma walk_level_noalloc:
  "pt_wf (mem s) l p \<Longrightarrow>
    walk_level l p va False s = Ok (case leaf_slot (mem s) l p va of None \<Rightarrow> 0 | Some a \<Rightarrow> a) s"
proof (induction l arbitrary: p)
  case 0
  then show ?case by simp
next
  case (Suc l)
  from Suc.prems have "p mod PGSIZE = 0" by (rule pt_wf_aligned)
  then have e: "load64 (mem s) (unat (p + 8 * PX (Suc l) va)) = ent (mem s) p (px (Suc l) va)"
    by (simp only: slot_px ent_def)
  show ?case
    using Suc pt_wf_others [OF px_less Suc.prems, of "Suc l" va]
    by (simp only: walk_level.simps Let_def e) (auto simp: valid_def)
qed

text \<open>
  What a table at level \<open>l\<close> and the free pages \<open>xs\<close> own together, and what a walk does with it:
  pages move from the free list into the table, the leaf entries do not change, and nothing
  outside these pages is written.
\<close>

definition pt_own :: "u64 set \<Rightarrow> nat \<Rightarrow> u64 \<Rightarrow> u64 list \<Rightarrow> 'a kmem_state_scheme \<Rightarrow> bool" where
  "pt_own U l p xs s \<longleftrightarrow> kpages U s xs \<and> pt_wf (mem s) l p \<and>
     pt_pages (mem s) l p \<inter> set xs = {} \<and> pt_pages (mem s) l p \<subseteq> U"

definition pt_grow :: "u64 set \<Rightarrow> nat \<Rightarrow> u64 \<Rightarrow> u64 list \<Rightarrow> 'a kmem_state_scheme \<Rightarrow> u64 list
    \<Rightarrow> 'a kmem_state_scheme \<Rightarrow> bool" where
  "pt_grow U l p xs s ys t \<longleftrightarrow> pt_own U l p ys t \<and>
     pt_pages (mem s) l p \<subseteq> pt_pages (mem t) l p \<and>
     pt_pages (mem t) l p \<union> set ys = pt_pages (mem s) l p \<union> set xs \<and>
     same_outside (pt_pages (mem s) l p \<union> set xs) (mem s) (mem t) \<and>
     t = s\<lparr>freelist := freelist t, mem := mem t\<rparr>"

lemma kpages_aligned: "kpages U s xs \<Longrightarrow> q \<in> U \<Longrightarrow> q mod PGSIZE = 0"
  by (simp add: kpages_def page_ok_def)

lemma kpages_sub: "kpages U s xs \<Longrightarrow> set xs \<subseteq> U"
  using ka.pages_ok by blast

lemma PTE2PA_PA2PTE:
  assumes "p mod PGSIZE = 0" and "\<And>n. 10 \<le> n \<Longrightarrow> \<not> bit f n"
  shows "PTE2PA (PA2PTE p OR f) = p"
proof (rule bit_word_eqI)
  fix n assume n: "n < LENGTH(64)"
  have "take_bit 12 p = 0"
    using assms(1) by (simp add: take_bit_eq_mod)
  then have lo: "\<not> bit p n" if "n < 12" for n
    using that by (metis bit_take_bit_iff bit_0_eq bot_apply bot_bool_def)
  show "bit (PTE2PA (PA2PTE p OR f)) n = bit p n"
    using n assms(2) lo [of n]
    by (cases "n < 12") (auto simp: PTE2PA_def PA2PTE_def bit_simps)
qed

lemma same_outside_store:
  "unat a = unat q + 8 * i \<Longrightarrow> i < 512 \<Longrightarrow> same_outside {q} m (store64 m (unat a) e)"
  unfolding same_outside_def by (intro allI impI store_in_page [of a q i]) simp_all

lemma same_outside_memset:
  "same_outside {q} m (memset m (unat q) c 4096)"
  unfolding same_outside_def by (auto simp: in_page_def)

lemma kpages_same_outside:
  assumes "kpages U s ys" and "A \<inter> set ys = {}" and "A \<subseteq> U" and "same_outside A (mem s) m"
  shows "kpages U (s\<lparr>mem := m\<rparr>) ys"
  using assms(4) by (intro kpages_scribble [OF assms(1-3)]) (simp add: same_outside_def)

lemma pt_own_aligned:
  "pt_own U l p xs s \<Longrightarrow> q \<in> pt_pages (mem s) l p \<union> set xs \<Longrightarrow> q mod PGSIZE = 0"
  unfolding pt_own_def using kpages_aligned kpages_sub by blast

lemma pt_grow_child:
  fixes s s' t :: "'a kmem_state_scheme"
  assumes own: "pt_own U (Suc l) p xs s" and i: "i < 512"
    and s': "s' = s\<lparr>freelist := freelist s', mem := mem s'\<rparr>"
    and ents: "\<forall>j < 512. j \<noteq> i \<longrightarrow> ent (mem s') p j = ent (mem s) p j"
    and d: "same_outside (insert p (set xs)) (mem s) (mem s')"
    and v: "valid (ent (mem s') p i)" and c: "c = PTE2PA (ent (mem s') p i)"
    and own': "pt_own U l c xs' s'"
    and w: "pt_pages (mem s') l c \<union> set xs' = old \<union> set xs" "old \<subseteq> pt_pages (mem s') l c"
    and old: "old = (if valid (ent (mem s) p i) then pt_pages (mem s) l (PTE2PA (ent (mem s) p i)) else {})"
    and g: "pt_grow U l c xs' s' ys t"
  shows "pt_grow U (Suc l) p xs s ys t" "ent (mem t) p i = ent (mem s') p i"
    "px (Suc l) va \<noteq> i \<Longrightarrow> leaf (mem t) (Suc l) p va = leaf (mem s) (Suc l) p va"
proof -
  let ?o = "others (mem s) l p i"
  note ow = pt_wf_others [OF i, of "mem s" l p] and oo = pt_pages_others [OF i, of "mem s" l p]
  have wf: "pt_wf (mem s) (Suc l) p" and sub: "pt_pages (mem s) (Suc l) p \<subseteq> U"
    and dis: "pt_pages (mem s) (Suc l) p \<inter> set xs = {}"
    using own by (simp_all only: pt_own_def)
  have ps: "pt_pages (mem s) (Suc l) p = insert p (?o \<union> old)"
    using oo old by simp
  have W: "p \<notin> old \<union> set xs" "(old \<union> set xs) \<inter> ?o = {}" "p \<notin> ?o"
    using ow wf dis old unfolding ps by (auto split: if_splits)
  have al: "q mod PGSIZE = 0" if "q \<in> insert p (?o \<union> (old \<union> set xs))" for q
    using pt_own_aligned [OF own, of q] that unfolding ps by blast
  have gso: "same_outside (old \<union> set xs) (mem s') (mem t)"
    using g w(1) by (simp only: pt_grow_def)
  have pp: "mem t x = mem s' x" if "in_page p x" for x
    using al W by (intro same_outside_page [OF gso _ _ _ that]) blast+
  have e: "ent (mem t) p j = ent (mem s') p j" if "j < 512" for j
    using pp by (rule ent_cong) (use that in simp_all)
  show ei: "ent (mem t) p i = ent (mem s') p i"
    by (rule e [OF i])
  have same: "\<forall>q \<in> ?o. \<forall>x. in_page q x \<longrightarrow> mem t x = mem s x"
  proof (intro ballI allI impI)
    fix q x assume q: "q \<in> ?o" "in_page q x"
    have "mem t x = mem s' x"
      using al W q by (intro same_outside_page [OF gso _ _ _ q(2)]) blast+
    also have "\<dots> = mem s x"
      using al W q by (intro same_outside_page [OF d _ _ _ q(2)]) blast+
    finally show "mem t x = mem s x" .
  qed
  have T: "pt_pages (mem t) l c \<union> set ys = old \<union> set xs" "pt_wf (mem t) l c"
    "kpages U t ys" "pt_pages (mem t) l c \<inter> set ys = {}" "pt_pages (mem t) l c \<subseteq> U"
    "pt_pages (mem s') l c \<subseteq> pt_pages (mem t) l c" "t = s'\<lparr>freelist := freelist t, mem := mem t\<rparr>"
    using g w(1) by (simp_all only: pt_grow_def pt_own_def)
  have n: "pt_wf (mem t) (Suc l) p"
    "pt_pages (mem t) (Suc l) p = insert p (?o \<union> pt_pages (mem t) l c)"
    "px (Suc l) va \<noteq> i \<Longrightarrow> leaf (mem t) (Suc l) p va = leaf (mem s) (Suc l) p va" for va
    by (rule pt_node_update [OF wf i _ same, where c = c]; use e ents v c ei T W in auto)+
  show "px (Suc l) va \<noteq> i \<Longrightarrow> leaf (mem t) (Suc l) p va = leaf (mem s) (Suc l) p va"
    by (rule n(3))
  have u: "pt_pages (mem t) (Suc l) p \<union> set ys = pt_pages (mem s) (Suc l) p \<union> set xs"
    unfolding n(2) ps using T(1) by blast
  have "same_outside (pt_pages (mem s) (Suc l) p \<union> set xs) (mem s) (mem t)"
    by (rule same_outside_trans [OF same_outside_mono [OF d] same_outside_mono [OF gso]])
      (unfold ps, blast+)
  moreover have "t = s\<lparr>freelist := freelist t, mem := mem t\<rparr>"
    by (subst T(7), subst s') simp
  moreover have "pt_own U (Suc l) p ys t"
    unfolding pt_own_def n(2)
    using T(1,3,4,5) n(1) W dis sub ps by blast
  moreover have "pt_pages (mem s) (Suc l) p \<subseteq> pt_pages (mem t) (Suc l) p"
    unfolding n(2) ps using T(6) w(2) by blast
  ultimately show "pt_grow U (Suc l) p xs s ys t"
    unfolding pt_grow_def using u by blast
qed

lemma pt_grow_refl: "pt_own U l p xs s \<Longrightarrow> pt_grow U l p xs s xs s"
  by (simp add: pt_grow_def)

lemma kpages_nonzero: "kpages U s xs \<Longrightarrow> q \<in> U \<Longrightarrow> q \<noteq> 0"
  by (auto simp: kpages_def kmem_inv_def page_ok_def)

lemma leaf_slot_nonzero:
  assumes "pt_own U l p xs s" and "leaf_slot (mem s) l p va = Some a"
  shows "a \<noteq> 0"
proof -
  obtain q where "q \<in> pt_pages (mem s) l p" "unat a = unat q + 8 * px 0 va"
    using leaf_slot_page assms by (metis pt_own_def)
  moreover from this have "q \<noteq> 0"
    using assms kpages_nonzero unfolding pt_own_def by blast
  ultimately show ?thesis
    by (auto simp: word_unat_eq_iff)
qed

text \<open>A page taken from the free list becomes an empty table hooked into entry \<open>i\<close>.\<close>

lemma pt_new_table:
  fixes s :: "'a kmem_state_scheme"
  assumes own: "pt_own U (Suc l) p (x # xs) s" and i: "i < 512"
    and inv: "\<not> valid (ent (mem s) p i)"
    and k: "kpages U t xs" "t = s\<lparr>freelist := f, mem := m\<rparr>" "same_outside {x} (mem s) m"
  defines "m' \<equiv> store64 (memset m (unat x) 0 4096) (unat p + 8 * i) (PA2PTE x OR PTE_V)"
  shows "pt_own U l x xs (t\<lparr>mem := m'\<rparr>)" "ent m' p i = PA2PTE x OR PTE_V"
    "PTE2PA (ent m' p i) = x" "pt_pages m' l x = {x}" "leaf m' l x va = None"
    "same_outside (insert p {x}) (mem s) m'" "j < 512 \<Longrightarrow> j \<noteq> i \<Longrightarrow> ent m' p j = ent (mem s) p j"
proof -
  have al: "p mod PGSIZE = 0" "x mod PGSIZE = 0"
    using pt_own_aligned [OF own] by simp_all
  have px: "p \<noteq> x" "x \<notin> set xs" "p \<notin> set xs" "{p, x} \<subseteq> U"
    using own ka.pages_ok [of U s "x # xs"] pt_pages_root [of p "mem s" "Suc l"]
    unfolding pt_own_def list.set distinct.simps by blast+
  have s1: "same_outside {x} (mem s) (memset m (unat x) 0 4096)"
    by (rule same_outside_trans [OF k(3) same_outside_memset])
  have s2: "same_outside {p} (memset m (unat x) 0 4096) m'"
    unfolding m'_def using same_outside_store [of "p + 8 * of_nat i" p i] slot_unat [OF al(1) i] i
    by simp
  show so: "same_outside (insert p {x}) (mem s) m'"
    by (rule same_outside_trans [OF same_outside_mono [OF s1] same_outside_mono [OF s2]]) auto
  have z: "m' y = 0" if "in_page x y" for y
  proof -
    have "m' y = memset m (unat x) 0 4096 y"
      using al px by (intro same_outside_page [OF s2 _ _ _ that]) auto
    also have "\<dots> = 0"
      using that by (simp add: in_page_def memset_inside)
    finally show ?thesis .
  qed
  show "ent m' p i = PA2PTE x OR PTE_V"
    by (simp add: m'_def ent_store)
  then show "PTE2PA (ent m' p i) = x"
    using al by (simp add: PTE2PA_PA2PTE pte_bits bit_1_iff)
  show pz: "pt_pages m' l x = {x}" "leaf m' l x va = None"
    using al z by (simp_all add: pt_zero)
  have mt: "mem t = m" using k(2) by simp
  have "same_outside (insert p {x}) m m'"
    by (rule same_outside_trans [OF same_outside_mono [OF same_outside_memset]
          same_outside_mono [OF s2]]) auto
  then have "kpages U (t\<lparr>mem := m'\<rparr>) xs"
    using px by (intro kpages_same_outside [OF k(1), of "insert p {x}"]) (auto simp: mt)
  then show "pt_own U l x xs (t\<lparr>mem := m'\<rparr>)"
    using al z px pz by (auto simp: pt_own_def pt_zero)
  show "j < 512 \<Longrightarrow> j \<noteq> i \<Longrightarrow> ent m' p j = ent (mem s) p j"
    using al px ent_cong [of p "memset m (unat x) 0 4096" "mem s"] same_outside_page [OF s1, of p]
    by (simp add: m'_def ent_store)
qed

lemma walk_level_alloc:
  assumes "pt_own U l p xs s"
  shows "ensures (walk_level l p va True s) (\<lambda>pte t. \<exists>ys. pt_grow U l p xs s ys t \<and>
    leaf (mem t) l p = leaf (mem s) l p \<and>
    (if pte = 0 then ys = [] else leaf_slot (mem t) l p va = Some pte))"
  using assms
proof (induction l arbitrary: p xs s)
  case 0
  then show ?case
    using leaf_slot_nonzero [OF 0, of va "p + 8 * PX 0 va"] pt_grow_refl [OF 0] by auto
next
  case (Suc l)
  let ?i = "px (Suc l) va"
  note own = Suc.prems
  have wf: "pt_wf (mem s) (Suc l) p" and al: "p mod PGSIZE = 0"
    using own pt_own_aligned [OF own, of p] by (simp_all add: pt_own_def)
  have e: "load64 (mem s) (unat (p + 8 * PX (Suc l) va)) = ent (mem s) p ?i"
    using al by (simp only: slot_px ent_def)
  show ?case
  proof (cases "valid (ent (mem s) p ?i)")
    case True
    let ?c = "PTE2PA (ent (mem s) p ?i)"
    have oc: "pt_own U l ?c xs s"
      using own pt_wf_others [OF px_less wf, of "Suc l" va] True
        pt_pages_others [OF px_less [of "Suc l" va], of "mem s" l p]
      by (auto simp: pt_own_def)
    have eq: "walk_level (Suc l) p va True s = walk_level l ?c va True s"
      using True by (simp add: e Let_def valid_def)
    show ?thesis
      unfolding eq
    proof (rule ensures_mono [OF Suc.IH [OF oc]], elim exE conjE)
      fix pte t ys
      assume g: "pt_grow U l ?c xs s ys t" "leaf (mem t) l ?c = leaf (mem s) l ?c"
        "if pte = 0 then ys = [] else leaf_slot (mem t) l ?c va = Some pte"
      have n: "pt_grow U (Suc l) p xs s ys t" "ent (mem t) p ?i = ent (mem s) p ?i"
        "px (Suc l) va' \<noteq> ?i \<Longrightarrow> leaf (mem t) (Suc l) p va' = leaf (mem s) (Suc l) p va'" for va'
        by (rule pt_grow_child [OF own px_less [of "Suc l" va] _ _ _ True refl oc _ _ _ g(1)]; use True in simp)+
      have "leaf (mem t) (Suc l) p va' = leaf (mem s) (Suc l) p va'" for va'
        using n(2) n(3) [of va'] g(2) True by (cases "px (Suc l) va' = ?i") simp_all
      with n g(3) True show "\<exists>ys. pt_grow U (Suc l) p xs s ys t \<and>
        leaf (mem t) (Suc l) p = leaf (mem s) (Suc l) p \<and>
        (if pte = 0 then ys = [] else leaf_slot (mem t) (Suc l) p va = Some pte)"
        by (intro exI [where x = ys] conjI ext) (auto split: if_splits)
    qed
  next
    case False
    show ?thesis
    proof (cases xs)
      case Nil
      then have "kalloc s = Ok 0 s"
        using own ka.alloc_Nil [of U s] by (simp add: pt_own_def)
      then show ?thesis
        using False Nil pt_grow_refl [OF own] by (simp add: e Let_def valid_def)
    next
      case (Cons x xs')
      have kp: "kpages U s (x # xs')" using own Cons by (simp add: pt_own_def)
      obtain t f m where t: "kalloc s = Ok x t" "kpages U t xs'" "t = s\<lparr>freelist := f, mem := m\<rparr>"
        "same_outside {x} (mem s) m"
        using kalloc_ensures [of s x xs'] ka.alloc_Cons [OF kp] kp
        by (auto simp: ensures_iff_Ok kpages_def same_outside_def)
      define m' where "m' = store64 (memset m (unat x) 0 4096) (unat p + 8 * ?i) (PA2PTE x OR PTE_V)"
      note nt = pt_new_table [OF own [unfolded Cons] px_less [of "Suc l" va] False t(2-4), folded m'_def]
      have x0: "x \<noteq> 0" using kp kpages_nonzero [of U s "x # xs'" x] kpages_sub [OF kp] by auto
      have eq: "walk_level (Suc l) p va True s = walk_level l x va True (t\<lparr>mem := m'\<rparr>)"
        using False t(1,3) x0 al by (simp add: Let_def valid_def m'_def slot_px ent_def)
      show ?thesis
        unfolding eq
      proof (rule ensures_mono [OF Suc.IH [OF nt(1)]], elim exE conjE)
        fix pte t' ys
        let ?s' = "t\<lparr>mem := m'\<rparr>"
        assume g: "pt_grow U l x xs' ?s' ys t'" "leaf (mem t') l x = leaf (mem ?s') l x"
          "if pte = 0 then ys = [] else leaf_slot (mem t') l x va = Some pte"
        have so: "same_outside (insert p (set xs)) (mem s) (mem ?s')"
          using same_outside_mono [OF nt(6)] Cons by auto
        have n: "pt_grow U (Suc l) p xs s ys t'" "ent (mem t') p ?i = ent (mem ?s') p ?i"
          "px (Suc l) va' \<noteq> ?i \<Longrightarrow> leaf (mem t') (Suc l) p va' = leaf (mem s) (Suc l) p va'" for va'
          by (rule pt_grow_child [OF own px_less [of "Suc l" va] _ _ so _ _ nt(1) _ _ refl g(1)];
              use nt(2,3,4,7) t(3) Cons False in simp)+
        have "leaf (mem t') (Suc l) p va' = leaf (mem s) (Suc l) p va'" for va'
          using n(2) n(3) [of va'] g(2) False nt(2,3) nt(5) by (cases "px (Suc l) va' = ?i") simp_all
        with n g(3) nt(2,3) show "\<exists>ys. pt_grow U (Suc l) p xs s ys t' \<and>
          leaf (mem t') (Suc l) p = leaf (mem s) (Suc l) p \<and>
          (if pte = 0 then ys = [] else leaf_slot (mem t') (Suc l) p va = Some pte)"
          by (intro exI [where x = ys] conjI ext) (auto split: if_splits)
      qed
    qed
  qed
qed

section \<open>Mapping pages\<close>

definition vpn :: "u64 \<Rightarrow> nat" where
  "vpn va = unat va div 4096"

text \<open>The translation the tables below \<open>pt\<close> define: the valid leaf entry for an address.\<close>

definition xlate :: "bytes \<Rightarrow> u64 \<Rightarrow> u64 \<Rightarrow> u64 option" where
  "xlate m pt va = (if va < MAXVA then leaf m 2 pt va else None)"

lemma px_vpn: "px k va = vpn va div 512 ^ k mod 512"
proof -
  have "PX k va = take_bit 9 (drop_bit (12 + 9 * k) va)"
    unfolding PX_def take_bit_eq_mask by (simp add: mask_eq_exp_minus_1)
  then have "px k va = unat va div 2 ^ (12 + 9 * k) mod 2 ^ 9"
    using unsigned_less [of va, where ?'a = nat] unfolding px_def
    by (simp only: unsigned_take_bit_eq unsigned_drop_bit_eq)
      (simp add: take_bit_eq_mod drop_bit_eq_div)
  also have "(2 :: nat) ^ (12 + 9 * k) = 4096 * 512 ^ k"
    by (simp add: power_add power_mult)
  finally show ?thesis
    by (simp add: vpn_def div_mult2_eq)
qed

lemma vpn_MAXVA: "va < MAXVA \<longleftrightarrow> vpn va < 2 ^ 26"
  by (simp add: word_less_nat_alt vpn_def div_less_iff_less_mult)

lemma same_idx_vpn:
  assumes "va < MAXVA" and "va' < MAXVA"
  shows "same_idx 2 va va' \<longleftrightarrow> vpn va = vpn va'"
proof
  assume "same_idx 2 va va'"
  then have "px k va = px k va'" if "k \<le> 2" for k
    using that by (simp add: same_idx_def)
  from this [of 0] this [of 1] this [of 2]
  have d: "vpn va mod 512 = vpn va' mod 512" "vpn va div 512 mod 512 = vpn va' div 512 mod 512"
    "vpn va div 512 div 512 mod 512 = vpn va' div 512 div 512 mod 512"
    by (simp_all add: px_vpn power2_eq_square flip: div_mult2_eq)
  have lt: "v div 512 div 512 mod 512 = v div 512 div 512" if "v < 2 ^ 26" for v :: nat
    using that by (simp add: div_less_iff_less_mult)
  have "vpn va div 512 = vpn va' div 512"
    using d(2,3) lt assms unfolding vpn_MAXVA by (metis div_mult_mod_eq)
  with d(1) show "vpn va = vpn va'"
    by (metis div_mult_mod_eq)
qed (simp add: same_idx_def px_vpn)

lemma leaf_at_slot:
  "pt_wf m l p \<Longrightarrow> leaf m l p va = (case leaf_slot m l p va of None \<Rightarrow> None
     | Some a \<Rightarrow> if valid (load64 m (unat a)) then Some (load64 m (unat a)) else None)"
proof (induction l arbitrary: p)
  case 0
  then show ?case by (simp add: ent_def slot_px)
next
  case (Suc l)
  then show ?case using pt_wf_others [OF px_less Suc.prems, of "Suc l" va] by simp
qed

lemma pt_own_store:
  assumes "pt_own U l p xs s" and "leaf_slot (mem s) l p va = Some a"
  shows "pt_own U l p xs (s\<lparr>mem := store64 (mem s) (unat a) e\<rparr>)"
    "same_outside (pt_pages (mem s) l p) (mem s) (store64 (mem s) (unat a) e)"
proof -
  obtain q where q: "q \<in> pt_pages (mem s) l p" "unat a = unat q + 8 * px 0 va"
    using leaf_slot_page [of "mem s" l p va a] assms unfolding pt_own_def by blast
  have so: "same_outside {q} (mem s) (store64 (mem s) (unat a) e)"
    by (rule same_outside_store [OF q(2) px_less])
  then show "same_outside (pt_pages (mem s) l p) (mem s) (store64 (mem s) (unat a) e)"
    by (rule same_outside_mono) (use q in simp)
  show "pt_own U l p xs (s\<lparr>mem := store64 (mem s) (unat a) e\<rparr>)"
    using assms q so leaf_slot_store [of "mem s" l p va a e] unfolding pt_own_def
    by (auto intro: kpages_same_outside [where A = "{q}"])
qed

lemma pt_grow_store:
  assumes "pt_grow U l p xs s ys t" and "leaf_slot (mem t) l p va = Some a"
  shows "pt_grow U l p xs s ys (t\<lparr>mem := store64 (mem t) (unat a) e\<rparr>)"
proof -
  have own: "pt_own U l p ys t" and wf: "pt_wf (mem t) l p"
    and t: "t = s\<lparr>freelist := freelist t, mem := mem t\<rparr>"
    and un: "pt_pages (mem t) l p \<union> set ys = pt_pages (mem s) l p \<union> set xs"
    and so: "same_outside (pt_pages (mem s) l p \<union> set xs) (mem s) (mem t)"
    using assms(1) by (simp_all only: pt_grow_def pt_own_def)
  note st = pt_own_store [OF own assms(2), of e] and lf = leaf_slot_store [OF wf assms(2), of e]
  have "t\<lparr>mem := store64 (mem t) (unat a) e\<rparr> =
      s\<lparr>freelist := freelist t, mem := store64 (mem t) (unat a) e\<rparr>"
    by (subst t) simp
  moreover have "same_outside (pt_pages (mem s) l p \<union> set xs) (mem s) (store64 (mem t) (unat a) e)"
    by (rule same_outside_trans [OF so same_outside_mono [OF st(2)]]) (use un in blast)
  ultimately show ?thesis
    using assms(1) st(1) lf by (simp add: pt_grow_def)
qed

lemma pt_grow_trans:
  assumes "pt_grow U l p xs s ys t" and "pt_grow U l p ys t zs u"
  shows "pt_grow U l p xs s zs u"
proof -
  have t: "t = s\<lparr>freelist := freelist t, mem := mem t\<rparr>" and u: "u = t\<lparr>freelist := freelist u, mem := mem u\<rparr>"
    and so: "same_outside (pt_pages (mem s) l p \<union> set xs) (mem s) (mem t)"
      "same_outside (pt_pages (mem t) l p \<union> set ys) (mem t) (mem u)"
    and un: "pt_pages (mem t) l p \<union> set ys = pt_pages (mem s) l p \<union> set xs"
    using assms by (simp_all only: pt_grow_def)
  have "u = s\<lparr>freelist := freelist u, mem := mem u\<rparr>"
    by (subst u, subst t) simp
  then show ?thesis
    using assms so(1) so(2) [unfolded un] unfolding pt_grow_def
    by (auto intro: same_outside_trans)
qed

text \<open>The translation \<open>f\<close> with \<open>k\<close> pages from page number \<open>v\<close> mapped to physical pages from \<open>pa\<close>.\<close>

definition mapped :: "(u64 \<Rightarrow> u64 option) \<Rightarrow> nat \<Rightarrow> nat \<Rightarrow> u64 \<Rightarrow> u64 \<Rightarrow> u64 \<Rightarrow> u64 option" where
  "mapped f v k pa perm va =
     (if v \<le> vpn va \<and> vpn va < v + k
      then Some (PA2PTE (pa + of_nat (vpn va - v) * PGSIZE) OR perm OR PTE_V) else f va)"

lemma mapped_0 [simp]: "mapped f v 0 pa perm = f"
  by (auto simp: mapped_def fun_eq_iff)

lemma mapped_Suc:
  "mapped (mapped f v 1 pa perm) (Suc v) j (pa + PGSIZE) perm = mapped f v (Suc j) pa perm"
proof
  fix va
  consider "Suc v \<le> vpn va" | "vpn va = v" | "vpn va < v" by linarith
  then show "mapped (mapped f v 1 pa perm) (Suc v) j (pa + PGSIZE) perm va = mapped f v (Suc j) pa perm va"
  proof cases
    case 1
    then have "vpn va - v = Suc (vpn va - Suc v)" by simp
    with 1 show ?thesis by (auto simp: mapped_def algebra_simps)
  qed (simp_all add: mapped_def)
qed

lemma walk_alloc:
  assumes "pt_own U 2 pt xs s" and "va < MAXVA"
  shows "ensures (walk pt va True s) (\<lambda>pte t. \<exists>ys. pt_grow U 2 pt xs s ys t \<and>
    xlate (mem t) pt = xlate (mem s) pt \<and>
    (if pte = 0 then ys = [] else leaf_slot (mem t) 2 pt va = Some pte))"
  using assms(2) unfolding walk_def
  by (simp add: not_le [symmetric] del: MAXVA_eq)
    (rule ensures_mono [OF walk_level_alloc [OF assms(1)]], auto simp: xlate_def fun_eq_iff)

lemma walk_noalloc:
  assumes "pt_wf (mem s) 2 pt" and "va < MAXVA"
  shows "walk pt va False s = Ok (case leaf_slot (mem s) 2 pt va of None \<Rightarrow> 0 | Some a \<Rightarrow> a) s"
  using assms by (simp add: walk_def walk_level_noalloc not_le [symmetric] del: MAXVA_eq)

lemma xlate_store:
  assumes "pt_wf m 2 pt" and "leaf_slot m 2 pt va = Some a" and "va < MAXVA"
  shows "xlate (store64 m (unat a) e) pt = (\<lambda>va'. if va' < MAXVA \<and> vpn va' = vpn va
    then (if valid e then Some e else None) else xlate m pt va')"
  using leaf_slot_store [OF assms(1,2), of e] same_idx_vpn [OF assms(3)]
  by (auto simp: xlate_def fun_eq_iff simp del: MAXVA_eq)

lemma vpn_Suc:
  assumes "vpn a + 1 < 2 ^ 26"
  shows "vpn (a + PGSIZE) = Suc (vpn a)" "a + PGSIZE < MAXVA"
proof -
  have "unat a < 2 ^ 38"
    using assms unfolding vpn_def by (simp add: div_less_iff_less_mult less_diff_conv)
  then have "unat (a + PGSIZE) = unat a + 4096"
    by (simp add: unat_word_ariths)
  then show v: "vpn (a + PGSIZE) = Suc (vpn a)"
    by (simp add: vpn_def)
  show "a + PGSIZE < MAXVA"
    using assms unfolding vpn_MAXVA v by simp
qed

lemma aligned_step: "a mod PGSIZE = 0 \<Longrightarrow> (a + PGSIZE) mod PGSIZE = 0"
  unfolding aligned_unat unat_word_ariths by (simp add: mod_mod_cancel mod_eq_0_iff_dvd)

lemma map_step:
  assumes own: "pt_own U 2 pt xs s" and va: "a < MAXVA" and n: "xlate (mem s) pt a = None"
  shows "ensures (walk pt a True s) (\<lambda>pte t.
    pte = 0 \<and> pt_grow U 2 pt xs s [] t \<and> xlate (mem t) pt = xlate (mem s) pt \<or>
    pte \<noteq> 0 \<and> load64 (mem t) (unat pte) AND PTE_V = 0 \<and>
    (\<exists>ys. pt_grow U 2 pt xs s ys (t\<lparr>mem := store64 (mem t) (unat pte) (PA2PTE pa OR perm OR PTE_V)\<rparr>) \<and>
      xlate (store64 (mem t) (unat pte) (PA2PTE pa OR perm OR PTE_V)) pt =
        mapped (xlate (mem s) pt) (vpn a) 1 pa perm))"
proof (rule ensures_mono [OF walk_alloc [OF own va]], elim exE conjE)
  fix pte t ys
  let ?e = "PA2PTE pa OR perm OR PTE_V"
  assume g: "pt_grow U 2 pt xs s ys t" "xlate (mem t) pt = xlate (mem s) pt"
    "if pte = 0 then ys = [] else leaf_slot (mem t) 2 pt a = Some pte"
  show "pte = 0 \<and> pt_grow U 2 pt xs s [] t \<and> xlate (mem t) pt = xlate (mem s) pt \<or>
    pte \<noteq> 0 \<and> load64 (mem t) (unat pte) AND PTE_V = 0 \<and>
    (\<exists>ys. pt_grow U 2 pt xs s ys (t\<lparr>mem := store64 (mem t) (unat pte) ?e\<rparr>) \<and>
      xlate (store64 (mem t) (unat pte) ?e) pt = mapped (xlate (mem s) pt) (vpn a) 1 pa perm)"
  proof (cases "pte = 0")
    case True
    with g show ?thesis by simp
  next
    case False
    then have sl: "leaf_slot (mem t) 2 pt a = Some pte" using g(3) by simp
    have wf: "pt_wf (mem t) 2 pt" using g(1) by (simp add: pt_grow_def pt_own_def)
    have "leaf (mem t) 2 pt a = None"
      using n g(2) va by (simp add: xlate_def fun_eq_iff del: MAXVA_eq) metis
    then have "load64 (mem t) (unat pte) AND PTE_V = 0"
      using leaf_at_slot [OF wf, of a] sl by (simp add: valid_def split: if_splits)
    moreover have "valid ?e"
      using valid_or_V [of "PA2PTE pa OR perm"] by (simp add: or.assoc)
    then have "xlate (store64 (mem t) (unat pte) ?e) pt = mapped (xlate (mem s) pt) (vpn a) 1 pa perm"
      unfolding xlate_store [OF wf sl va] mapped_def g(2) using va
      by (auto simp: fun_eq_iff vpn_MAXVA le_antisym simp del: MAXVA_eq)
    ultimately show ?thesis
      using False pt_grow_store [OF g(1) sl] by blast
  qed
qed

lemma mappages_loop_ensures:
  assumes "pt_own U 2 pt xs s" and "vpn a + k < 2 ^ 26"
    and "\<And>va. vpn a \<le> vpn va \<Longrightarrow> vpn va \<le> vpn a + k \<Longrightarrow> xlate (mem s) pt va = None"
  shows "ensures (mappages_loop pt a (a + of_nat k * PGSIZE) pa perm s) (\<lambda>r t. \<exists>ys j.
    pt_grow U 2 pt xs s ys t \<and> xlate (mem t) pt = mapped (xlate (mem s) pt) (vpn a) j pa perm \<and>
    (if r = 0 then j = Suc k else r = -1 \<and> j \<le> k \<and> ys = []))"
  using assms
proof (induction k arbitrary: a pa s xs)
  case 0
  have va: "a < MAXVA" using 0 by (simp add: vpn_MAXVA del: MAXVA_eq)
  show ?case
    unfolding mappages_loop.simps [of pt a] ensures_obind
  proof (rule ensures_mono [OF map_step [OF 0(1) va, of pa perm]])
    show "xlate (mem s) pt a = None" using 0(3) [of a] by simp
  qed (auto simp: Let_def intro!: exI [where x = "Suc 0"] exI [where x = 0])
next
  case (Suc k)
  have va: "a < MAXVA" using Suc.prems(2) by (simp add: vpn_MAXVA del: MAXVA_eq)
  have v1: "vpn (a + PGSIZE) = Suc (vpn a)"
    using Suc.prems(2) by (intro vpn_Suc) simp
  have "unat (of_nat (Suc k) * PGSIZE :: u64) = Suc k * 4096"
    using Suc.prems(2) by (simp add: unat_word_ariths unat_of_nat)
  then have ne: "a \<noteq> a + of_nat (Suc k) * PGSIZE"
    by (metis add_cancel_right_right mult_is_0 nat.distinct(1) unsigned_0 zero_neq_numeral)
  have last: "a + of_nat (Suc k) * PGSIZE = a + PGSIZE + of_nat k * PGSIZE"
    by (simp add: algebra_simps)
  let ?P = "\<lambda>r t. \<exists>ys j. pt_grow U 2 pt xs s ys t \<and>
    xlate (mem t) pt = mapped (xlate (mem s) pt) (vpn a) j pa perm \<and>
    (if r = 0 then j = Suc (Suc k) else r = -1 \<and> j \<le> Suc k \<and> ys = [])"
  have step: "ensures (mappages_loop pt (a + PGSIZE) (a + PGSIZE + of_nat k * PGSIZE) (pa + PGSIZE) perm t) ?P"
    if g: "pt_grow U 2 pt xs s ys t" "xlate (mem t) pt = mapped (xlate (mem s) pt) (vpn a) 1 pa perm"
    for t ys
  proof (rule ensures_mono [OF Suc.IH])
    show "pt_own U 2 pt ys t" using g(1) by (simp add: pt_grow_def)
    show "vpn (a + PGSIZE) + k < 2 ^ 26" using Suc.prems(2) v1 by simp
    show "xlate (mem t) pt va = None"
      if "vpn (a + PGSIZE) \<le> vpn va" "vpn va \<le> vpn (a + PGSIZE) + k" for va
      using that Suc.prems(3) [of va] v1 g(2) by (simp add: mapped_def)
    fix r t'
    assume "\<exists>zs j. pt_grow U 2 pt ys t zs t' \<and>
      xlate (mem t') pt = mapped (xlate (mem t) pt) (vpn (a + PGSIZE)) j (pa + PGSIZE) perm \<and>
      (if r = 0 then j = Suc k else r = -1 \<and> j \<le> k \<and> zs = [])"
    then obtain zs j where h: "pt_grow U 2 pt ys t zs t'"
      "xlate (mem t') pt = mapped (xlate (mem t) pt) (vpn (a + PGSIZE)) j (pa + PGSIZE) perm"
      "if r = 0 then j = Suc k else r = -1 \<and> j \<le> k \<and> zs = []"
      by blast
    have "xlate (mem t') pt = mapped (xlate (mem s) pt) (vpn a) (Suc j) pa perm"
      unfolding h(2) g(2) v1 by (rule mapped_Suc)
    moreover have "pt_grow U 2 pt xs s zs t'"
      using g(1) h(1) by (rule pt_grow_trans)
    ultimately show "?P r t'"
      using h(3) by (intro exI [where x = zs] exI [where x = "Suc j"]) (simp split: if_splits)
  qed
  show ?case
    unfolding mappages_loop.simps [of pt a] ensures_obind
  proof (rule ensures_mono [OF map_step [OF Suc.prems(1) va, of pa perm]], goal_cases)
    case 1
    show "xlate (mem s) pt a = None" using Suc.prems(3) [of a] by simp
  next
    case (2 pte t)
    then show ?case
    proof (elim disjE conjE exE)
      assume "pte = 0" "pt_grow U 2 pt xs s [] t" "xlate (mem t) pt = xlate (mem s) pt"
      then show ?thesis
        by (auto intro!: exI [where x = 0])
    next
      fix ys
      assume "pte \<noteq> 0" "load64 (mem t) (unat pte) AND PTE_V = 0"
        and g: "pt_grow U 2 pt xs s ys (t\<lparr>mem := store64 (mem t) (unat pte) (PA2PTE pa OR perm OR PTE_V)\<rparr>)"
        "xlate (store64 (mem t) (unat pte) (PA2PTE pa OR perm OR PTE_V)) pt =
          mapped (xlate (mem s) pt) (vpn a) 1 pa perm"
      then show ?thesis
        using step [OF g(1)] ne unfolding Let_def last by (simp del: PGSIZE_def)
    qed
  qed
qed

section \<open>Unmapping pages\<close>

declare mappages_loop.simps [simp del] uvmunmap_loop.simps [simp del] uvmalloc_loop.simps [simp del]
  uvmcopy_loop.simps [simp del] copyout.simps [simp del] copyin.simps [simp del]
  copyinstr.simps [simp del] proc_mapstacks_loop.simps [simp del]

text \<open>Freeing a page outside the tables leaves the tables alone.\<close>

lemma kfree_own:
  assumes own: "pt_own U 2 pt xs s" and P: "P \<in> U" "P \<notin> pt_pages (mem s) 2 pt" "P \<notin> set xs"
  shows "ensures (kfree P s) (\<lambda>_ t. pt_own U 2 pt (P # xs) t \<and>
    pt_pages (mem t) 2 pt = pt_pages (mem s) 2 pt \<and> leaf (mem t) 2 pt = leaf (mem s) 2 pt \<and>
    leaf_slot (mem t) 2 pt = leaf_slot (mem s) 2 pt \<and> same_outside {P} (mem s) (mem t) \<and>
    t = s\<lparr>freelist := freelist t, mem := mem t\<rparr>)"
proof -
  have k: "kmem_inv s xs" "LkKmem \<notin> held s" "page_ok s P" "U = {q. page_ok s q}"
    using own P(1) by (auto simp: pt_own_def kpages_def)
  show ?thesis
  proof (rule ensures_mono [OF kfree_ensures [OF k(1,3) P(3) k(2)]], elim conjE exE)
    fix t m
    assume t: "kmem_inv t (P # xs)" "t = s\<lparr>mem := m, freelist := P\<rparr>"
      "\<forall>x. \<not> in_page P x \<longrightarrow> m x = mem s x"
    have so: "same_outside {P} (mem s) (mem t)"
      using t by (simp add: same_outside_def)
    have "\<forall>q \<in> pt_pages (mem s) 2 pt. \<forall>x. in_page q x \<longrightarrow> mem t x = mem s x"
    proof (intro ballI allI impI)
      fix q x assume q: "q \<in> pt_pages (mem s) 2 pt" "in_page q x"
      show "mem t x = mem s x"
        using q P pt_own_aligned [OF own, of q] k(3)
        by (intro same_outside_page [OF so _ _ _ q(2)]) (auto simp: page_ok_def)
    qed
    note pc = pt_cong [OF this]
    have "kpages U t (P # xs)"
      using t k by (simp add: kpages_def)
    then show "pt_own U 2 pt (P # xs) t \<and>
      pt_pages (mem t) 2 pt = pt_pages (mem s) 2 pt \<and> leaf (mem t) 2 pt = leaf (mem s) 2 pt \<and>
      leaf_slot (mem t) 2 pt = leaf_slot (mem s) 2 pt \<and> same_outside {P} (mem s) (mem t) \<and>
      t = s\<lparr>freelist := freelist t, mem := mem t\<rparr>"
      using pc own P(2) so t(2) by (auto simp: pt_own_def)
  qed
qed

text \<open>The physical page behind the \<open>i\<close>-th page from \<open>a\<close>.\<close>

definition phys :: "bytes \<Rightarrow> u64 \<Rightarrow> u64 \<Rightarrow> nat \<Rightarrow> u64" where
  "phys m pt a i = PTE2PA (the (xlate m pt (a + of_nat i * PGSIZE)))"

text \<open>
  The \<open>k\<close> pages from \<open>a\<close> are mapped by leaf entries, and, when they are to be freed, to distinct
  pages that belong neither to the tables nor to the free list.
\<close>

definition unmappable :: "u64 set \<Rightarrow> u64 \<Rightarrow> u64 list \<Rightarrow> bool \<Rightarrow> u64 \<Rightarrow> nat \<Rightarrow> bytes \<Rightarrow> bool" where
  "unmappable U pt xs f a k m \<longleftrightarrow> vpn a + k \<le> 2 ^ 26 \<and>
     (\<forall>i < k. \<exists>e. xlate m pt (a + of_nat i * PGSIZE) = Some e \<and> PTE_FLAGS e \<noteq> PTE_V) \<and>
     (f \<longrightarrow> inj_on (phys m pt a) {..<k} \<and>
        phys m pt a ` {..<k} \<subseteq> U - pt_pages m 2 pt - set xs)"

definition freed :: "bool \<Rightarrow> bytes \<Rightarrow> u64 \<Rightarrow> u64 \<Rightarrow> nat \<Rightarrow> u64 list" where
  "freed f m pt a k = (if f then rev (map (phys m pt a) [0..<k]) else [])"

lemma xlate_slot:
  assumes "pt_own U 2 pt xs s" and "xlate (mem s) pt a = Some e"
  obtains pte where "walk pt a False s = Ok pte s" "pte \<noteq> 0" "load64 (mem s) (unat pte) = e" "valid e"
    "leaf_slot (mem s) 2 pt a = Some pte" "a < MAXVA"
proof -
  have wf: "pt_wf (mem s) 2 pt" using assms(1) by (simp add: pt_own_def)
  have a: "a < MAXVA" "leaf (mem s) 2 pt a = Some e"
    using assms(2) by (simp_all add: xlate_def split: if_splits)
  then obtain pte where p: "leaf_slot (mem s) 2 pt a = Some pte" "valid e"
    "load64 (mem s) (unat pte) = e"
    using leaf_at_slot [OF wf, of a] by (auto split: option.splits if_splits)
  show thesis
    by (rule that [of pte])
      (use p a walk_noalloc [OF wf a(1)] leaf_slot_nonzero [OF assms(1) p(1)] in simp_all)
qed

lemma unmap_step:
  assumes own: "pt_own U 2 pt xs s" and x: "xlate (mem s) pt a = Some e" "PTE_FLAGS e \<noteq> PTE_V"
    and f: "f \<Longrightarrow> PTE2PA e \<in> U - pt_pages (mem s) 2 pt - set xs"
    and lt: "a < last_va"
  obtains t where "uvmunmap_loop pt a last_va f s = uvmunmap_loop pt (a + PGSIZE) last_va f t"
    "pt_own U 2 pt (if f then PTE2PA e # xs else xs) t"
    "pt_pages (mem t) 2 pt = pt_pages (mem s) 2 pt"
    "xlate (mem t) pt = (\<lambda>va. if vpn va = vpn a then None else xlate (mem s) pt va)"
    "same_outside (pt_pages (mem s) 2 pt \<union> (if f then {PTE2PA e} else {})) (mem s) (mem t)"
    "t = s\<lparr>freelist := freelist t, mem := mem t\<rparr>"
proof -
  obtain pte where p: "walk pt a False s = Ok pte s" "pte \<noteq> 0" "load64 (mem s) (unat pte) = e"
    "valid e" "leaf_slot (mem s) 2 pt a = Some pte" "a < MAXVA"
    by (rule xlate_slot [OF own x(1)])
  obtain s1 where s1: "(if f then kfree (PTE2PA e) s else Ok () s) = Ok () s1"
    "pt_own U 2 pt (if f then PTE2PA e # xs else xs) s1"
    "pt_pages (mem s1) 2 pt = pt_pages (mem s) 2 pt" "leaf (mem s1) 2 pt = leaf (mem s) 2 pt"
    "leaf_slot (mem s1) 2 pt = leaf_slot (mem s) 2 pt"
    "same_outside (if f then {PTE2PA e} else {}) (mem s) (mem s1)"
    "s1 = s\<lparr>freelist := freelist s1, mem := mem s1\<rparr>"
  proof (cases f)
    case True
    then show thesis
      using that kfree_own [OF own, of "PTE2PA e"] f by (auto simp: ensures_iff_Ok)
  next
    case False
    then show thesis using that [of s] own by simp
  qed
  let ?t = "s1\<lparr>mem := store64 (mem s1) (unat pte) 0\<rparr>"
  have sl: "leaf_slot (mem s1) 2 pt a = Some pte" using p s1 by simp
  have wf: "pt_wf (mem s1) 2 pt" using s1 by (simp add: pt_own_def)
  note st = pt_own_store [OF s1(2) sl, of 0] and lf = leaf_slot_store [OF wf sl, of 0]
  show thesis
  proof (rule that [of ?t])
    have "uvmunmap_loop pt a last_va f s = obind (if f then kfree (PTE2PA e) s else Ok () s)
        (\<lambda>_ s. uvmunmap_loop pt (a + PGSIZE) last_va f (s\<lparr>mem := store64 (mem s) (unat pte) 0\<rparr>))"
      using p(4) unfolding uvmunmap_loop.simps [of pt a last_va f s]
      by (simp add: p(1-3) lt x(2) valid_def Let_def)
    then show "uvmunmap_loop pt a last_va f s = uvmunmap_loop pt (a + PGSIZE) last_va f ?t"
      unfolding s1(1) obind.simps .
    show "xlate (mem ?t) pt = (\<lambda>va. if vpn va = vpn a then None else xlate (mem s) pt va)"
      using xlate_store [OF wf sl p(6), of 0] s1(4) by (auto simp: fun_eq_iff xlate_def)
    show "?t = s\<lparr>freelist := freelist ?t, mem := mem ?t\<rparr>"
      by (subst s1(7)) simp
    have "same_outside (pt_pages (mem s) 2 pt \<union> (if f then {PTE2PA e} else {})) (mem s)
        (store64 (mem s1) (unat pte) 0)"
      by (rule same_outside_trans [OF same_outside_mono [OF s1(6)] same_outside_mono [OF st(2)]])
        (use s1(3) in simp_all)
    then show "same_outside (pt_pages (mem s) 2 pt \<union> (if f then {PTE2PA e} else {})) (mem s) (mem ?t)"
      by simp
  qed (use st lf s1(3) in simp_all)
qed

lemma vpn_add:
  assumes "vpn a + i < 2 ^ 26"
  shows "vpn (a + of_nat i * PGSIZE) = vpn a + i" "unat (a + of_nat i * PGSIZE) = unat a + i * 4096"
    "unat a + i * 4096 < 2 ^ 38"
proof -
  have "(unat a + i * 4096) div 4096 < 2 ^ 26"
    using assms by (simp add: vpn_def)
  then show l: "unat a + i * 4096 < 2 ^ 38"
    unfolding div_less_iff_less_mult [OF zero_less_numeral] by simp
  then show u: "unat (a + of_nat i * PGSIZE) = unat a + i * 4096"
    by (simp add: unat_word_ariths unat_of_nat)
  show "vpn (a + of_nat i * PGSIZE) = vpn a + i"
    unfolding vpn_def u by simp
qed

lemma freed_Suc:
  assumes "\<And>i. i < k \<Longrightarrow> phys m' pt (a + PGSIZE) i = phys m pt a (Suc i)"
  shows "freed f m pt a (Suc k) = freed f m' pt (a + PGSIZE) k @ (if f then [phys m pt a 0] else [])"
proof -
  have "map (phys m pt a) [0..<Suc k] = phys m pt a 0 # map (phys m' pt (a + PGSIZE)) [0..<k]"
    using assms by (simp add: map_upt_Suc del: upt_Suc)
  then show ?thesis by (simp add: freed_def del: upt_Suc)
qed

lemma uvmunmap_loop_ensures:
  assumes "pt_own U 2 pt xs s" and "unmappable U pt xs f a k (mem s)"
  shows "ensures (uvmunmap_loop pt a (a + of_nat k * PGSIZE) f s) (\<lambda>_ t.
    pt_own U 2 pt (freed f (mem s) pt a k @ xs) t \<and> pt_pages (mem t) 2 pt = pt_pages (mem s) 2 pt \<and>
    xlate (mem t) pt = (\<lambda>va. if vpn a \<le> vpn va \<and> vpn va < vpn a + k then None else xlate (mem s) pt va) \<and>
    same_outside (pt_pages (mem s) 2 pt \<union> set (freed f (mem s) pt a k)) (mem s) (mem t) \<and>
    t = s\<lparr>freelist := freelist t, mem := mem t\<rparr>)"
  using assms
proof (induction k arbitrary: a s xs)
  case 0
  then show ?case
    by (subst uvmunmap_loop.simps) (auto simp: freed_def fun_eq_iff)
next
  case (Suc k)
  note um = Suc.prems(2) [unfolded unmappable_def]
  have va: "a < MAXVA" using um by (simp add: vpn_MAXVA del: MAXVA_eq)
  obtain e where e: "xlate (mem s) pt a = Some e" "PTE_FLAGS e \<noteq> PTE_V"
    using um by (auto dest: spec [of _ 0])
  have ph0: "phys (mem s) pt a 0 = PTE2PA e" using e by (simp add: phys_def)
  have last: "a + of_nat (Suc k) * PGSIZE = a + PGSIZE + of_nat k * PGSIZE"
    by (simp add: algebra_simps)
  have "unat (a + of_nat k * PGSIZE) = unat a + k * 4096" "unat a + k * 4096 < 2 ^ 38"
    using um vpn_add(2,3) [of a k] by simp_all
  then have "unat (a + of_nat k * PGSIZE + PGSIZE) = unat a + k * 4096 + 4096"
    by (subst unat_add_nowrap) simp_all
  moreover have eq: "a + of_nat (Suc k) * PGSIZE = a + of_nat k * PGSIZE + PGSIZE"
    by (simp add: algebra_simps)
  ultimately have lt: "a < a + of_nat (Suc k) * PGSIZE"
    unfolding word_less_nat_alt eq by linarith
  have fr: "PTE2PA e \<in> U - pt_pages (mem s) 2 pt - set xs" if f
    using um that ph0 by force
  obtain t where t: "uvmunmap_loop pt a (a + of_nat (Suc k) * PGSIZE) f s =
      uvmunmap_loop pt (a + PGSIZE) (a + of_nat (Suc k) * PGSIZE) f t"
    "pt_own U 2 pt (if f then PTE2PA e # xs else xs) t"
    "pt_pages (mem t) 2 pt = pt_pages (mem s) 2 pt"
    "xlate (mem t) pt = (\<lambda>va. if vpn va = vpn a then None else xlate (mem s) pt va)"
    "same_outside (pt_pages (mem s) 2 pt \<union> (if f then {PTE2PA e} else {})) (mem s) (mem t)"
    "t = s\<lparr>freelist := freelist t, mem := mem t\<rparr>"
    by (rule unmap_step [OF Suc.prems(1) e fr lt])
  have v1: "vpn (a + PGSIZE) = Suc (vpn a)" if "0 < k"
    using um that by (intro vpn_Suc) simp
  have x': "xlate (mem t) pt (a + PGSIZE + of_nat i * PGSIZE) =
      xlate (mem s) pt (a + of_nat (Suc i) * PGSIZE)" if "i < k" for i
  proof -
    have eq: "a + PGSIZE + of_nat i * PGSIZE = a + of_nat (Suc i) * PGSIZE"
      by (simp add: algebra_simps)
    have "vpn (a + of_nat (Suc i) * PGSIZE) = vpn a + Suc i"
      using um that by (intro vpn_add) simp
    then show ?thesis unfolding eq t(4) by simp
  qed
  have ph: "phys (mem t) pt (a + PGSIZE) i = phys (mem s) pt a (Suc i)" if "i < k" for i
    unfolding phys_def x' [OF that] ..
  have un: "unmappable U pt (if f then PTE2PA e # xs else xs) f (a + PGSIZE) k (mem t)" if "0 < k"
    unfolding unmappable_def
  proof (intro conjI allI impI)
    show "vpn (a + PGSIZE) + k \<le> 2 ^ 26" using um v1 that by simp
    show "\<exists>e. xlate (mem t) pt (a + PGSIZE + of_nat i * PGSIZE) = Some e \<and> PTE_FLAGS e \<noteq> PTE_V"
      if "i < k" for i
      unfolding x' [OF that] using um that by (auto dest!: spec [of _ "Suc i"] simp del: of_nat_Suc)
    assume f
    then have inj: "inj_on (phys (mem s) pt a) {..<Suc k}"
      and im: "phys (mem s) pt a ` {..<Suc k} \<subseteq> U - pt_pages (mem s) 2 pt - set xs"
      using um by simp_all
    show "inj_on (phys (mem t) pt (a + PGSIZE)) {..<k}"
      by (rule inj_onI) (use inj ph in \<open>auto dest: inj_onD\<close>)
    have "phys (mem s) pt a (Suc i) \<noteq> PTE2PA e" if "i < k" for i
      using inj_onD [OF inj, of "Suc i" 0] that ph0 by auto
    then show "phys (mem t) pt (a + PGSIZE) ` {..<k} \<subseteq>
        U - pt_pages (mem t) 2 pt - set (if f then PTE2PA e # xs else xs)"
      using im ph t(3) by (fastforce split: if_splits)
  qed
  show ?case
  proof (cases "k = 0")
    case True
    then have "uvmunmap_loop pt (a + PGSIZE) (a + of_nat (Suc k) * PGSIZE) f t = Ok () t"
      by (subst uvmunmap_loop.simps) simp
    with t True show ?thesis
      by (auto simp: freed_def ph0 fun_eq_iff simp del: of_nat_Suc PGSIZE_def)
  next
    case False
    then have k: "0 < k" by simp
    note fs = freed_Suc [of k "mem t" pt a "mem s" f, OF ph]
    show ?thesis
      unfolding t(1) unfolding last
    proof (rule ensures_mono [OF Suc.IH [OF t(2) un [OF k]]], elim conjE)
      fix u
      assume u: "pt_own U 2 pt (freed f (mem t) pt (a + PGSIZE) k @ (if f then PTE2PA e # xs else xs)) u"
        "pt_pages (mem u) 2 pt = pt_pages (mem t) 2 pt"
        "xlate (mem u) pt = (\<lambda>va. if vpn (a + PGSIZE) \<le> vpn va \<and> vpn va < vpn (a + PGSIZE) + k
          then None else xlate (mem t) pt va)"
        "same_outside (pt_pages (mem t) 2 pt \<union> set (freed f (mem t) pt (a + PGSIZE) k)) (mem t) (mem u)"
        "u = t\<lparr>freelist := freelist u, mem := mem u\<rparr>"
      have "xlate (mem u) pt = (\<lambda>va. if vpn a \<le> vpn va \<and> vpn va < vpn a + Suc k then None
          else xlate (mem s) pt va)"
        unfolding u(3) t(4) v1 [OF k] by (auto simp: fun_eq_iff)
      moreover have "same_outside (pt_pages (mem s) 2 pt \<union> set (freed f (mem s) pt a (Suc k))) (mem s) (mem u)"
        by (rule same_outside_trans [OF same_outside_mono [OF t(5)] same_outside_mono [OF u(4)]])
          (use t(3) fs ph0 in auto)
      moreover have "u = s\<lparr>freelist := freelist u, mem := mem u\<rparr>"
        by (subst u(5), subst t(6)) simp
      moreover have "pt_own U 2 pt (freed f (mem s) pt a (Suc k) @ xs) u"
        using u(1) fs ph0 by (cases f) simp_all
      ultimately show "pt_own U 2 pt (freed f (mem s) pt a (Suc k) @ xs) u \<and>
        pt_pages (mem u) 2 pt = pt_pages (mem s) 2 pt \<and>
        xlate (mem u) pt = (\<lambda>va. if vpn a \<le> vpn va \<and> vpn va < vpn a + Suc k then None
          else xlate (mem s) pt va) \<and>
        same_outside (pt_pages (mem s) 2 pt \<union> set (freed f (mem s) pt a (Suc k))) (mem s) (mem u) \<and>
        u = s\<lparr>freelist := freelist u, mem := mem u\<rparr>"
        using u(2) t(3) by simp
    qed
  qed
qed

section \<open>User memory as the copies see it\<close>

definition ubyte :: "u64 \<Rightarrow> bytes \<Rightarrow> u64 \<Rightarrow> u64 \<Rightarrow> u8 option" where
  "ubyte need m pt va =
     (case xlate m pt va of None \<Rightarrow> None
      | Some e \<Rightarrow> if e AND PTE_U \<noteq> 0 \<and> e AND need = need
          then Some (m (unat (PTE2PA e) + unat va mod 4096)) else None)"

text \<open>The physical address behind a user address.\<close>

definition uaddr :: "bytes \<Rightarrow> u64 \<Rightarrow> u64 \<Rightarrow> nat option" where
  "uaddr m pt va =
     (case xlate m pt va of None \<Rightarrow> None
      | Some e \<Rightarrow> if e AND PTE_U \<noteq> 0 then Some (unat (PTE2PA e) + unat va mod 4096) else None)"

text \<open>
  User pages are not the null page, not table pages, and no two virtual pages share one.
\<close>

definition uvm_ok :: "bytes \<Rightarrow> u64 \<Rightarrow> bool" where
  "uvm_ok m pt \<longleftrightarrow> pt_wf m 2 pt \<and> 0 \<notin> pt_pages m 2 pt \<and>
     (\<forall>va e. xlate m pt va = Some e \<longrightarrow> e AND PTE_U \<noteq> 0 \<longrightarrow>
        PTE2PA e \<noteq> 0 \<and> PTE2PA e \<notin> pt_pages m 2 pt \<and>
        (\<forall>va' e'. xlate m pt va' = Some e' \<longrightarrow> e' AND PTE_U \<noteq> 0 \<longrightarrow>
           PTE2PA e' = PTE2PA e \<longrightarrow> vpn va' = vpn va))"

lemma leaf_vpn: "vpn va = vpn va' \<Longrightarrow> leaf m l p va = leaf m l p va'"
  by (induction l arbitrary: p) (simp_all add: px_vpn)

lemma xlate_vpn: "vpn va = vpn va' \<Longrightarrow> xlate m pt va = xlate m pt va'"
  using leaf_vpn [of va va'] by (simp add: xlate_def vpn_MAXVA del: MAXVA_eq)

lemma PTE2PA_aligned: "PTE2PA e mod PGSIZE = 0"
  by (simp add: PTE2PA_def flip: take_bit_eq_mod [where n = 12, simplified]) (simp add: take_bit_push_bit)

lemma in_same_page:
  assumes "i < 4096 - unat va mod 4096"
  shows "unat (va + of_nat i) = unat va + i" "vpn (va + of_nat i) = vpn va"
    "unat (va + of_nat i) mod 4096 = unat va mod 4096 + i"
proof -
  obtain q r where qr: "unat va = 4096 * q + r" "r < 4096"
    using mod_less_divisor [of 4096 "unat va"] by (metis mult_div_mod_eq zero_less_numeral)
  have r: "unat va mod 4096 = r" "unat va div 4096 = q"
    using qr by simp_all
  have "unat va < 2 ^ 64"
    using unsigned_less [of va, where ?'a = nat] by simp
  then have "q < 2 ^ 52" using qr by simp
  then show u: "unat (va + of_nat i) = unat va + i"
    using assms qr unfolding r by (simp add: unat_word_ariths unat_of_nat)
  show "vpn (va + of_nat i) = vpn va"
    unfolding vpn_def u r(2) using assms qr unfolding r by (simp add: div_nat_eqI)
  show "unat (va + of_nat i) mod 4096 = unat va mod 4096 + i"
    unfolding u r(1) using assms qr unfolding r by (simp add: add.assoc)
qed

lemma vpn_rounddown: "vpn (PGROUNDDOWN va) = vpn va"
  by (simp add: vpn_def PGROUNDDOWN_eq minus_mod_eq_mult_div)

lemma page_offset:
  "unat (PTE2PA e + (va - PGROUNDDOWN va)) = unat (PTE2PA e) + unat va mod 4096"
proof -
  have "unat (PTE2PA e) mod 4096 = 0"
    using PTE2PA_aligned unfolding aligned_unat .
  then have "unat (PTE2PA e + of_nat (unat va mod 4096)) = unat (PTE2PA e) + unat va mod 4096"
    by (intro in_same_page) simp
  moreover have "of_nat (unat va mod 4096) = va - PGROUNDDOWN va"
    using arg_cong [OF page_off [of va], of "of_nat :: nat \<Rightarrow> u64"] by simp
  ultimately show ?thesis by simp
qed

lemma ubyte_page:
  assumes "i < 4096 - unat va mod 4096"
  shows "ubyte need m pt (va + of_nat i) =
    (case xlate m pt (PGROUNDDOWN va) of None \<Rightarrow> None
     | Some e \<Rightarrow> if e AND PTE_U \<noteq> 0 \<and> e AND need = need
         then Some (m (unat (PTE2PA e + (va - PGROUNDDOWN va)) + i)) else None)"
proof -
  have "xlate m pt (va + of_nat i) = xlate m pt (PGROUNDDOWN va)"
    by (rule xlate_vpn) (simp add: in_same_page(2) [OF assms] vpn_rounddown)
  then show ?thesis
    unfolding ubyte_def in_same_page(3) [OF assms] page_offset
    by (simp add: add.assoc split: option.split)
qed

lemma next_page:
  "va + of_nat (4096 - unat va mod 4096) = PGROUNDDOWN va + PGSIZE"
proof -
  have "of_nat (4096 - unat va mod 4096) = PGSIZE - (va - PGROUNDDOWN va)"
    using arg_cong [OF page_room [of va], of "of_nat :: nat \<Rightarrow> u64"] by simp
  then show ?thesis by simp
qed

text \<open>The readable prefix of \<open>len\<close> bytes at \<open>va\<close>.\<close>

fun uprefix :: "bytes \<Rightarrow> u64 \<Rightarrow> u64 \<Rightarrow> nat \<Rightarrow> u8 list" where
  "uprefix m pt va 0 = []"
| "uprefix m pt va (Suc n) =
     (case ubyte 0 m pt va of None \<Rightarrow> [] | Some b \<Rightarrow> b # uprefix m pt (va + 1) n)"

lemma uprefix_append:
  assumes "\<And>i. i < n \<Longrightarrow> ubyte 0 m pt (va + of_nat i) = Some (f i)"
  shows "uprefix m pt va (n + k) = map f [0..<n] @ uprefix m pt (va + of_nat n) k"
  using assms
proof (induction n arbitrary: va f)
  case 0
  then show ?case by simp
next
  case (Suc n)
  have "uprefix m pt (va + 1) (n + k) = map (\<lambda>i. f (Suc i)) [0..<n] @ uprefix m pt (va + 1 + of_nat n) k"
    by (rule Suc.IH) (use Suc.prems [of "Suc _"] in \<open>simp add: ac_simps\<close>)
  moreover have "ubyte 0 m pt va = Some (f 0)"
    using Suc.prems [of 0] by simp
  ultimately show ?case
    by (simp add: map_upt_Suc ac_simps del: upt_Suc)
qed

lemma all_less_Suc_split: "(\<forall>i. i < Suc n \<longrightarrow> P i) \<longleftrightarrow> P 0 \<and> (\<forall>i. i < n \<longrightarrow> P (Suc i))"
  using less_Suc_eq_0_disj by auto

lemma uprefix_nth:
  "i < length (uprefix m pt va n) \<Longrightarrow>
    ubyte 0 m pt (va + of_nat i) = Some (uprefix m pt va n ! i)"
proof (induction n arbitrary: va i)
  case (Suc n)
  show ?case
  proof (cases i)
    case 0
    then show ?thesis using Suc.prems by (simp split: option.splits)
  next
    case (Suc j)
    then show ?thesis
      using Suc.prems Suc.IH [of j "va + 1"] by (simp add: ac_simps split: option.splits)
  qed
qed simp

lemma uprefix_full:
  "length (uprefix m pt va n) = n \<longleftrightarrow> (\<forall>i. i < n \<longrightarrow> ubyte 0 m pt (va + of_nat i) \<noteq> None)"
proof (induction n arbitrary: va)
  case (Suc n)
  have "(\<forall>i. i < Suc n \<longrightarrow> ubyte 0 m pt (va + of_nat i) \<noteq> None) \<longleftrightarrow>
      ubyte 0 m pt va \<noteq> None \<and> (\<forall>i. i < n \<longrightarrow> ubyte 0 m pt (va + 1 + of_nat i) \<noteq> None)"
    unfolding all_less_Suc_split by (simp add: ac_simps)
  then show ?case
    using Suc.IH [of "va + 1"] by (auto split: option.splits)
qed simp

lemma walkaddr_xlate:
  assumes "uvm_ok (mem s) pt"
  shows "walkaddr pt va s = Ok (case xlate (mem s) pt va of None \<Rightarrow> 0
    | Some e \<Rightarrow> if e AND PTE_U \<noteq> 0 then PTE2PA e else 0) s"
proof (cases "va < MAXVA")
  case False
  then show ?thesis by (simp add: walkaddr_def xlate_def) (simp add: not_less)
next
  case True
  have wf: "pt_wf (mem s) 2 pt" and nz: "0 \<notin> pt_pages (mem s) 2 pt"
    using assms by (simp_all add: uvm_ok_def)
  have a0: "a \<noteq> 0" if sl: "leaf_slot (mem s) 2 pt va = Some a" for a
  proof
    assume "a = 0"
    moreover obtain q where "q \<in> pt_pages (mem s) 2 pt" "unat a = unat q + 8 * px 0 va"
      by (rule leaf_slot_page [OF wf sl])
    ultimately show False using nz by (simp add: unat_eq_0)
  qed
  show ?thesis
    using True walk_noalloc [OF wf True] leaf_at_slot [OF wf, of va] a0
    by (auto simp: walkaddr_def xlate_def valid_def Let_def not_less [symmetric]
        split: option.splits if_splits)
qed

lemma copyin_uprefix:
  assumes ok: "uvm_ok (mem s) pt"
  shows "copyin pt va len s = Ok (if length (uprefix (mem s) pt va len) = len then 0 else -1,
    uprefix (mem s) pt va len) s"
proof (induction len arbitrary: va rule: less_induct)
  case (less len)
  show ?case
  proof (cases "len = 0")
    case True
    then show ?thesis by (simp add: copyin.simps)
  next
    case False
    let ?off = "unat va mod 4096" and ?va0 = "PGROUNDDOWN va"
    define n where "n = min (4096 - ?off) len"
    have n: "n \<noteq> 0" "n \<le> len" "n \<le> 4096 - ?off"
      using False mod_less_divisor [of 4096 "unat va"] by (simp_all add: n_def)
    have cn: "min (unat (PGSIZE - (va - ?va0))) len = n"
      unfolding n_def page_room ..
    show ?thesis
    proof (cases "\<exists>e. xlate (mem s) pt ?va0 = Some e \<and> e AND PTE_U \<noteq> 0")
      case False
      then have "ubyte 0 (mem s) pt va = None"
        using ubyte_page [of 0 va 0 "mem s" pt] n by (auto split: option.splits)
      then have "uprefix (mem s) pt va len = []"
        using \<open>len \<noteq> 0\<close> by (cases len) simp_all
      moreover have "walkaddr pt ?va0 s = Ok 0 s"
        using False walkaddr_xlate [OF ok] by (auto split: option.splits)
      ultimately show ?thesis
        using \<open>len \<noteq> 0\<close> by (subst copyin.simps) (simp add: Let_def)
    next
      case True
      then obtain e where e: "xlate (mem s) pt ?va0 = Some e" "e AND PTE_U \<noteq> 0" by blast
      then have pa: "PTE2PA e \<noteq> 0" "walkaddr pt ?va0 s = Ok (PTE2PA e) s"
        using ok walkaddr_xlate [OF ok] by (auto simp: uvm_ok_def)
      let ?a = "unat (PTE2PA e + (va - ?va0))"
      have "uprefix (mem s) pt va (n + (len - n)) =
          map (\<lambda>i. mem s (?a + i)) [0..<n] @ uprefix (mem s) pt (va + of_nat n) (len - n)"
        by (rule uprefix_append) (use ubyte_page [of _ va 0 "mem s" pt] n e in simp)
      moreover have "uprefix (mem s) pt (va + of_nat n) (len - n) =
          uprefix (mem s) pt (?va0 + PGSIZE) (len - n)"
      proof (cases "len - n = 0")
        case False
        then have "n = 4096 - ?off" by (simp add: n_def)
        then show ?thesis by (simp only: next_page)
      qed simp
      ultimately have up: "uprefix (mem s) pt va len =
          read_bytes (mem s) ?a n @ uprefix (mem s) pt (?va0 + PGSIZE) (len - n)"
        using n by (simp add: read_bytes_def)
      have ih: "copyin pt (?va0 + PGSIZE) (len - n) s =
          Ok (if length (uprefix (mem s) pt (?va0 + PGSIZE) (len - n)) = len - n then 0 else -1,
            uprefix (mem s) pt (?va0 + PGSIZE) (len - n)) s"
        by (rule less.IH) (use n in simp)
      have "length (uprefix (mem s) pt va len) = len \<longleftrightarrow>
          length (uprefix (mem s) pt (?va0 + PGSIZE) (len - n)) = len - n"
        unfolding up using n by auto
      then show ?thesis
        using \<open>len \<noteq> 0\<close> pa
        by (subst copyin.simps) (simp add: Let_def cn ih up del: PGSIZE_def)
    qed
  qed
qed

text \<open>A machine with an empty root table, two free pages, and one page for data.\<close>

definition vm_example :: kmem_state where
  "vm_example = \<lparr>held = {}, cur = None, mem = store64 (\<lambda>_. 0) 0x87ffe000 0x87fff000,
     freelist = 0x87ffe000, kend = 0x80021000\<rparr>"

definition vm_example_pages :: "u64 set" where
  "vm_example_pages = {q. page_ok vm_example q}"

lemma vm_example_zero: "in_page 0x87ffd000 x \<Longrightarrow> mem vm_example x = 0"
  by (simp add: vm_example_def in_page_def)

lemma vm_example_own: "pt_own vm_example_pages 2 0x87ffd000 [0x87ffe000, 0x87fff000] vm_example"
proof -
  have "load64 (mem vm_example) 0x87fff000 = 0"
    by (rule load64_zero) (simp add: vm_example_def)
  then have "kmem_inv vm_example [0x87ffe000, 0x87fff000]"
    by (simp add: kmem_inv_def page_ok_def) (simp add: vm_example_def)
  moreover have "page_ok vm_example 0x87ffd000"
    by (simp add: page_ok_def vm_example_def)
  moreover have "LkKmem \<notin> held vm_example"
    by (simp add: vm_example_def)
  ultimately show ?thesis
    using pt_zero(1,2) [of "0x87ffd000" "mem vm_example" 2, OF _ vm_example_zero]
    by (simp add: pt_own_def kpages_def vm_example_pages_def)
qed

lemma vm_example_xlate: "xlate (mem vm_example) 0x87ffd000 va = None"
  using pt_zero(3) [of "0x87ffd000" "mem vm_example", OF _ vm_example_zero] by (simp add: xlate_def)

lemma pt_chain:
  assumes "p mod PGSIZE = 0" and "i < 512" and "valid (ent m p i)"
    and "\<And>j. j < 512 \<Longrightarrow> j \<noteq> i \<Longrightarrow> \<not> valid (ent m p j)"
    and "pt_wf m l (PTE2PA (ent m p i))" and "p \<notin> pt_pages m l (PTE2PA (ent m p i))"
  shows "pt_wf m (Suc l) p" "pt_pages m (Suc l) p = insert p (pt_pages m l (PTE2PA (ent m p i)))"
proof -
  have "{j. j < 512 \<and> valid (ent m p j)} = {i}"
    using assms(2-4) by auto
  then show "pt_pages m (Suc l) p = insert p (pt_pages m l (PTE2PA (ent m p i)))"
    by (simp add: pt_pages.simps)
  show "pt_wf m (Suc l) p"
    using assms by (auto simp: pt_wf.simps)
qed

definition set_ent :: "bytes \<Rightarrow> u64 \<Rightarrow> nat \<Rightarrow> u64 \<Rightarrow> bytes" where
  "set_ent m p i e = store64 m (unat p + 8 * i) e"

lemma set_ent_outside:
  assumes "q mod PGSIZE = 0" "i < 512"
  shows "same_outside {q} m (set_ent m q i e)"
  using same_outside_store [OF slot_unat [OF assms] assms(2), of m e]
  unfolding set_ent_def slot_unat [OF assms] .

lemma ent_set_ent:
  assumes "p mod PGSIZE = 0" "q mod PGSIZE = 0" "i < 512" "j < 512"
  shows "ent (set_ent m q i e) p j = (if p = q \<and> i = j then e else ent m p j)"
proof (cases "p = q")
  case True
  then show ?thesis by (simp add: set_ent_def ent_store)
next
  case False
  have "set_ent m q i e x = m x" if "in_page p x" for x
    using same_outside_page [OF set_ent_outside [OF assms(2,3)] _ assms(1) _ that] assms(2) False
    by simp
  then show ?thesis
    using False ent_cong [OF _ assms(4), of p "set_ent m q i e" m] by simp
qed

text \<open>A machine with the page 0x87ffc000 mapped at virtual page 1 and no free page.\<close>

definition vm_mapped :: kmem_state where
  "vm_mapped = \<lparr>held = {}, cur = None,
     mem = set_ent (set_ent (set_ent (\<lambda>_. 0)
       0x87ffd000 0 (PA2PTE 0x87ffe000 OR PTE_V))
       0x87ffe000 0 (PA2PTE 0x87fff000 OR PTE_V))
       0x87fff000 1 (PA2PTE 0x87ffc000 OR (PTE_R OR PTE_W OR PTE_U OR PTE_V)),
     freelist = 0, kend = 0x80021000\<rparr>"

lemma ent_zero: "ent (\<lambda>_. 0) p i = 0"
  by (simp add: ent_def load64_zero)

lemma vm_mapped_ents:
  "i < 512 \<Longrightarrow> ent (mem vm_mapped) 0x87ffd000 i = (if i = 0 then PA2PTE 0x87ffe000 OR PTE_V else 0)"
  "i < 512 \<Longrightarrow> ent (mem vm_mapped) 0x87ffe000 i = (if i = 0 then PA2PTE 0x87fff000 OR PTE_V else 0)"
  "i < 512 \<Longrightarrow> ent (mem vm_mapped) 0x87fff000 i =
    (if i = 1 then PA2PTE 0x87ffc000 OR (PTE_R OR PTE_W OR PTE_U OR PTE_V) else 0)"
  by (simp_all add: vm_mapped_def ent_set_ent ent_zero)

lemma vm_mapped_child:
  "PTE2PA (PA2PTE 0x87ffe000 OR PTE_V) = 0x87ffe000" "PTE2PA (PA2PTE 0x87fff000 OR PTE_V) = 0x87fff000"
  "PTE2PA (PA2PTE 0x87ffc000 OR (PTE_R OR PTE_W OR PTE_U OR PTE_V)) = 0x87ffc000"
  by (simp_all add: PTE2PA_def PA2PTE_def pte_bits)

lemma vm_mapped_pt: "pt_wf (mem vm_mapped) 2 0x87ffd000"
  "pt_pages (mem vm_mapped) 2 0x87ffd000 = {0x87ffd000, 0x87ffe000, 0x87fff000}"
proof -
  let ?m = "mem vm_mapped"
  have l1: "pt_wf ?m (Suc 0) 0x87ffe000" "pt_pages ?m (Suc 0) 0x87ffe000 = {0x87ffe000, 0x87fff000}"
    using pt_chain [of "0x87ffe000" 0 ?m 0] by (simp_all add: vm_mapped_ents vm_mapped_child)
  have "pt_wf ?m (Suc (Suc 0)) 0x87ffd000"
    "pt_pages ?m (Suc (Suc 0)) 0x87ffd000 = {0x87ffd000, 0x87ffe000, 0x87fff000}"
    using pt_chain [of "0x87ffd000" 0 ?m "Suc 0"] l1 by (simp_all add: vm_mapped_ents vm_mapped_child)
  then show "pt_wf ?m 2 0x87ffd000" "pt_pages ?m 2 0x87ffd000 = {0x87ffd000, 0x87ffe000, 0x87fff000}"
    by (simp_all add: numeral_2_eq_2)
qed

lemma same_idx_2: "same_idx 2 va w \<longleftrightarrow> px 0 va = px 0 w \<and> px 1 va = px 1 w \<and> px 2 va = px 2 w"
  by (auto simp: same_idx_def numeral_2_eq_2 le_Suc_eq)

lemma vm_mapped_xlate:
  "xlate (mem vm_mapped) 0x87ffd000 va = (if vpn va = 1
     then Some (PA2PTE 0x87ffc000 OR (PTE_R OR PTE_W OR PTE_U OR PTE_V)) else None)"
proof -
  have v1: "vpn 0x1000 = 1" by (simp add: vpn_def)
  then have ix: "px 0 0x1000 = 1" "px 1 0x1000 = 0" "px 2 0x1000 = 0" "vpn 0x1000 = 1"
    by (simp_all add: px_vpn)
  have v: "valid (PA2PTE 0x87ffc000 OR (PTE_R OR PTE_W OR PTE_U OR PTE_V))"
    by (simp add: valid_def PA2PTE_def pte_bits)
  have "leaf (mem vm_mapped) 2 0x87ffd000 va =
      (if px 2 va = 0 \<and> px 1 va = 0 \<and> px 0 va = 1
       then Some (PA2PTE 0x87ffc000 OR (PTE_R OR PTE_W OR PTE_U OR PTE_V)) else None)"
    using v by (simp add: numeral_2_eq_2 vm_mapped_ents vm_mapped_child px_less)
  moreover have "va < MAXVA \<Longrightarrow> px 2 va = 0 \<and> px 1 va = 0 \<and> px 0 va = 1 \<longleftrightarrow> vpn va = 1"
    using same_idx_vpn [of va "0x1000"] ix by (auto simp: same_idx_2)
  moreover have "vpn va = 1 \<Longrightarrow> va < MAXVA"
    unfolding vpn_MAXVA by simp
  ultimately show ?thesis
    by (auto simp: xlate_def)
qed

lemma vm_mapped_own: "pt_own vm_example_pages 2 0x87ffd000 [] vm_mapped"
proof -
  have "page_ok vm_mapped = page_ok vm_example"
    by (simp add: page_ok_def fun_eq_iff vm_mapped_def vm_example_def)
  moreover have "kmem_inv vm_mapped []" "LkKmem \<notin> held vm_mapped"
    by (simp_all add: kmem_inv_def vm_mapped_def)
  ultimately show ?thesis
    using vm_mapped_pt by (simp add: pt_own_def kpages_def vm_example_pages_def)
      (simp add: page_ok_def vm_example_def)
qed

lemma vm_mapped_unmappable:
  "unmappable vm_example_pages 0x87ffd000 [] True 0x1000 1 (mem vm_mapped)"
proof -
  have v: "vpn 0x1000 = 1" by (simp add: vpn_def)
  have ph: "phys (mem vm_mapped) 0x87ffd000 0x1000 0 = 0x87ffc000"
    by (simp add: phys_def vm_mapped_xlate v vm_mapped_child)
  have "0x87ffc000 \<in> vm_example_pages"
    by (simp add: vm_example_pages_def page_ok_def vm_example_def)
  with v ph show ?thesis
    by (simp add: unmappable_def vm_mapped_xlate vm_mapped_pt lessThan_Suc)
      (simp add: PTE_FLAGS_def PA2PTE_def pte_bits)
qed

section \<open>Properties\<close>

text \<open>
  C5: \<open>mappages\<close> maps the whole range page by page to consecutive physical pages with the given
  permissions and returns 0, or runs out of memory after a prefix and returns -1; every other
  translation, and all memory but the table pages and the free pages, stays as it was.
\<close>

theorem mappages_correct:
  assumes "pt_own U 2 pt xs s" and "va mod PGSIZE = 0" and "0 < n" and "vpn va + n \<le> 2 ^ 26"
    and "\<forall>a. vpn va \<le> vpn a \<and> vpn a < vpn va + n \<longrightarrow> xlate (mem s) pt a = None"
  shows "ensures (mappages pt va (of_nat n * PGSIZE) pa perm s) (\<lambda>r t. \<exists>ys j.
    pt_own U 2 pt ys t \<and> xlate (mem t) pt = mapped (xlate (mem s) pt) (vpn va) j pa perm \<and>
    (if r = 0 then j = n else r = -1 \<and> j < n \<and> ys = []) \<and>
    pt_pages (mem t) 2 pt \<union> set ys = pt_pages (mem s) 2 pt \<union> set xs \<and>
    same_outside (pt_pages (mem s) 2 pt \<union> set xs) (mem s) (mem t))"
proof -
  obtain k where k: "n = Suc k" using assms(3) by (cases n) simp_all
  have u: "unat (of_nat n * PGSIZE :: u64) = n * 4096"
    using assms(4) by (simp add: unat_word_ariths unat_of_nat)
  have "of_nat n * PGSIZE mod PGSIZE = (0 :: u64)"
    unfolding aligned_unat u by simp
  moreover have "of_nat n * PGSIZE \<noteq> (0 :: u64)"
    using assms(3) u unfolding word_unat_eq_iff by simp
  moreover have "va + of_nat n * PGSIZE - PGSIZE = va + of_nat k * PGSIZE"
    by (simp add: k algebra_simps)
  ultimately have eq: "mappages pt va (of_nat n * PGSIZE) pa perm s =
      mappages_loop pt va (va + of_nat k * PGSIZE) pa perm s"
    by (simp only: mappages_def assms(2) if_False simp_thms)
  have "ensures (mappages_loop pt va (va + of_nat k * PGSIZE) pa perm s) (\<lambda>r t. \<exists>ys j.
      pt_grow U 2 pt xs s ys t \<and> xlate (mem t) pt = mapped (xlate (mem s) pt) (vpn va) j pa perm \<and>
      (if r = 0 then j = Suc k else r = -1 \<and> j \<le> k \<and> ys = []))"
    by (rule mappages_loop_ensures [OF assms(1)]) (use assms(4,5) k in auto)
  then show ?thesis
    unfolding eq
  proof (rule ensures_mono, elim exE conjE)
    fix r t ys j
    assume "pt_grow U 2 pt xs s ys t" "xlate (mem t) pt = mapped (xlate (mem s) pt) (vpn va) j pa perm"
      "if r = 0 then j = Suc k else r = -1 \<and> j \<le> k \<and> ys = []"
    then show "\<exists>ys j. pt_own U 2 pt ys t \<and>
      xlate (mem t) pt = mapped (xlate (mem s) pt) (vpn va) j pa perm \<and>
      (if r = 0 then j = n else r = -1 \<and> j < n \<and> ys = []) \<and>
      pt_pages (mem t) 2 pt \<union> set ys = pt_pages (mem s) 2 pt \<union> set xs \<and>
      same_outside (pt_pages (mem s) 2 pt \<union> set xs) (mem s) (mem t)"
      unfolding pt_grow_def k by (intro exI [where x = ys] exI [where x = j]) auto
  qed
qed

theorem mappages_correct_witness:
  "ensures (mappages 0x87ffd000 0x1000 (of_nat 1 * PGSIZE) 0x87ffc000 (PTE_R OR PTE_U) vm_example)
     (\<lambda>r t. r = 0 \<longrightarrow> xlate (mem t) 0x87ffd000 0x1234 =
        Some (PA2PTE 0x87ffc000 OR (PTE_R OR PTE_U) OR PTE_V))"
proof -
  have "vpn 0x1000 = 1" "vpn 0x1234 = 1" by (simp_all add: vpn_def)
  then show ?thesis
    using mappages_correct [OF vm_example_own, of "0x1000" 1 "0x87ffc000" "PTE_R OR PTE_U"]
      vm_example_xlate
    by (auto simp: mapped_def elim!: ensures_mono)
qed

text \<open>
  C23: \<open>uvmunmap\<close> of mapped leaf pages never panics: it removes exactly these translations, keeps
  the tables, and with \<open>do_free\<close> puts the physical pages on the free list, the last page first.
\<close>

theorem uvmunmap_correct:
  assumes "pt_own U 2 pt xs s" and "va mod PGSIZE = 0" and "unmappable U pt xs do_free va k (mem s)"
  shows "ensures (uvmunmap pt va (of_nat k) do_free s) (\<lambda>_ t.
    pt_own U 2 pt (freed do_free (mem s) pt va k @ xs) t \<and>
    xlate (mem t) pt =
      (\<lambda>a. if vpn va \<le> vpn a \<and> vpn a < vpn va + k then None else xlate (mem s) pt a) \<and>
    same_outside (pt_pages (mem s) 2 pt \<union> set (freed do_free (mem s) pt va k)) (mem s) (mem t))"
  using assms(2) unfolding uvmunmap_def
  by simp (rule ensures_mono [OF uvmunmap_loop_ensures [OF assms(1,3), simplified]], auto)

theorem uvmunmap_correct_witness:
  "ensures (uvmunmap 0x87ffd000 0x1000 (of_nat 1) True vm_mapped)
     (\<lambda>_ t. kmem_inv t [0x87ffc000] \<and> xlate (mem t) 0x87ffd000 0x1000 = None)"
proof -
  have v: "vpn 0x1000 = 1" by (simp add: vpn_def)
  have "freed True (mem vm_mapped) 0x87ffd000 0x1000 1 = [0x87ffc000]"
    by (simp add: freed_def phys_def vm_mapped_xlate v vm_mapped_child)
  then show ?thesis
    using uvmunmap_correct [OF vm_mapped_own _ vm_mapped_unmappable] v
    by (auto simp: pt_own_def kpages_def elim!: ensures_mono)
qed

text \<open>
  C21: \<open>copyin\<close> never changes the kernel state; it returns 0 and the \<open>len\<close> bytes of user memory at
  \<open>srcva\<close> when all of them are mapped for the user, across page boundaries, and otherwise -1
  with the readable bytes before the first one that is not.
\<close>

theorem copyin_correct:
  assumes "uvm_ok (mem s) pt"
  shows "copyin pt srcva len s =
    Ok (if \<forall>i. i < len \<longrightarrow> ubyte 0 (mem s) pt (srcva + of_nat i) \<noteq> None then 0 else -1,
        uprefix (mem s) pt srcva len) s \<and>
    (\<forall>i. i < length (uprefix (mem s) pt srcva len) \<longrightarrow>
      ubyte 0 (mem s) pt (srcva + of_nat i) = Some (uprefix (mem s) pt srcva len ! i))"
  using copyin_uprefix [OF assms] uprefix_nth uprefix_full [of "mem s" pt srcva len] by simp

lemma vm_mapped_uvm_ok: "uvm_ok (mem vm_mapped) 0x87ffd000"
  by (auto simp: uvm_ok_def vm_mapped_pt vm_mapped_xlate vm_mapped_child split: if_splits)

lemma vm_mapped_ubyte:
  "ubyte 0 (mem vm_mapped) 0x87ffd000 0x1ffe = Some 0" "ubyte 0 (mem vm_mapped) 0x87ffd000 0x1fff = Some 0"
  "ubyte need (mem vm_mapped) 0x87ffd000 0x2000 = None"
proof -
  have v: "vpn 0x1ffe = 1" "vpn 0x1fff = 1" "vpn 0x2000 = 2" by (simp_all add: vpn_def)
  have z: "mem vm_mapped x = 0" if "x < 0x87ffd000" for x
    using that by (simp add: vm_mapped_def set_ent_def)
  have U: "(PA2PTE 0x87ffc000 OR (PTE_R OR PTE_W OR PTE_U OR PTE_V)) AND PTE_U \<noteq> 0"
    by (simp add: PA2PTE_def pte_bits)
  show "ubyte 0 (mem vm_mapped) 0x87ffd000 0x1ffe = Some 0"
    "ubyte 0 (mem vm_mapped) 0x87ffd000 0x1fff = Some 0"
    "ubyte need (mem vm_mapped) 0x87ffd000 0x2000 = None"
    using U by (simp_all add: ubyte_def vm_mapped_xlate v vm_mapped_child z)
qed

lemma vm_mapped_uprefix: "uprefix (mem vm_mapped) 0x87ffd000 0x1ffe 3 = [0, 0]"
  by (simp add: numeral_3_eq_3 vm_mapped_ubyte)

theorem copyin_correct_witness:
  "copyin 0x87ffd000 0x1ffe 3 vm_mapped = Ok (-1, [0, 0]) vm_mapped"
proof -
  have "\<not> (\<forall>i. i < 3 \<longrightarrow> ubyte 0 (mem vm_mapped) 0x87ffd000 (0x1ffe + of_nat i) \<noteq> None)"
    using vm_mapped_ubyte(3) [of 0] by (auto intro!: exI [where x = 2])
  then show ?thesis
    using copyin_correct [OF vm_mapped_uvm_ok, of "0x1ffe" 3] vm_mapped_uprefix by simp
qed

text \<open>The number of bytes at \<open>va\<close>, up to \<open>n\<close>, that the user may write.\<close>

fun wlen :: "bytes \<Rightarrow> u64 \<Rightarrow> u64 \<Rightarrow> nat \<Rightarrow> nat" where
  "wlen m pt va 0 = 0"
| "wlen m pt va (Suc n) =
     (case ubyte PTE_W m pt va of None \<Rightarrow> 0 | Some b \<Rightarrow> Suc (wlen m pt (va + 1) n))"

lemma wlen_append:
  assumes "\<And>i. i < n \<Longrightarrow> ubyte PTE_W m pt (va + of_nat i) \<noteq> None"
  shows "wlen m pt va (n + k) = n + wlen m pt (va + of_nat n) k"
  using assms
proof (induction n arbitrary: va)
  case 0
  then show ?case by simp
next
  case (Suc n)
  have "wlen m pt (va + 1) (n + k) = n + wlen m pt (va + 1 + of_nat n) k"
    by (rule Suc.IH) (use Suc.prems [of "Suc _"] in \<open>simp add: ac_simps\<close>)
  moreover have "ubyte PTE_W m pt va \<noteq> None"
    using Suc.prems [of 0] by simp
  ultimately show ?case
    by (auto simp: ac_simps)
qed

lemma wlen_full:
  "wlen m pt va n = n \<longleftrightarrow> (\<forall>i. i < n \<longrightarrow> ubyte PTE_W m pt (va + of_nat i) \<noteq> None)"
proof (induction n arbitrary: va)
  case (Suc n)
  have "(\<forall>i. i < Suc n \<longrightarrow> ubyte PTE_W m pt (va + of_nat i) \<noteq> None) \<longleftrightarrow>
      ubyte PTE_W m pt va \<noteq> None \<and> (\<forall>i. i < n \<longrightarrow> ubyte PTE_W m pt (va + 1 + of_nat i) \<noteq> None)"
    unfolding all_less_Suc_split by (simp add: ac_simps)
  then show ?case
    using Suc.IH [of "va + 1"] by (auto split: option.splits)
qed simp

lemma wlen_le: "wlen m pt va n \<le> n"
  by (induction n arbitrary: va) (auto split: option.splits)

lemma and_W: "e AND PTE_W = PTE_W \<longleftrightarrow> e AND PTE_W \<noteq> 0"
proof -
  have "e AND PTE_W = (if bit e 2 then PTE_W else 0)"
  proof (rule bit_word_eqI)
    fix n
    have "bit PTE_W n \<longleftrightarrow> n = 2"
      using bit_exp_iff [of 2 n, where ?'a = u64] unfolding PTE_W_def by auto
    then show "bit (e AND PTE_W) n = bit (if bit e 2 then PTE_W else 0) n"
      by (auto simp: bit_and_iff)
  qed
  then show ?thesis by (simp add: PTE_W_def)
qed

lemma in_chunk:
  assumes "n \<le> 4096 - unat va mod 4096"
  shows "unat (va' - va) < n \<longleftrightarrow> vpn va' = vpn va \<and> unat va mod 4096 \<le> unat va' mod 4096 \<and>
    unat va' mod 4096 < unat va mod 4096 + n" (is "?l \<longleftrightarrow> ?r")
    "unat (va' - va) < n \<Longrightarrow> unat (va' - va) = unat va' mod 4096 - unat va mod 4096"
proof -
  have 1: "?r" if l: "?l"
  proof -
    have i: "unat (va' - va) < 4096 - unat va mod 4096" using l assms by simp
    show ?thesis using in_same_page [OF i] l by simp
  qed
  have 2: "unat (va' - va) = unat va' mod 4096 - unat va mod 4096" if r: "?r"
  proof -
    have d: "unat va' = 4096 * vpn va' + unat va' mod 4096" "unat va = 4096 * vpn va + unat va mod 4096"
      by (simp_all add: vpn_def)
    have "unat va \<le> unat va'" using r d by linarith
    then have "unat (va' - va) = unat va' - unat va"
      by (simp add: unat_sub word_le_nat_alt)
    then show ?thesis using r d by linarith
  qed
  show "?l \<Longrightarrow> unat (va' - va) = unat va' mod 4096 - unat va mod 4096" using 1 2 by blast
  show "?l \<longleftrightarrow> ?r"
  proof
    assume r: "?r"
    show "?l" using 2 [OF r] r by linarith
  qed (rule 1)
qed

lemma uaddr_page:
  assumes "xlate m pt va = Some e" and "e AND PTE_U \<noteq> 0" and "i < 4096 - unat va mod 4096"
  shows "uaddr m pt (va + of_nat i) = Some (unat (PTE2PA e) + unat va mod 4096 + i)"
  using in_same_page [OF assms(3)] xlate_vpn [OF in_same_page(2) [OF assms(3)], of m pt] assms(1,2)
  by (simp add: uaddr_def)

text \<open>Storing inside one user page: the tables stay, and the user sees exactly these bytes change.\<close>

lemma user_store:
  assumes ok: "uvm_ok m pt" and e: "xlate m pt va = Some e" "e AND PTE_U \<noteq> 0"
    and n: "length bs \<le> 4096 - unat va mod 4096"
  defines "m' \<equiv> write_bytes m (unat (PTE2PA e) + unat va mod 4096) bs"
  shows "uvm_ok m' pt" "xlate m' pt = xlate m pt"
    "ubyte need m' pt va' = (if unat (va' - va) < length bs \<and> ubyte need m pt va' \<noteq> None
       then Some (bs ! unat (va' - va)) else ubyte need m pt va')"
    "(\<And>i. i < length bs \<Longrightarrow> uaddr m pt (va + of_nat i) \<noteq> Some x) \<Longrightarrow> m' x = m x"
proof -
  show "m' x = m x" if h: "\<And>i. i < length bs \<Longrightarrow> uaddr m pt (va + of_nat i) \<noteq> Some x"
  proof -
    have "x \<noteq> unat (PTE2PA e) + unat va mod 4096 + i" if i: "i < length bs" for i
      using h [OF i] uaddr_page [OF e, of i] i n by auto
    then show ?thesis
      unfolding m'_def by (intro write_bytes_outside) (metis le_add_diff_inverse nat_add_left_cancel_less not_le)
  qed
  have wf: "pt_wf m 2 pt" and out: "PTE2PA e \<notin> pt_pages m 2 pt"
    using ok e unfolding uvm_ok_def by blast+
  have al: "PTE2PA e' mod PGSIZE = 0" for e' by (rule PTE2PA_aligned)
  have so: "same_outside {PTE2PA e} m m'"
    using n by (auto simp: same_outside_def in_page_def m'_def intro!: write_bytes_outside)
  have "\<forall>q \<in> pt_pages m 2 pt. \<forall>x. in_page q x \<longrightarrow> m' x = m x"
  proof (intro ballI allI impI)
    fix q x assume q: "q \<in> pt_pages m 2 pt" "in_page q x"
    show "m' x = m x"
      using pt_pages_aligned [OF wf q(1)] q(1) out al
      by (intro same_outside_page [OF so _ _ _ q(2)]) auto
  qed
  note pc = pt_cong [OF this]
  show xl: "xlate m' pt = xlate m pt"
    using pc by (simp add: xlate_def fun_eq_iff)
  have pw: "pt_pages m' 2 pt = pt_pages m 2 pt" "pt_wf m' 2 pt = pt_wf m 2 pt"
    using pc by blast+
  show "uvm_ok m' pt"
    using ok unfolding uvm_ok_def xl pw .
  show "ubyte need m' pt va' = (if unat (va' - va) < length bs \<and> ubyte need m pt va' \<noteq> None
       then Some (bs ! unat (va' - va)) else ubyte need m pt va')"
  proof (cases "ubyte need m pt va' = None")
    case True
    then show ?thesis by (auto simp: ubyte_def xl split: option.splits if_splits)
  next
    case False
    then obtain e' where e': "xlate m pt va' = Some e'" "e' AND PTE_U \<noteq> 0" "e' AND need = need"
      by (auto simp: ubyte_def split: option.splits if_splits)
    let ?a = "unat (PTE2PA e) + unat va mod 4096" and ?a' = "unat (PTE2PA e') + unat va' mod 4096"
    have u: "ubyte need m'' pt va' = Some (m'' ?a')" if "xlate m'' pt = xlate m pt" for m''
      using that e' by (simp add: ubyte_def)
    note ch = in_chunk [OF n, of va']
    show ?thesis
    proof (cases "vpn va' = vpn va")
      case True
      then have "e' = e" using xlate_vpn [of va' va m pt] e e' by simp
      then show ?thesis
        using u [OF xl] u [OF refl] ch True by (auto simp: m'_def write_bytes_def)
    next
      case ne: False
      then have "PTE2PA e' \<noteq> PTE2PA e"
        using ok e e' unfolding uvm_ok_def by blast
      then have "m' ?a' = m ?a'"
        using al by (intro same_outside_page [OF so, of "PTE2PA e'"]) (auto simp: in_page_def)
      then show ?thesis
        using u [OF xl] u [OF refl] ch ne by simp
    qed
  qed
qed

text \<open>
  The user sees \<open>m'\<close> as \<open>m\<close> with the first \<open>n\<close> bytes of \<open>src\<close> stored at \<open>va\<close>, and no byte of physical memory
  has changed but those behind these \<open>n\<close> addresses.
\<close>

definition stored :: "bytes \<Rightarrow> bytes \<Rightarrow> u64 \<Rightarrow> u64 \<Rightarrow> u8 list \<Rightarrow> nat \<Rightarrow> bool" where
  "stored m m' pt va src n \<longleftrightarrow> uvm_ok m' pt \<and> xlate m' pt = xlate m pt \<and>
     (\<forall>need va'. ubyte need m' pt va' =
        (if unat (va' - va) < n \<and> ubyte need m pt va' \<noteq> None
         then Some (src ! unat (va' - va)) else ubyte need m pt va')) \<and>
     (\<forall>x. (\<forall>i<n. uaddr m pt (va + of_nat i) \<noteq> Some x) \<longrightarrow> m' x = m x)"

lemma stored_0 [simp]: "uvm_ok m pt \<Longrightarrow> stored m m pt va src 0"
  by (simp add: stored_def)

lemma stored_frame:
  "stored m m' pt va src n \<Longrightarrow> (\<And>i. i < n \<Longrightarrow> uaddr m pt (va + of_nat i) \<noteq> Some x) \<Longrightarrow> m' x = m x"
  by (simp add: stored_def)

lemma stored_frame_trans:
  assumes "stored m m1 pt va src1 n1" and "stored m1 m2 pt (va + of_nat n1) src2 n2"
    and x: "\<And>i. i < n1 + n2 \<Longrightarrow> uaddr m pt (va + of_nat i) \<noteq> Some x"
  shows "m2 x = m x"
proof -
  have "xlate m1 pt = xlate m pt" using assms(1) by (simp add: stored_def)
  then have "uaddr m1 pt (va + of_nat n1 + of_nat j) \<noteq> Some x" if "j < n2" for j
    using x [of "n1 + j"] that by (simp add: uaddr_def ac_simps)
  with stored_frame [OF assms(2)] have "m2 x = m1 x" by blast
  with stored_frame [OF assms(1)] x show ?thesis by simp
qed

lemma stored_trans:
  assumes "stored m m1 pt va (take n1 src) n1" and "stored m1 m2 pt (va + of_nat n1) (drop n1 src) n2"
    and "n1 + n2 \<le> length src" and "length src < 2 ^ 64"
  shows "stored m m2 pt va src (n1 + n2)"
proof -
  have "ubyte need m2 pt va' = (if unat (va' - va) < n1 + n2 \<and> ubyte need m pt va' \<noteq> None
      then Some (src ! unat (va' - va)) else ubyte need m pt va')" for need va'
  proof -
    let ?d = "unat (va' - va)" and ?d2 = "unat (va' - (va + of_nat n1))"
    have u1: "ubyte need m1 pt va' = (if ?d < n1 \<and> ubyte need m pt va' \<noteq> None
        then Some (src ! ?d) else ubyte need m pt va')"
      using assms(1) by (simp add: stored_def)
    have u2: "ubyte need m2 pt va' = (if ?d2 < n2 \<and> ubyte need m1 pt va' \<noteq> None
        then Some (drop n1 src ! ?d2) else ubyte need m1 pt va')"
      using assms(2) by (simp add: stored_def)
    have n1: "unat (of_nat n1 :: u64) = n1"
      using assms(3,4) by (simp add: unat_of_nat)
    have eq: "va' - (va + of_nat n1) = (va' - va) - of_nat n1" by simp
    show ?thesis
    proof (cases "n1 \<le> ?d")
      case True
      then have "?d2 = ?d - n1"
        unfolding eq by (subst unat_sub) (simp_all add: word_le_nat_alt n1)
      then show ?thesis using u1 u2 True assms(3) by (auto simp: less_diff_conv2)
    next
      case False
      then have "?d2 = 2 ^ 64 + ?d - n1"
        unfolding eq using n1 by (simp add: unat_sub_if_size word_le_nat_alt word_size)
      then have "\<not> ?d2 < n2" using assms(3,4) by linarith
      then show ?thesis using u1 u2 False by auto
    qed
  qed
  then show ?thesis
    using assms(1,2) stored_frame_trans [OF assms(1,2)] unfolding stored_def by simp
qed

lemma stored_wlen:
  assumes "stored m m' pt va src n"
  shows "wlen m' pt a j = wlen m pt a j"
proof (induction j arbitrary: a)
  case (Suc j)
  have "ubyte PTE_W m' pt a = None \<longleftrightarrow> ubyte PTE_W m pt a = None"
    using assms by (auto simp: stored_def)
  with Suc show ?case by (auto split: option.splits)
qed simp

lemma walk_uvm:
  assumes "uvm_ok (mem s) pt" and "va < MAXVA"
  obtains pte where "walk pt va False s = Ok pte s" "xlate (mem s) pt va = (if pte = 0 then None
    else if valid (load64 (mem s) (unat pte)) then Some (load64 (mem s) (unat pte)) else None)"
proof -
  have wf: "pt_wf (mem s) 2 pt" and nz: "0 \<notin> pt_pages (mem s) 2 pt"
    using assms by (simp_all add: uvm_ok_def)
  have a0: "a \<noteq> 0" if sl: "leaf_slot (mem s) 2 pt va = Some a" for a
  proof
    assume "a = 0"
    moreover obtain q where "q \<in> pt_pages (mem s) 2 pt" "unat a = unat q + 8 * px 0 va"
      by (rule leaf_slot_page [OF wf sl])
    ultimately show False using nz by (simp add: unat_eq_0)
  qed
  show thesis
    by (rule that [of "case leaf_slot (mem s) 2 pt va of None \<Rightarrow> 0 | Some a \<Rightarrow> a"])
      (use walk_noalloc [OF wf assms(2)] leaf_at_slot [OF wf, of va] a0 assms(2) in
        \<open>auto simp: xlate_def split: option.splits\<close>)
qed

lemma copyout_page:
  fixes va :: u64
  assumes ok: "uvm_ok (mem s) pt" and src: "src \<noteq> []"
  defines "n \<equiv> min (4096 - unat va mod 4096) (length src)"
  shows "copyout pt va src s = (case xlate (mem s) pt (PGROUNDDOWN va) of None \<Rightarrow> Ok (-1) s
    | Some e \<Rightarrow> if e AND PTE_U \<noteq> 0 \<and> e AND PTE_W \<noteq> 0
        then copyout pt (PGROUNDDOWN va + PGSIZE) (drop n src)
          (s\<lparr>mem := write_bytes (mem s) (unat (PTE2PA e) + unat va mod 4096) (take n src)\<rparr>)
        else Ok (-1) s)"
proof (cases "PGROUNDDOWN va < MAXVA")
  case False
  then have "xlate (mem s) pt (PGROUNDDOWN va) = None" by (simp add: xlate_def)
  with False src show ?thesis
    by (subst copyout.simps) (simp add: Let_def not_less)
next
  case True
  obtain pte where p: "walk pt (PGROUNDDOWN va) False s = Ok pte s"
    "xlate (mem s) pt (PGROUNDDOWN va) = (if pte = 0 then None
      else if valid (load64 (mem s) (unat pte)) then Some (load64 (mem s) (unat pte)) else None)"
    by (rule walk_uvm [OF ok True])
  have r: "min (unat (PGSIZE - (va - PGROUNDDOWN va))) (length src) = n"
    unfolding n_def page_room ..
  have "\<not> MAXVA \<le> PGROUNDDOWN va"
    using True by (simp only: not_le)
  then show ?thesis
    using src
    by (subst copyout.simps) (simp add: Let_def p(1) p(2) r page_offset valid_def del: PGSIZE_def MAXVA_eq)
qed

lemma copyout_ensures:
  assumes "uvm_ok (mem s) pt" and "length src < 2 ^ 64"
  shows "ensures (copyout pt va src s) (\<lambda>r t.
    r = (if wlen (mem s) pt va (length src) = length src then 0 else -1) \<and> t = s\<lparr>mem := mem t\<rparr> \<and>
    stored (mem s) (mem t) pt va src (wlen (mem s) pt va (length src)))"
  using assms
proof (induction src arbitrary: va s rule: length_induct)
  case (1 src)
  show ?case
  proof (cases "src = []")
    case True
    then show ?thesis using "1.prems" by (simp add: copyout.simps)
  next
    case ne: False
    let ?m = "mem s" and ?off = "unat va mod 4096" and ?va0 = "PGROUNDDOWN va"
    define n where "n = min (4096 - ?off) (length src)"
    have n: "0 < n" "n \<le> length src" "n \<le> 4096 - ?off"
      using ne mod_less_divisor [of 4096 "unat va"] by (simp_all add: n_def)
    note page = copyout_page [OF "1.prems"(1) ne, of va, folded n_def]
    show ?thesis
    proof (cases "\<exists>e. xlate ?m pt ?va0 = Some e \<and> e AND PTE_U \<noteq> 0 \<and> e AND PTE_W \<noteq> 0")
      case False
      then have "ubyte PTE_W ?m pt va = None"
        using ubyte_page [of 0 va PTE_W ?m pt] n by (auto simp: and_W split: option.splits)
      then have "wlen ?m pt va (length src) = 0"
        using ne by (cases src) simp_all
      moreover have "copyout pt va src s = Ok (-1) s"
        unfolding page using False by (auto split: option.splits)
      ultimately show ?thesis using "1.prems" ne by simp
    next
      case True
      then obtain e where e: "xlate ?m pt ?va0 = Some e" "e AND PTE_U \<noteq> 0" "e AND PTE_W \<noteq> 0" by blast
      have ev: "xlate ?m pt va = Some e"
        using e(1) xlate_vpn [OF vpn_rounddown, of ?m pt va] by simp
      let ?m' = "write_bytes ?m (unat (PTE2PA e) + ?off) (take n src)"
      have lt: "length (take n src) = n" using n by simp
      have st: "stored ?m ?m' pt va (take n src) n"
        using user_store [OF "1.prems"(1) ev e(2), of "take n src"] n lt by (simp add: stored_def)
      have w: "wlen ?m pt va (n + (length src - n)) = n + wlen ?m pt (va + of_nat n) (length src - n)"
        by (rule wlen_append) (use ubyte_page [of _ va PTE_W ?m pt] n e in \<open>simp add: and_W\<close>)
      have nx: "va + of_nat n = ?va0 + PGSIZE" if "n \<noteq> length src"
      proof -
        have "n = 4096 - ?off" using that by (simp add: n_def)
        then show ?thesis by (simp only: next_page)
      qed
      have eq: "copyout pt va src s = copyout pt (?va0 + PGSIZE) (drop n src) (s\<lparr>mem := ?m'\<rparr>)"
        unfolding page using e by simp
      show ?thesis
      proof (cases "n = length src")
        case True
        then have "wlen ?m pt va (length src) = n" using w by simp
        then show ?thesis unfolding eq using True st by (simp add: copyout.simps)
      next
        case False
        let ?k = "wlen ?m' pt (?va0 + PGSIZE) (length (drop n src))"
        have ok': "uvm_ok (mem (s\<lparr>mem := ?m'\<rparr>)) pt" using st by (simp add: stored_def)
        note weq = stored_wlen [OF st]
        have wl: "wlen ?m pt va (length src) = n + ?k"
          using w n nx [OF False] weq by simp
        have le: "?k \<le> length src - n" using wlen_le [of ?m' pt "?va0 + PGSIZE" "length (drop n src)"] by simp
        have l: "length (drop n src) < length src" "length (drop n src) < 2 ^ 64"
          using n ne "1.prems"(2) by auto
        note ih = "1.IH" [rule_format, OF l(1) ok' l(2), of "?va0 + PGSIZE"]
        show ?thesis
          unfolding eq
        proof (rule ensures_mono)
          show "ensures (copyout pt (?va0 + PGSIZE) (drop n src) (s\<lparr>mem := ?m'\<rparr>)) (\<lambda>r t.
            r = (if ?k = length (drop n src) then 0 else -1) \<and>
            t = s\<lparr>mem := mem t\<rparr> \<and> stored ?m' (mem t) pt (?va0 + PGSIZE) (drop n src) ?k)"
            using ih by simp
          fix r t
          assume h: "r = (if ?k = length (drop n src) then 0 else -1) \<and>
            t = s\<lparr>mem := mem t\<rparr> \<and> stored ?m' (mem t) pt (?va0 + PGSIZE) (drop n src) ?k"
          then have "stored ?m (mem t) pt va src (n + ?k)"
            using n le "1.prems"(2) nx [OF False] by (intro stored_trans [OF st]) simp_all
          with h wl n show "r = (if wlen ?m pt va (length src) = length src then 0 else -1) \<and>
            t = s\<lparr>mem := mem t\<rparr> \<and> stored ?m (mem t) pt va src (wlen ?m pt va (length src))"
            by auto
        qed
      qed
    qed
  qed
qed

text \<open>
  C22: \<open>copyout\<close> returns 0 exactly when every byte of the destination is mapped writable for the
  user, else -1; it stores the source bytes up to the first byte that is not writable, and
  changes no other byte of physical memory: not the page tables, not other pages of the user, not the
  kernel or another process.
\<close>

theorem copyout_correct:
  assumes "uvm_ok (mem s) pt" and "length src < 2 ^ 64"
  shows "ensures (copyout pt dstva src s) (\<lambda>r t.
    r = (if \<forall>i. i < length src \<longrightarrow> ubyte PTE_W (mem s) pt (dstva + of_nat i) \<noteq> None then 0 else -1) \<and>
    t = s\<lparr>mem := mem t\<rparr> \<and>
    stored (mem s) (mem t) pt dstva src (wlen (mem s) pt dstva (length src)))"
  using copyout_ensures [OF assms, of dstva] unfolding wlen_full .

lemma vm_mapped_wlen: "wlen (mem vm_mapped) 0x87ffd000 0x1ffe 2 = 2"
proof -
  have v: "vpn 0x1ffe = 1" "vpn 0x1fff = 1" by (simp_all add: vpn_def)
  have U: "(PA2PTE 0x87ffc000 OR (PTE_R OR PTE_W OR PTE_U OR PTE_V)) AND PTE_U \<noteq> 0"
    "(PA2PTE 0x87ffc000 OR (PTE_R OR PTE_W OR PTE_U OR PTE_V)) AND PTE_W = PTE_W"
    by (simp_all add: PA2PTE_def pte_bits)
  have "ubyte PTE_W (mem vm_mapped) 0x87ffd000 0x1ffe \<noteq> None" "ubyte PTE_W (mem vm_mapped) 0x87ffd000 0x1fff \<noteq> None"
    using U by (auto simp: ubyte_def vm_mapped_xlate v)
  then show ?thesis by (simp add: numeral_2_eq_2) auto
qed

theorem copyout_correct_witness:
  "ensures (copyout 0x87ffd000 0x1ffe [7, 8] vm_mapped)
     (\<lambda>r t. r = 0 \<and> ubyte 0 (mem t) 0x87ffd000 0x1fff = Some 8)"
proof -
  have "\<forall>i. i < 2 \<longrightarrow> ubyte PTE_W (mem vm_mapped) 0x87ffd000 (0x1ffe + of_nat i) \<noteq> None"
    using vm_mapped_wlen wlen_full [of "mem vm_mapped" "0x87ffd000" "0x1ffe" 2] by simp
  then show ?thesis
    using copyout_correct [OF vm_mapped_uvm_ok, of "[7, 8]" "0x1ffe"] vm_mapped_wlen vm_mapped_ubyte(2)
    by (auto simp: stored_def numeral_2_eq_2 [symmetric] elim!: ensures_mono)
qed

section \<open>What the memory functions leave alone\<close>

text \<open>
  The allocator and the page-table code change the memory, the free list and the lock set only: every
  component above them keeps its part of the state.
\<close>

lemma kmem_lock_frames [frames]:
  "kmem_state.more s = x \<Longrightarrow> keeps kmem_state.more x (lk_acquire l s)"
  "kmem_state.more s = x \<Longrightarrow> keeps kmem_state.more x (lk_release l s)"
  by (simp_all add: lk_acquire_def lk_release_def)

lemma kmem_frames [frames]:
  assumes "kmem_state.more s = x"
  shows "keeps kmem_state.more x (kalloc s)" "keeps kmem_state.more x (kfree pa s)"
  using assms unfolding kalloc_def kfree_def by (auto intro!: frames)

lemma walk_level_frame [frames]:
  "kmem_state.more s = x \<Longrightarrow> keeps kmem_state.more x (walk_level l pt va al s)"
proof (induction l arbitrary: pt s)
  case (Suc l)
  then show ?case unfolding walk_level.simps by (intro frames) auto
qed simp

lemma walk_frames [frames]:
  assumes "kmem_state.more s = x"
  shows "keeps kmem_state.more x (walk pt va al s)" "keeps kmem_state.more x (walkaddr pt va s)"
  using assms unfolding walk_def walkaddr_def by (auto intro!: frames)

lemma mappages_loop_frame [frames]:
  "kmem_state.more s = x \<Longrightarrow> keeps kmem_state.more x (mappages_loop pt a lst pa perm s)"
proof (induction pt a lst pa perm s rule: mappages_loop.induct)
  case (1 pt a lst pa perm s)
  show ?case
    by (subst mappages_loop.simps, rule keeps_obind_Ok)
      (use 1 in \<open>auto intro!: walk_frames keeps_if keeps_let\<close>)
qed

lemma uvmunmap_loop_frame [frames]:
  "kmem_state.more s = x \<Longrightarrow> keeps kmem_state.more x (uvmunmap_loop pt a lst f s)"
proof (induction pt a lst f s rule: uvmunmap_loop.induct)
  case (1 pt a lst f s)
  show ?case
    by (subst uvmunmap_loop.simps)
      (use 1 in \<open>auto intro!: walk_frames kmem_frames keeps_if keeps_let keeps_obind_Ok simp del: PGSIZE_def\<close>)
qed

lemma mappages_frames [frames]:
  assumes "kmem_state.more s = x"
  shows "keeps kmem_state.more x (mappages pt va n pa perm s)" "keeps kmem_state.more x (uvmunmap pt va np f s)"
    "keeps kmem_state.more x (uvmcreate s)" "keeps kmem_state.more x (uvmdealloc pt old new s)"
  using assms unfolding mappages_def uvmunmap_def uvmcreate_def uvmdealloc_def
  by (auto intro!: frames)

lemma freewalk_frame [frames]:
  "kmem_state.more s = x \<Longrightarrow> keeps kmem_state.more x (freewalk d pt i s)"
proof (induction d pt i s rule: freewalk.induct)
  case (2 d pt i s)
  show ?case
    by (subst freewalk.simps)
      (use 2 in \<open>auto intro!: kmem_frames keeps_if keeps_let keeps_obind_Ok\<close>)
qed simp

lemma uvmalloc_loop_frame [frames]:
  "kmem_state.more s = x \<Longrightarrow> keeps kmem_state.more x (uvmalloc_loop pt a old new xp s)"
proof (induction pt a old new xp s rule: uvmalloc_loop.induct)
  case (1 pt a old new xp s)
  show ?case
    by (subst uvmalloc_loop.simps)
      (use 1 in \<open>auto intro!: kmem_frames mappages_frames keeps_if keeps_let keeps_obind_Ok simp del: PGSIZE_def\<close>)
qed

lemma uvmcopy_loop_frame [frames]:
  "kmem_state.more s = x \<Longrightarrow> keeps kmem_state.more x (uvmcopy_loop old new i n s)"
proof (induction old new i n s rule: uvmcopy_loop.induct)
  case (1 old new i n s)
  show ?case
    by (subst uvmcopy_loop.simps)
      (use 1 in \<open>auto intro!: kmem_frames walk_frames mappages_frames keeps_if keeps_let keeps_obind_Ok simp del: PGSIZE_def\<close>)
qed

lemma copyout_frame [frames]:
  "kmem_state.more s = x \<Longrightarrow> keeps kmem_state.more x (copyout pt va src s)"
proof (induction src arbitrary: va s rule: length_induct)
  case (1 src)
  show ?case
    by (subst copyout.simps)
      (use 1 in \<open>auto intro!: walk_frames keeps_if keeps_let keeps_obind_Ok simp: page_room simp del: PGSIZE_def\<close>)
qed

lemma uvm_frames [frames]:
  assumes "kmem_state.more s = x"
  shows "keeps kmem_state.more x (uvmalloc pt old new xp s)" "keeps kmem_state.more x (uvmfree pt n s)"
    "keeps kmem_state.more x (uvmcopy pt pt' n s)"
  using assms unfolding uvmalloc_def uvmfree_def uvmcopy_def
  by (auto intro!: frames)

end
