(* ===== verification/Proc.thy ===== *)
theory Proc
  imports Vm
begin

text \<open>
  Processes (kernel/proc.c, kernel/proc.h): the process table, allocation and release of
  processes, sleep and wakeup, kill, wait and the hand-over to the scheduler.  A
  \<open>struct proc *\<close> is an index of the table, a null pointer is \<open>None\<close>; \<open>cur\<close> is \<open>myproc()\<close>.  An
  operation that calls \<open>sleep\<close> ends with the outcome \<open>Sleep\<close> and the state the scheduler goes on
  with; \<open>sleep_resume\<close> is what runs when the process is scheduled again.  The operations that
  need the file system (\<open>fork\<close>, \<open>exit\<close>, \<open>userinit\<close>, \<open>forkret\<close>) are in the theory \<open>Process\<close>.
\<close>

section \<open>The process table\<close>

datatype procstate = UNUSED | USED | SLEEPING | RUNNABLE | RUNNING | ZOMBIE

record proc =
  state :: procstate
  chan :: "chan option"
  killed :: bool
  xstate :: int
  pid :: int
  parent :: "nat option"
  kstack :: u64
  sz :: u64
  pagetable :: u64
  trapframe :: u64
  context_ra :: u64
  context_sp :: u64
  ofile :: "nat \<Rightarrow> nat option"
  cwd :: "nat option"
  pname :: "u8 list"

record proc_state = vm_state +
  procs :: "nat \<Rightarrow> proc"
  nextpid :: int
  initproc :: "nat option"
  forkret_addr :: u64

definition upd_proc :: "nat \<Rightarrow> (proc \<Rightarrow> proc) \<Rightarrow> 'a proc_state_scheme \<Rightarrow> 'a proc_state_scheme" where
  "upd_proc i f s = s\<lparr>procs := (procs s)(i := f (procs s i))\<rparr>"

definition myproc :: "'a kstate_scheme \<Rightarrow> (nat \<Rightarrow> ('b, 'a kstate_scheme) outcome)
    \<Rightarrow> ('b, 'a kstate_scheme) outcome" where
  "myproc s f = (case cur s of None \<Rightarrow> Undef | Some p \<Rightarrow> f p)"

lemma myproc_Some [simp]: "cur s = Some p \<Longrightarrow> myproc s f = f p"
  by (simp add: myproc_def)

definition INT_MAX :: int where
  "INT_MAX = 2 ^ 31 - 1"

section \<open>Operations\<close>

fun procinit_loop :: "nat \<Rightarrow> 'a proc_state_scheme \<Rightarrow> 'a proc_state_scheme" where
  "procinit_loop 0 s = s"
| "procinit_loop (Suc n) s =
     (let i = NPROC - Suc n in
      procinit_loop n (upd_proc i (\<lambda>p. p\<lparr>state := UNUSED, kstack := KSTACK i\<rparr>)
        (lk_init (LkProc i) s)))"

definition procinit :: "'a proc_state_scheme \<Rightarrow> 'a proc_state_scheme" where
  "procinit s = procinit_loop NPROC (lk_init LkWait (lk_init LkPid s))"

definition allocpid :: "'a proc_state_scheme \<Rightarrow> (int, 'a proc_state_scheme) outcome" where
  "allocpid s =
     obind (lk_acquire LkPid s) (\<lambda>_ s.
       let pid = nextpid s in
       if nextpid s = INT_MAX then Undef
       else obind (lk_release LkPid (s\<lparr>nextpid := nextpid s + 1\<rparr>)) (\<lambda>_ s. Ok pid s))"

definition proc_pagetable :: "nat \<Rightarrow> 'a proc_state_scheme \<Rightarrow> (u64, 'a proc_state_scheme) outcome" where
  "proc_pagetable p s =
     obind (uvmcreate s) (\<lambda>pt s.
       if pt = 0 then Ok 0 s
       else obind (mappages pt TRAMPOLINE PGSIZE (trampoline s) (PTE_R OR PTE_X) s) (\<lambda>r s.
         if r < 0 then obind (uvmfree pt 0 s) (\<lambda>_ s. Ok 0 s)
         else obind (mappages pt TRAPFRAME PGSIZE (trapframe (procs s p)) (PTE_R OR PTE_W) s) (\<lambda>r s.
           if r < 0
           then obind (uvmunmap pt TRAMPOLINE 1 False s) (\<lambda>_ s.
             obind (uvmfree pt 0 s) (\<lambda>_ s. Ok 0 s))
           else Ok pt s)))"

definition proc_freepagetable :: "u64 \<Rightarrow> u64 \<Rightarrow> 'a proc_state_scheme \<Rightarrow> (unit, 'a proc_state_scheme) outcome" where
  "proc_freepagetable pt n s =
     obind (uvmunmap pt TRAMPOLINE 1 False s) (\<lambda>_ s.
     obind (uvmunmap pt TRAPFRAME 1 False s) (\<lambda>_ s.
     uvmfree pt n s))"

definition freeproc :: "nat \<Rightarrow> 'a proc_state_scheme \<Rightarrow> (unit, 'a proc_state_scheme) outcome" where
  "freeproc p s =
     obind (if trapframe (procs s p) \<noteq> 0 then kfree (trapframe (procs s p)) s else Ok () s) (\<lambda>_ s.
     let s = upd_proc p (\<lambda>q. q\<lparr>trapframe := 0\<rparr>) s in
     obind (if pagetable (procs s p) \<noteq> 0
            then proc_freepagetable (pagetable (procs s p)) (sz (procs s p)) s else Ok () s) (\<lambda>_ s.
     Ok () (upd_proc p (\<lambda>q. q\<lparr>pagetable := 0, sz := 0, pid := 0, parent := None, pname := [],
       chan := None, killed := False, xstate := 0, state := UNUSED\<rparr>) s)))"

text \<open>The code of \<open>allocproc\<close> at the label \<open>found\<close>; the result is the index or null.\<close>

definition allocproc_found :: "nat \<Rightarrow> 'a proc_state_scheme \<Rightarrow> (nat option, 'a proc_state_scheme) outcome" where
  "allocproc_found p s =
     obind (allocpid s) (\<lambda>i s.
     obind (kalloc (upd_proc p (\<lambda>q. q\<lparr>pid := i, state := USED\<rparr>) s)) (\<lambda>tf s.
     let s = upd_proc p (\<lambda>q. q\<lparr>trapframe := tf\<rparr>) s in
     if tf = 0
     then obind (freeproc p s) (\<lambda>_ s. obind (lk_release (LkProc p) s) (\<lambda>_ s. Ok None s))
     else obind (proc_pagetable p s) (\<lambda>pt s.
       let s = upd_proc p (\<lambda>q. q\<lparr>pagetable := pt\<rparr>) s in
       if pt = 0
       then obind (freeproc p s) (\<lambda>_ s. obind (lk_release (LkProc p) s) (\<lambda>_ s. Ok None s))
       else Ok (Some p) (upd_proc p (\<lambda>q. q\<lparr>context_ra := forkret_addr s,
         context_sp := kstack (procs s p) + PGSIZE\<rparr>) s))))"

fun allocproc_loop :: "nat \<Rightarrow> 'a proc_state_scheme \<Rightarrow> (nat option, 'a proc_state_scheme) outcome" where
  "allocproc_loop 0 s = Ok None s"
| "allocproc_loop (Suc n) s =
     (let p = NPROC - Suc n in
      obind (lk_acquire (LkProc p) s) (\<lambda>_ s.
        if state (procs s p) = UNUSED then allocproc_found p s
        else obind (lk_release (LkProc p) s) (\<lambda>_ s. allocproc_loop n s)))"

definition allocproc :: "'a proc_state_scheme \<Rightarrow> (nat option, 'a proc_state_scheme) outcome" where
  "allocproc s = allocproc_loop NPROC s"

definition growproc :: "int \<Rightarrow> 'a proc_state_scheme \<Rightarrow> (int, 'a proc_state_scheme) outcome" where
  "growproc n s = myproc s (\<lambda>p.
     let q = procs s p; pt = pagetable q; old = sz q in
     if 0 < n
     then obind (uvmalloc pt old (old + of_int n) PTE_W s) (\<lambda>new s.
       if new = 0 then Ok (-1) s else Ok 0 (upd_proc p (\<lambda>q. q\<lparr>sz := new\<rparr>) s))
     else if n < 0
     then obind (uvmdealloc pt old (old + of_int n) s) (\<lambda>new s.
       Ok 0 (upd_proc p (\<lambda>q. q\<lparr>sz := new\<rparr>) s))
     else Ok 0 (upd_proc p (\<lambda>q. q\<lparr>sz := old\<rparr>) s))"

subsection \<open>The scheduler's side\<close>

text \<open>
  \<open>scheduler\<close> loops over the table; its body for process \<open>p\<close> is split at \<open>swtch\<close>: \<open>scheduler_pick\<close>
  up to the switch (the result says whether it switches), \<open>scheduler_back\<close> after it.
\<close>

definition scheduler_pick :: "nat \<Rightarrow> 'a proc_state_scheme \<Rightarrow> (bool, 'a proc_state_scheme) outcome" where
  "scheduler_pick p s =
     obind (lk_acquire (LkProc p) s) (\<lambda>_ s.
       if state (procs s p) = RUNNABLE
       then Ok True ((upd_proc p (\<lambda>q. q\<lparr>state := RUNNING\<rparr>) s)\<lparr>cur := Some p\<rparr>)
       else obind (lk_release (LkProc p) s) (\<lambda>_ s. Ok False s))"

definition scheduler_back :: "nat \<Rightarrow> 'a proc_state_scheme \<Rightarrow> (unit, 'a proc_state_scheme) outcome" where
  "scheduler_back p s = lk_release (LkProc p) (s\<lparr>cur := None\<rparr>)"

text \<open>
  \<open>sched\<close> up to the switch.  \<open>mycpu()->noff\<close> is the number of spinlocks held; interrupts are off
  while one is (theory \<open>Spinlock\<close>), so the last check of the code cannot fail.
\<close>

definition sched :: "'a proc_state_scheme \<Rightarrow> (unit, 'a proc_state_scheme) outcome" where
  "sched s = myproc s (\<lambda>p.
     if LkProc p \<notin> held s then Panic ''sched p->lock''
     else if held s \<noteq> {LkProc p} then Panic ''sched locks''
     else if state (procs s p) = RUNNING then Panic ''sched running''
     else scheduler_back p s)"

definition yield :: "'a proc_state_scheme \<Rightarrow> (unit, 'a proc_state_scheme) outcome" where
  "yield s = myproc s (\<lambda>p.
     obind (lk_acquire (LkProc p) s) (\<lambda>_ s.
     sched (upd_proc p (\<lambda>q. q\<lparr>state := RUNNABLE\<rparr>) s)))"

text \<open>What runs after \<open>sched\<close> in \<open>yield\<close>, when the process has been picked again.\<close>

definition yield_resume :: "'a proc_state_scheme \<Rightarrow> (unit, 'a proc_state_scheme) outcome" where
  "yield_resume s = myproc s (\<lambda>p. lk_release (LkProc p) s)"

definition sleep :: "chan \<Rightarrow> lock \<Rightarrow> 'a proc_state_scheme \<Rightarrow> ('b, 'a proc_state_scheme) outcome" where
  "sleep ch lk s = myproc s (\<lambda>p.
     obind (lk_acquire (LkProc p) s) (\<lambda>_ s.
     obind (lk_release lk s) (\<lambda>_ s.
     obind (sched (upd_proc p (\<lambda>q. q\<lparr>chan := Some ch, state := SLEEPING\<rparr>) s)) (\<lambda>_ s.
     Sleep ch s))))"

definition sleep_resume :: "lock \<Rightarrow> 'a proc_state_scheme \<Rightarrow> (unit, 'a proc_state_scheme) outcome" where
  "sleep_resume lk s = myproc s (\<lambda>p.
     obind (lk_release (LkProc p) (upd_proc p (\<lambda>q. q\<lparr>chan := None\<rparr>) s)) (\<lambda>_ s.
     lk_acquire lk s))"

text \<open>The argument of \<open>wakeup\<close> is an address; the null pointer is \<open>None\<close>.\<close>

fun wakeup_loop :: "nat \<Rightarrow> chan option \<Rightarrow> 'a proc_state_scheme \<Rightarrow> (unit, 'a proc_state_scheme) outcome" where
  "wakeup_loop 0 ch s = Ok () s"
| "wakeup_loop (Suc n) ch s =
     (let p = NPROC - Suc n in
      if Some p \<noteq> cur s
      then obind (lk_acquire (LkProc p) s) (\<lambda>_ s.
        let s = (if state (procs s p) = SLEEPING \<and> chan (procs s p) = ch
                 then upd_proc p (\<lambda>q. q\<lparr>state := RUNNABLE\<rparr>) s else s) in
        obind (lk_release (LkProc p) s) (\<lambda>_ s. wakeup_loop n ch s))
      else wakeup_loop n ch s)"

definition wakeup :: "chan option \<Rightarrow> 'a proc_state_scheme \<Rightarrow> (unit, 'a proc_state_scheme) outcome" where
  "wakeup ch s = wakeup_loop NPROC ch s"

fun kill_loop :: "nat \<Rightarrow> int \<Rightarrow> 'a proc_state_scheme \<Rightarrow> (int, 'a proc_state_scheme) outcome" where
  "kill_loop 0 i s = Ok (-1) s"
| "kill_loop (Suc n) i s =
     (let p = NPROC - Suc n in
      obind (lk_acquire (LkProc p) s) (\<lambda>_ s.
        if pid (procs s p) = i
        then let s = upd_proc p (\<lambda>q. q\<lparr>killed := True\<rparr>) s;
                 s = (if state (procs s p) = SLEEPING
                      then upd_proc p (\<lambda>q. q\<lparr>state := RUNNABLE\<rparr>) s else s) in
          obind (lk_release (LkProc p) s) (\<lambda>_ s. Ok 0 s)
        else obind (lk_release (LkProc p) s) (\<lambda>_ s. kill_loop n i s)))"

definition kill :: "int \<Rightarrow> 'a proc_state_scheme \<Rightarrow> (int, 'a proc_state_scheme) outcome" where
  "kill i s = kill_loop NPROC i s"

definition setkilled :: "nat \<Rightarrow> 'a proc_state_scheme \<Rightarrow> (unit, 'a proc_state_scheme) outcome" where
  "setkilled p s =
     obind (lk_acquire (LkProc p) s) (\<lambda>_ s.
     lk_release (LkProc p) (upd_proc p (\<lambda>q. q\<lparr>killed := True\<rparr>) s))"

definition is_killed :: "nat \<Rightarrow> 'a proc_state_scheme \<Rightarrow> (bool, 'a proc_state_scheme) outcome" where
  "is_killed p s =
     obind (lk_acquire (LkProc p) s) (\<lambda>_ s.
     let k = killed (procs s p) in
     obind (lk_release (LkProc p) s) (\<lambda>_ s. Ok k s))"

text \<open>
  \<open>reparent\<close> and the scan of \<open>wait\<close>; the scan returns the result of \<open>wait\<close>, or whether the
  process has children.
\<close>

fun reparent_loop :: "nat \<Rightarrow> nat \<Rightarrow> 'a proc_state_scheme \<Rightarrow> (unit, 'a proc_state_scheme) outcome" where
  "reparent_loop 0 p s = Ok () s"
| "reparent_loop (Suc n) p s =
     (let pp = NPROC - Suc n in
      if parent (procs s pp) = Some p
      then obind (wakeup (map_option ChProc (initproc s))
          (upd_proc pp (\<lambda>q. q\<lparr>parent := initproc s\<rparr>) s)) (\<lambda>_ s. reparent_loop n p s)
      else reparent_loop n p s)"

definition reparent :: "nat \<Rightarrow> 'a proc_state_scheme \<Rightarrow> (unit, 'a proc_state_scheme) outcome" where
  "reparent p s = reparent_loop NPROC p s"

fun wait_scan :: "nat \<Rightarrow> nat \<Rightarrow> u64 \<Rightarrow> bool \<Rightarrow> 'a proc_state_scheme
    \<Rightarrow> (int + bool, 'a proc_state_scheme) outcome" where
  "wait_scan 0 p addr havekids s = Ok (Inr havekids) s"
| "wait_scan (Suc n) p addr havekids s =
     (let pp = NPROC - Suc n in
      if parent (procs s pp) = Some p
      then obind (lk_acquire (LkProc pp) s) (\<lambda>_ s.
        if state (procs s pp) = ZOMBIE
        then let i = pid (procs s pp) in
          obind (if addr \<noteq> 0
                 then copyout (pagetable (procs s p)) addr
                   (le_bytes 4 (of_int (xstate (procs s pp)) :: u32)) s
                 else Ok 0 s) (\<lambda>r s.
          if r < 0
          then obind (lk_release (LkProc pp) s) (\<lambda>_ s.
            obind (lk_release LkWait s) (\<lambda>_ s. Ok (Inl (-1)) s))
          else obind (freeproc pp s) (\<lambda>_ s.
            obind (lk_release (LkProc pp) s) (\<lambda>_ s.
            obind (lk_release LkWait s) (\<lambda>_ s. Ok (Inl i) s))))
        else obind (lk_release (LkProc pp) s) (\<lambda>_ s. wait_scan n p addr True s))
      else wait_scan n p addr havekids s)"

text \<open>
  \<open>wait\<close> up to its first \<open>sleep\<close>; when the process is woken, the loop scans again, which is what
  \<open>wait_loop\<close> does with \<open>wait_lock\<close> held.
\<close>

definition wait_loop :: "nat \<Rightarrow> u64 \<Rightarrow> 'a proc_state_scheme \<Rightarrow> (int, 'a proc_state_scheme) outcome" where
  "wait_loop p addr s =
     obind (wait_scan NPROC p addr False s) (\<lambda>r s.
       case r of Inl v \<Rightarrow> Ok v s
       | Inr havekids \<Rightarrow>
         obind (if \<not> havekids then Ok True s else is_killed p s) (\<lambda>quit s.
           if quit then obind (lk_release LkWait s) (\<lambda>_ s. Ok (-1) s)
           else sleep (ChProc p) LkWait s))"

definition wait :: "u64 \<Rightarrow> 'a proc_state_scheme \<Rightarrow> (int, 'a proc_state_scheme) outcome" where
  "wait addr s = myproc s (\<lambda>p. obind (lk_acquire LkWait s) (\<lambda>_ s. wait_loop p addr s))"

text \<open>
  Copies to and from user or kernel addresses; a kernel buffer is the list of its bytes, which
  the caller of \<open>either_copyout\<close> receives as the second component.
\<close>

definition either_copyout :: "bool \<Rightarrow> u64 \<Rightarrow> u8 list \<Rightarrow> 'a proc_state_scheme
    \<Rightarrow> (int \<times> u8 list, 'a proc_state_scheme) outcome" where
  "either_copyout user_dst dst src s = myproc s (\<lambda>p.
     if user_dst then obind (copyout (pagetable (procs s p)) dst src s) (\<lambda>r s. Ok (r, []) s)
     else Ok (0, src) s)"

definition either_copyin :: "bool \<Rightarrow> u64 \<Rightarrow> u8 list \<Rightarrow> nat \<Rightarrow> 'a proc_state_scheme
    \<Rightarrow> (int \<times> u8 list, 'a proc_state_scheme) outcome" where
  "either_copyin user_src src kbuf len s = myproc s (\<lambda>p.
     if user_src then copyin (pagetable (procs s p)) src len s
     else Ok (0, take len kbuf) s)"

section \<open>Behaviour of sleep and wakeup\<close>

declare sched_def [simp del]

definition no_proc_lock :: "'a kstate_scheme \<Rightarrow> bool" where
  "no_proc_lock s \<longleftrightarrow> (\<forall>i. LkProc i \<notin> held s)"

lemma upd_proc_simps [simp]:
  "held (upd_proc i f s) = held s" "cur (upd_proc i f s) = cur s" "mem (upd_proc i f s) = mem s"
  "freelist (upd_proc i f s) = freelist s" "kend (upd_proc i f s) = kend s"
  "procs (upd_proc i f s) j = (if j = i then f (procs s i) else procs s j)"
  "nextpid (upd_proc i f s) = nextpid s" "initproc (upd_proc i f s) = initproc s"
  "proc_state.more (upd_proc i f s) = proc_state.more s"
  by (simp_all add: upd_proc_def)

text \<open>The table after \<open>wakeup ch\<close> by the process \<open>c\<close>.\<close>

definition woken :: "chan option \<Rightarrow> nat option \<Rightarrow> (nat \<Rightarrow> proc) \<Rightarrow> nat \<Rightarrow> proc" where
  "woken ch c ps i =
     (if i < NPROC \<and> Some i \<noteq> c \<and> state (ps i) = SLEEPING \<and> chan (ps i) = ch
      then (ps i)\<lparr>state := RUNNABLE\<rparr> else ps i)"

lemma wakeup_loop_eq:
  assumes "no_proc_lock s" and "n \<le> NPROC"
  shows "wakeup_loop n ch s =
    Ok () (s\<lparr>procs := \<lambda>i. if NPROC - n \<le> i then woken ch (cur s) (procs s) i else procs s i\<rparr>)"
  using assms
proof (induction n arbitrary: s)
  case 0
  have "(\<lambda>i. if NPROC \<le> i then woken ch (cur s) (procs s) i else procs s i) = procs s"
    by (auto simp: woken_def fun_eq_iff)
  then show ?case by simp
next
  case (Suc n)
  let ?p = "NPROC - Suc n"
  have p: "LkProc ?p \<notin> held s" "?p < NPROC" "Suc ?p = NPROC - n"
    using Suc.prems by (auto simp: no_proc_lock_def)
  define s1 where "s1 = (if Some ?p \<noteq> cur s \<and> state (procs s ?p) = SLEEPING \<and> chan (procs s ?p) = ch
     then upd_proc ?p (\<lambda>q. q\<lparr>state := RUNNABLE\<rparr>) s else s)"
  have "wakeup_loop (Suc n) ch s = wakeup_loop n ch s1"
    using p(1) by (auto simp: s1_def Let_def upd_proc_def)
  also have "\<dots> = Ok () (s1\<lparr>procs := \<lambda>i. if NPROC - n \<le> i then woken ch (cur s1) (procs s1) i
      else procs s1 i\<rparr>)"
    by (rule Suc.IH) (use Suc.prems in \<open>auto simp: s1_def no_proc_lock_def\<close>)
  also have "\<dots> = Ok () (s\<lparr>procs := \<lambda>i. if ?p \<le> i then woken ch (cur s) (procs s) i else procs s i\<rparr>)"
  proof -
    have s1: "s1\<lparr>procs := g\<rparr> = s\<lparr>procs := g\<rparr>" "cur s1 = cur s" for g
      by (simp_all add: s1_def upd_proc_def)
    have pr: "procs s1 i = (if i = ?p then woken ch (cur s) (procs s) i else procs s i)" for i
      using p(2) by (auto simp: s1_def woken_def)
    have "(if NPROC - n \<le> i then woken ch (cur s1) (procs s1) i else procs s1 i) =
        (if ?p \<le> i then woken ch (cur s) (procs s) i else procs s i)" for i
      using p(3) by (cases i ?p rule: linorder_cases) (auto simp: pr s1(2) woken_def)
    then show ?thesis by (simp add: s1(1))
  qed
  finally show ?case .
qed

lemma wakeup_eq:
  assumes "no_proc_lock s"
  shows "wakeup ch s = Ok () (s\<lparr>procs := woken ch (cur s) (procs s)\<rparr>)"
proof -
  have "(\<lambda>i. if NPROC - NPROC \<le> i then woken ch (cur s) (procs s) i else procs s i) =
      woken ch (cur s) (procs s)"
    by (simp add: fun_eq_iff)
  then show ?thesis
    unfolding wakeup_def wakeup_loop_eq [OF assms order_refl] by (simp only:)
qed

lemma sleep_eq:
  assumes "cur s = Some p" and "held s = {lk}" and "lk \<noteq> LkProc p"
  shows "sleep ch lk s = Sleep ch
    ((upd_proc p (\<lambda>q. q\<lparr>chan := Some ch, state := SLEEPING\<rparr>) s)\<lparr>held := {}, cur := None\<rparr>)"
proof -
  have "insert (LkProc p) {lk} - {lk} = {LkProc p}" using assms(3) by auto
  then show ?thesis
    using assms by (simp add: sleep_def sched_def scheduler_back_def upd_proc_def)
qed

end
