(* ===== verification/Proc_Pids.thy ===== *)
theory Proc_Pids
  imports Proc
begin

text \<open>
  Process identifiers.  \<open>proc_step\<close> is one call of an operation of proc.c on the process table;
  in every state such calls reach, live processes have different identifiers.
\<close>

definition pids_ok :: "'a proc_state_scheme \<Rightarrow> bool" where
  "pids_ok s \<longleftrightarrow> 0 < nextpid s \<and>
     (\<forall>p<NPROC. (state (procs s p) = UNUSED \<longleftrightarrow> pid (procs s p) = 0) \<and> 0 \<le> pid (procs s p) \<and> pid (procs s p) < nextpid s) \<and>
     (\<forall>p<NPROC. \<forall>q<NPROC. pid (procs s p) = pid (procs s q) \<longrightarrow> pid (procs s p) = 0 \<or> p = q)"

lemma more_view: "kmem_state.more s = kmem_state.more t \<Longrightarrow> procs s = procs t \<and> nextpid s = nextpid t"
  for s t :: "'a proc_state_scheme"
  by (cases s; cases t) simp

lemma pids_ok_cong: "procs t = procs s \<Longrightarrow> nextpid t = nextpid s \<Longrightarrow> pids_ok t = pids_ok s"
  by (simp add: pids_ok_def)

lemma pids_view:
  fixes s :: "'a proc_state_scheme"
  assumes "keeps kmem_state.more (kmem_state.more s) m" "pids_ok s"
  shows "keeps pids_ok True m"
  using assms more_view pids_ok_cong unfolding keeps_def by metis

lemma pids_ok_held [simp]: "pids_ok (s\<lparr>held := H\<rparr>) = pids_ok s" "pids_ok (s\<lparr>cur := c\<rparr>) = pids_ok s"
  by (simp_all add: pids_ok_def)

lemma pids_upd_same:
  assumes "pids_ok s" "pid (f (procs s p)) = pid (procs s p)" "state (f (procs s p)) = UNUSED \<longleftrightarrow> state (procs s p) = UNUSED"
  shows "pids_ok (upd_proc p f s)"
  using assms unfolding pids_ok_def by (auto simp: upd_proc_def)

lemma pids_locks:
  assumes "pids_ok s"
  shows "keeps pids_ok True (lk_acquire l s)" "keeps pids_ok True (lk_release l s)"
  using assms by (auto simp: keeps_def lk_acquire_def lk_release_def split: if_splits)

lemma pids_memory:
  assumes "pids_ok s"
  shows "keeps pids_ok True (kalloc s)" "keeps pids_ok True (kfree pa s)" "keeps pids_ok True (uvmunmap pt va n f s)"
    "keeps pids_ok True (uvmfree pt k s)" "keeps pids_ok True (uvmcreate s)" "keeps pids_ok True (mappages pt va n pa perm s)"
    "keeps pids_ok True (uvmalloc pt old new xp s)" "keeps pids_ok True (uvmdealloc pt old new s)"
    "keeps pids_ok True (copyout pt va src s)"
  by (rule pids_view [OF _ assms], rule frames, rule refl)+

lemma pids_upd_dead:
  assumes "pids_ok s" "pid (f (procs s p)) = 0" "state (f (procs s p)) = UNUSED"
  shows "pids_ok (upd_proc p f s)"
  using assms unfolding pids_ok_def by (auto simp: upd_proc_def)

lemma pids_upd_new:
  assumes "pids_ok s" "procs t = procs s" "nextpid t = nextpid s + 1"
    "pid (f (procs s p)) = nextpid s" "state (f (procs s p)) \<noteq> UNUSED"
  shows "pids_ok (upd_proc p f t)"
  using assms unfolding pids_ok_def by (auto simp: upd_proc_def)

lemma pids_upd_fields [simp]:
  assumes "pids_ok s"
  shows "pids_ok (upd_proc p (\<lambda>q. q\<lparr>trapframe := a\<rparr>) s)" "pids_ok (upd_proc p (\<lambda>q. q\<lparr>pagetable := b\<rparr>) s)"
    "pids_ok (upd_proc p (\<lambda>q. q\<lparr>killed := c\<rparr>) s)" "pids_ok (upd_proc p (\<lambda>q. q\<lparr>chan := d\<rparr>) s)"
    "pids_ok (upd_proc p (\<lambda>q. q\<lparr>sz := e\<rparr>) s)" "pids_ok (upd_proc p (\<lambda>q. q\<lparr>parent := f\<rparr>) s)"
    "pids_ok (upd_proc p (\<lambda>q. q\<lparr>context_ra := g, context_sp := h\<rparr>) s)"
  by (rule pids_upd_same [OF assms]; simp)+

lemma pids_upd_eta: "pids_ok s \<Longrightarrow> pids_ok (upd_proc p (sz_update f) s)"
    "pids_ok s \<Longrightarrow> pids_ok (upd_proc p (chan_update g) s)" "pids_ok s \<Longrightarrow> pids_ok (upd_proc p (killed_update h) s)"
  by (rule pids_upd_same; simp)+

lemma pids_upd_state:
  assumes "pids_ok s" "state (procs s p) \<noteq> UNUSED" "st \<noteq> UNUSED"
  shows "pids_ok (upd_proc p (\<lambda>q. q\<lparr>state := st\<rparr>) s)" "pids_ok (upd_proc p (\<lambda>q. q\<lparr>chan := d, state := st\<rparr>) s)"
  by (rule pids_upd_same [OF assms(1)]; use assms(2,3) in simp)+

lemma pids_proc_pagetable: "pids_ok s \<Longrightarrow> keeps pids_ok True (proc_pagetable p s)"
  unfolding proc_pagetable_def by (intro frames) (auto intro: pids_memory)

lemma pids_freeproc: "pids_ok s \<Longrightarrow> keeps pids_ok True (freeproc p s)"
  unfolding freeproc_def proc_freepagetable_def
  by (intro frames) (auto intro: pids_memory pids_upd_dead)

lemma allocpid_eq: "allocpid s = Ok i t \<Longrightarrow> i = nextpid s \<and> procs t = procs s \<and> nextpid t = nextpid s + 1"
  by (auto simp: allocpid_def lk_acquire_def lk_release_def Let_def split: if_splits)

lemma pids_allocproc_found:
  assumes "pids_ok s"
  shows "keeps pids_ok True (allocproc_found p s)"
proof (cases "allocpid s")
  case (Ok i t)
  have "pids_ok (upd_proc p (\<lambda>q. q\<lparr>pid := i, state := USED\<rparr>) t)"
    by (rule pids_upd_new [OF assms]) (use allocpid_eq [OF Ok] in simp_all)
  then show ?thesis
    unfolding allocproc_found_def Ok obind.simps
    by (intro frames) (auto intro: pids_memory pids_proc_pagetable pids_freeproc pids_locks)
qed (simp_all add: allocproc_found_def)

lemma pids_allocproc_loop: "pids_ok s \<Longrightarrow> keeps pids_ok True (allocproc_loop n s)"
proof (induction n arbitrary: s)
  case (Suc n)
  then show ?case
    unfolding allocproc_loop.simps by (intro frames) (auto intro: pids_locks pids_allocproc_found)
qed simp

lemma pids_wakeup_loop: "pids_ok s \<Longrightarrow> keeps pids_ok True (wakeup_loop n ch s)"
proof (induction n arbitrary: s)
  case (Suc n)
  then show ?case
    unfolding wakeup_loop.simps by (intro frames) (auto intro!: pids_locks pids_upd_state)
qed simp

lemma pids_kill_loop: "pids_ok s \<Longrightarrow> keeps pids_ok True (kill_loop n i s)"
proof (induction n arbitrary: s)
  case (Suc n)
  then show ?case
    unfolding kill_loop.simps by (intro frames) (auto intro!: pids_locks pids_upd_state)
qed simp

lemma pids_reparent_loop: "pids_ok s \<Longrightarrow> keeps pids_ok True (reparent_loop n p s)"
proof (induction n arbitrary: s)
  case (Suc n)
  then show ?case
    unfolding reparent_loop.simps wakeup_def by (intro frames) (auto intro: pids_wakeup_loop)
qed simp

lemma pids_wait_scan: "pids_ok s \<Longrightarrow> keeps pids_ok True (wait_scan n p addr k s)"
proof (induction n arbitrary: s k)
  case (Suc n)
  then show ?case
    unfolding wait_scan.simps by (intro frames) (auto intro: pids_locks pids_memory pids_freeproc)
qed simp

section \<open>Runs\<close>

text \<open>
  A call that sleeps is a step to the state in which it has slept, and its rest is a step of its own.
  \<open>yield\<close> and \<open>sleep\<close> are called by the running process; \<open>do_set_state\<close> stands for the assignments to \<open>state\<close>
  in \<open>fork\<close>, which starts a process that \<open>allocproc\<close> has returned, and in \<open>exit\<close>, and \<open>do_set_fields\<close> for
  the assignments of \<open>fork\<close>, \<open>exit\<close> and \<open>exec\<close> to the other fields of a process.
\<close>

inductive proc_step :: "'a proc_state_scheme \<Rightarrow> 'a proc_state_scheme \<Rightarrow> bool" where
  do_acquire: "lk_acquire l s = Ok () t \<Longrightarrow> proc_step s t"
| do_release: "lk_release l s = Ok () t \<Longrightarrow> proc_step s t"
| do_allocproc: "allocproc s = Ok r t \<Longrightarrow> proc_step s t"
| do_freeproc: "freeproc p s = Ok () t \<Longrightarrow> proc_step s t"
| do_growproc: "growproc n s = Ok v t \<Longrightarrow> proc_step s t"
| do_pick: "scheduler_pick p s = Ok b t \<Longrightarrow> proc_step s t"
| do_back: "scheduler_back p s = Ok () t \<Longrightarrow> proc_step s t"
| do_yield: "cur s = Some p \<Longrightarrow> state (procs s p) = RUNNING \<Longrightarrow> yield s = Ok () t \<Longrightarrow> proc_step s t"
| do_yield_resume: "yield_resume s = Ok () t \<Longrightarrow> proc_step s t"
| do_sleep: "cur s = Some p \<Longrightarrow> state (procs s p) = RUNNING \<Longrightarrow> (sleep ch lk s :: (unit, _) outcome) = Sleep ch t \<Longrightarrow> proc_step s t"
| do_sleep_resume: "sleep_resume lk s = Ok () t \<Longrightarrow> proc_step s t"
| do_wakeup: "wakeup c s = Ok () t \<Longrightarrow> proc_step s t"
| do_kill: "kill i s = Ok v t \<Longrightarrow> proc_step s t"
| do_setkilled: "setkilled p s = Ok () t \<Longrightarrow> proc_step s t"
| do_reparent: "reparent p s = Ok () t \<Longrightarrow> proc_step s t"
| do_wait_scan: "wait_scan NPROC p addr k s = Ok x t \<Longrightarrow> proc_step s t"
| do_set_state: "state (procs s p) \<noteq> UNUSED \<Longrightarrow> st \<noteq> UNUSED \<Longrightarrow> proc_step s (upd_proc p (\<lambda>q. q\<lparr>state := st\<rparr>) s)"
| do_set_fields: "(\<And>q. pid (f q) = pid q \<and> state (f q) = state q) \<Longrightarrow> proc_step s (upd_proc p f s)"

lemma pids_calls:
  assumes "pids_ok s"
  shows "keeps pids_ok True (allocproc s)" "keeps pids_ok True (growproc n s)" "keeps pids_ok True (scheduler_pick p s)"
    "keeps pids_ok True (scheduler_back p s)" "keeps pids_ok True (sched s)" "keeps pids_ok True (yield_resume s)"
    "keeps pids_ok True (sleep_resume lk s)" "keeps pids_ok True (wakeup c s)" "keeps pids_ok True (kill i s)"
    "keeps pids_ok True (setkilled p s)" "keeps pids_ok True (reparent p s)"
proof -
  note ok = assms pids_locks pids_memory pids_upd_state pids_upd_eta
  show "keeps pids_ok True (allocproc s)" unfolding allocproc_def by (rule pids_allocproc_loop [OF assms])
  show "keeps pids_ok True (wakeup c s)" unfolding wakeup_def by (rule pids_wakeup_loop [OF assms])
  show "keeps pids_ok True (kill i s)" unfolding kill_def by (rule pids_kill_loop [OF assms])
  show "keeps pids_ok True (reparent p s)" unfolding reparent_def by (rule pids_reparent_loop [OF assms])
  show "keeps pids_ok True (growproc n s)"
    unfolding growproc_def myproc_def by (auto split: option.splits intro!: ok frames simp: Let_def)
  show "keeps pids_ok True (scheduler_pick p s)" unfolding scheduler_pick_def by (intro frames) (auto intro!: ok)
  show "keeps pids_ok True (scheduler_back p s)" unfolding scheduler_back_def by (auto intro!: ok)
  show "keeps pids_ok True (sched s)" unfolding sched_def scheduler_back_def myproc_def by (auto split: option.splits intro!: ok)
  show "keeps pids_ok True (yield_resume s)" unfolding yield_resume_def myproc_def by (auto split: option.splits intro!: ok)
  show "keeps pids_ok True (sleep_resume lk s)"
    unfolding sleep_resume_def myproc_def by (auto split: option.splits intro!: keeps_obind ok)
  show "keeps pids_ok True (setkilled p s)" unfolding setkilled_def by (intro frames) (auto intro!: ok)
qed

lemma lk_acquire_procs: "lk_acquire l s = Ok () t \<Longrightarrow> procs t = procs s"
  and lk_release_procs: "lk_release l s = Ok () t \<Longrightarrow> procs t = procs s"
  by (auto simp: lk_acquire_def lk_release_def split: if_splits)

lemma pids_yield:
  assumes "pids_ok s" "cur s = Some p" "state (procs s p) = RUNNING"
  shows "keeps pids_ok True (yield s)"
  using assms lk_acquire_procs [of "LkProc p" s] unfolding yield_def
  by (auto intro!: keeps_obind_Ok pids_locks pids_calls pids_upd_state)

lemma pids_sleep:
  assumes "pids_ok s" "cur s = Some p" "state (procs s p) = RUNNING" "sleep ch lk s = Sleep c t"
  shows "pids_ok t"
proof -
  obtain s1 where s1: "lk_acquire (LkProc p) s = Ok () s1"
    using assms(2,4) by (auto simp: sleep_def lk_acquire_def split: if_splits)
  obtain s2 where s2: "lk_release lk s1 = Ok () s2"
    using assms(2,4) s1 by (auto simp: sleep_def lk_release_def split: if_splits)
  have "pids_ok s2" using keepsD [OF pids_locks(2) s2] keepsD [OF pids_locks(1) s1] assms(1) by simp
  moreover have "state (procs s2 p) = RUNNING" using lk_acquire_procs [OF s1] lk_release_procs [OF s2] assms(3) by simp
  ultimately have "keeps pids_ok True (sched (upd_proc p (\<lambda>q. q\<lparr>chan := Some ch, state := SLEEPING\<rparr>) s2))"
    by (intro pids_calls pids_upd_state) simp_all
  moreover have "sched (upd_proc p (\<lambda>q. q\<lparr>chan := Some ch, state := SLEEPING\<rparr>) s2) = Ok () t"
    using assms(2,4) s1 s2 by (cases "sched (upd_proc p (\<lambda>q. q\<lparr>chan := Some ch, state := SLEEPING\<rparr>) s2)")
      (auto simp: sleep_def sched_def myproc_def scheduler_back_def lk_release_def split: if_splits option.splits)
  ultimately show ?thesis by (simp add: keeps_def)
qed

lemma keeps_TrueD: "keeps P True m \<Longrightarrow> m = Ok a t \<Longrightarrow> P t"
  by (simp add: keeps_def)

lemma pids_step: "proc_step s t \<Longrightarrow> pids_ok s \<Longrightarrow> pids_ok t"
proof (induction rule: proc_step.induct)
  case (do_yield s p t)
  show ?case by (rule keeps_TrueD [OF pids_yield]) (use do_yield in auto)
next
  case (do_sleep s p ch lk t)
  show ?case by (rule pids_sleep) (use do_sleep in auto)
next
  case (do_set_state s p st)
  then show ?case by (intro pids_upd_state)
next
  case (do_set_fields f s p)
  then show ?case by (intro pids_upd_same) simp_all
qed (erule keeps_TrueD [rotated], rule pids_locks pids_calls pids_freeproc pids_wait_scan, assumption)+

lemma pids_steps: "proc_step\<^sup>*\<^sup>* s t \<Longrightarrow> pids_ok s \<Longrightarrow> pids_ok t"
  by (induction rule: rtranclp_induct) (auto intro: pids_step)

lemma procinit_loop_pids:
  "nextpid (procinit_loop n s) = nextpid s" "pid (procs (procinit_loop n s) p) = pid (procs s p)"
  by (induction n arbitrary: s) (simp_all add: Let_def upd_proc_def lk_init_def)

lemma procinit_loop_state:
  "n \<le> NPROC \<Longrightarrow> p < NPROC \<Longrightarrow>
     state (procs (procinit_loop n s) p) = (if NPROC - n \<le> p then UNUSED else state (procs s p))"
proof (induction n arbitrary: s)
  case (Suc n)
  then show ?case by (auto simp: Let_def upd_proc_def lk_init_def)
qed simp

lemma pids_procinit:
  assumes "nextpid b = 1" and "\<forall>p<NPROC. pid (procs b p) = 0"
  shows "pids_ok (procinit b)"
  using assms unfolding pids_ok_def procinit_def by (auto simp: procinit_loop_pids procinit_loop_state lk_init_def)

text \<open>
  C20: Process identifiers are unique.  The table that \<open>procinit\<close> sets up satisfies \<open>pids_ok\<close>: a slot is
  unused exactly when its identifier is 0, identifiers are below \<open>nextpid\<close>, and no two slots
  share one other than 0.  Every sequence of the operations of proc.c keeps \<open>pids_ok\<close>, however they
  are interleaved.
\<close>

theorem pids_unique:
  assumes "nextpid b = 1" and "\<forall>p<NPROC. pid (procs b p) = 0"
  shows "pids_ok (procinit b) \<and> (\<forall>s t. pids_ok s \<and> proc_step\<^sup>*\<^sup>* s t \<longrightarrow> pids_ok t)"
  using pids_procinit [OF assms] pids_steps by blast

definition no_proc :: proc where
  "no_proc = \<lparr>state = UNUSED, chan = None, killed = False, xstate = 0, pid = 0, parent = None, kstack = 0,
     sz = 0, pagetable = 0, trapframe = 0, context_ra = 0, context_sp = 0, ofile = (\<lambda>_. None), cwd = None, pname = []\<rparr>"

definition pids_example :: proc_state where
  "pids_example = \<lparr>held = {}, cur = None, mem = (\<lambda>_. 0), freelist = 0, kend = 0, kernel_pagetable = 0, etext = 0,
     trampoline = 0, satp = 0, procs = (\<lambda>_. no_proc), nextpid = 1, initproc = None, forkret_addr = 0\<rparr>"

text \<open>Two processes: init, which can run, and its child, which sleeps.\<close>

definition pids_two :: proc_state where
  "pids_two = pids_example\<lparr>nextpid := 3, procs := (\<lambda>_. no_proc)
     (0 := no_proc\<lparr>state := RUNNABLE, pid := 1\<rparr>, 1 := no_proc\<lparr>state := SLEEPING, pid := 2, parent := Some 0\<rparr>)\<rparr>"

lemma pids_two_ok: "pids_ok pids_two"
  by (simp add: pids_ok_def pids_two_def no_proc_def)

lemma pids_two_kill:
  "kill 2 pids_two = Ok 0 (upd_proc 1 (\<lambda>q. q\<lparr>state := RUNNABLE\<rparr>) (upd_proc 1 (\<lambda>q. q\<lparr>killed := True\<rparr>) pids_two))"
proof -
  have n: "NPROC = Suc (Suc 62)" by (simp add: NPROC_def)
  show ?thesis unfolding kill_def n kill_loop.simps
    by (simp add: n pids_two_def pids_example_def no_proc_def lk_acquire_def lk_release_def upd_proc_def)
qed

theorem pids_unique_witness:
  "pids_ok (procinit pids_example) \<and> pids_ok pids_two \<and>
   pids_ok (upd_proc 1 (\<lambda>q. q\<lparr>state := RUNNABLE\<rparr>) (upd_proc 1 (\<lambda>q. q\<lparr>killed := True\<rparr>) pids_two))"
proof -
  have "nextpid pids_example = 1" "\<forall>p<NPROC. pid (procs pids_example p) = 0"
    by (simp_all add: pids_example_def no_proc_def)
  note u = pids_unique [OF this]
  have "proc_step\<^sup>*\<^sup>* pids_two (upd_proc 1 (\<lambda>q. q\<lparr>state := RUNNABLE\<rparr>) (upd_proc 1 (\<lambda>q. q\<lparr>killed := True\<rparr>) pids_two))"
    by (rule r_into_rtranclp) (rule do_kill [OF pids_two_kill])
  then show ?thesis using u pids_two_ok by blast
qed

lemma kill_zero: "kill 0 pids_example = Ok 0 (upd_proc 0 (\<lambda>q. q\<lparr>killed := True\<rparr>) pids_example)"
proof -
  have n: "NPROC = Suc 63" by (simp add: NPROC_def)
  show ?thesis unfolding kill_def n kill_loop.simps
    by (simp add: n pids_example_def no_proc_def lk_acquire_def lk_release_def upd_proc_def)
qed

end
