(* ===== verification/Sleeplock.thy ===== *)
theory Sleeplock
  imports Proc
begin

text \<open>
  Sleep-locks (kernel/sleeplock.c): long-term locks whose waiters sleep.  Every buffer and every
  in-memory inode has one; the state maps the name of the lock to its contents.
\<close>

record sleeplock =
  locked :: bool
  sl_pid :: int

record slp_state = proc_state +
  sleeplocks :: "sleeplock_id \<Rightarrow> sleeplock"

definition initsleeplock :: "sleeplock_id \<Rightarrow> 'a slp_state_scheme \<Rightarrow> 'a slp_state_scheme" where
  "initsleeplock l s =
     (lk_init (LkSleep l) s)\<lparr>sleeplocks := (sleeplocks s)(l := \<lparr>locked = False, sl_pid = 0\<rparr>)\<rparr>"

definition acquiresleep :: "sleeplock_id \<Rightarrow> 'a slp_state_scheme \<Rightarrow> (unit, 'a slp_state_scheme) outcome" where
  "acquiresleep l s =
     obind (lk_acquire (LkSleep l) s) (\<lambda>_ s.
       if locked (sleeplocks s l) then sleep (ChSleep l) (LkSleep l) s
       else myproc s (\<lambda>p.
         lk_release (LkSleep l) (s\<lparr>sleeplocks := (sleeplocks s)
           (l := \<lparr>locked = True, sl_pid = pid (procs s p)\<rparr>)\<rparr>)))"

definition releasesleep :: "sleeplock_id \<Rightarrow> 'a slp_state_scheme \<Rightarrow> (unit, 'a slp_state_scheme) outcome" where
  "releasesleep l s =
     obind (lk_acquire (LkSleep l) s) (\<lambda>_ s.
     obind (wakeup (Some (ChSleep l)) (s\<lparr>sleeplocks := (sleeplocks s)
         (l := \<lparr>locked = False, sl_pid = 0\<rparr>)\<rparr>)) (\<lambda>_ s.
     lk_release (LkSleep l) s))"

definition holdingsleep :: "sleeplock_id \<Rightarrow> 'a slp_state_scheme \<Rightarrow> (bool, 'a slp_state_scheme) outcome" where
  "holdingsleep l s =
     obind (lk_acquire (LkSleep l) s) (\<lambda>_ s. myproc s (\<lambda>p.
       let r = locked (sleeplocks s l) \<and> sl_pid (sleeplocks s l) = pid (procs s p) in
       obind (lk_release (LkSleep l) s) (\<lambda>_ s. Ok r s)))"

section \<open>Behaviour\<close>

text \<open>A process that runs in the kernel with no spinlock held.\<close>

definition running :: "nat \<Rightarrow> 'a proc_state_scheme \<Rightarrow> bool" where
  "running p s \<longleftrightarrow> cur s = Some p \<and> held s = {}"

definition my_lock :: "nat \<Rightarrow> 'a slp_state_scheme \<Rightarrow> sleeplock" where
  "my_lock p s = \<lparr>locked = True, sl_pid = pid (procs s p)\<rparr>"

lemma acquiresleep_free:
  assumes "running p s" and "\<not> locked (sleeplocks s l)"
  shows "acquiresleep l s = Ok () (s\<lparr>sleeplocks := (sleeplocks s)(l := my_lock p s)\<rparr>)"
  using assms by (simp add: acquiresleep_def running_def my_lock_def)

lemma acquiresleep_busy:
  assumes "running p s" and "locked (sleeplocks s l)"
  shows "acquiresleep l s = Sleep (ChSleep l)
    ((upd_proc p (\<lambda>q. q\<lparr>chan := Some (ChSleep l), state := SLEEPING\<rparr>) s)\<lparr>held := {}, cur := None\<rparr>)"
proof -
  have "sleep (ChSleep l) (LkSleep l) (s\<lparr>held := {LkSleep l}\<rparr>) = Sleep (ChSleep l)
    ((upd_proc p (\<lambda>q. q\<lparr>chan := Some (ChSleep l), state := SLEEPING\<rparr>) (s\<lparr>held := {LkSleep l}\<rparr>))
      \<lparr>held := {}, cur := None\<rparr>)"
    using assms by (intro sleep_eq) (simp_all add: running_def)
  then show ?thesis
    using assms by (simp add: acquiresleep_def running_def upd_proc_def)
qed

lemma releasesleep_eq:
  assumes "running p s"
  shows "releasesleep l s = Ok () (s\<lparr>procs := woken (Some (ChSleep l)) (cur s) (procs s),
    sleeplocks := (sleeplocks s)(l := \<lparr>locked = False, sl_pid = 0\<rparr>)\<rparr>)"
  using assms by (simp add: releasesleep_def running_def wakeup_eq no_proc_lock_def)

lemma holdingsleep_eq:
  assumes "running p s"
  shows "holdingsleep l s = Ok (sleeplocks s l = my_lock p s) s"
  using assms by (cases "sleeplocks s l") (simp add: holdingsleep_def running_def my_lock_def)

lemma woken_pid [simp]: "pid (woken ch c ps i) = pid (ps i)"
  by (simp add: woken_def)

end
