(* ===== verification/Bio.thy ===== *)
theory Bio
  imports Sleeplock
begin

text \<open>
  The buffer cache (kernel/bio.c, kernel/buf.h).  Buffers are the indices below NBUF, and NBUF
  itself is \<open>bcache.head\<close>, so that the links of the LRU list are indices.  A block is a function
  from offsets to bytes, and a copy of BSIZE bytes copies the block.  The disk below the cache
  is the field \<open>disk\<close>, with the history \<open>writes\<close> of the blocks written; \<open>disk_rw\<close> is the effect of
  \<open>virtio_disk_rw\<close> once the device has finished the request.
\<close>

section \<open>State and operations\<close>

definition MAXOPBLOCKS :: nat where [simp]: "MAXOPBLOCKS = 10"
definition NBUF :: nat where [simp]: "NBUF = MAXOPBLOCKS * 3"
definition BSIZE :: nat where [simp]: "BSIZE = 1024"
definition ROOTDEV :: u32 where [simp]: "ROOTDEV = 1"

record buf =
  bvalid :: bool
  dev :: u32
  blockno :: u32
  refcnt :: u32
  prv :: nat
  nxt :: nat
  data :: bytes

record bio_state = slp_state +
  bufs :: "nat \<Rightarrow> buf"
  disk :: "u32 \<Rightarrow> bytes"
  writes :: "(u32 \<times> bytes) list"

definition upd_buf :: "nat \<Rightarrow> (buf \<Rightarrow> buf) \<Rightarrow> 'a bio_state_scheme \<Rightarrow> 'a bio_state_scheme" where
  "upd_buf i f s = s\<lparr>bufs := (bufs s)(i := f (bufs s i))\<rparr>"

fun binit_loop :: "nat \<Rightarrow> 'a bio_state_scheme \<Rightarrow> 'a bio_state_scheme" where
  "binit_loop 0 s = s"
| "binit_loop (Suc n) s =
     (let b = NBUF - Suc n; first = nxt (bufs s NBUF);
          s = upd_buf b (\<lambda>q. q\<lparr>nxt := first, prv := NBUF\<rparr>) s;
          s = initsleeplock (SlBuf b) s;
          s = upd_buf first (\<lambda>q. q\<lparr>prv := b\<rparr>) s;
          s = upd_buf NBUF (\<lambda>q. q\<lparr>nxt := b\<rparr>) s
      in binit_loop n s)"

definition binit :: "'a bio_state_scheme \<Rightarrow> 'a bio_state_scheme" where
  "binit s = binit_loop NBUF
     (upd_buf NBUF (\<lambda>q. q\<lparr>prv := NBUF, nxt := NBUF\<rparr>) (lk_init LkBcache s))"

text \<open>
  The two scans of \<open>bget\<close>.  The list has NBUF buffers, so a scan that does not reach the head in
  NBUF steps runs around a cycle and never ends; the first argument counts the steps.
\<close>

fun bget_find :: "nat \<Rightarrow> u32 \<Rightarrow> u32 \<Rightarrow> nat \<Rightarrow> (nat \<Rightarrow> buf) \<Rightarrow> nat option option" where
  "bget_find n d bn b bs =
     (if b = NBUF then Some None
      else if dev (bs b) = d \<and> blockno (bs b) = bn then Some (Some b)
      else case n of 0 \<Rightarrow> None | Suc m \<Rightarrow> bget_find m d bn (nxt (bs b)) bs)"

fun bget_lru :: "nat \<Rightarrow> nat \<Rightarrow> (nat \<Rightarrow> buf) \<Rightarrow> nat option option" where
  "bget_lru n b bs =
     (if b = NBUF then Some None
      else if refcnt (bs b) = 0 then Some (Some b)
      else case n of 0 \<Rightarrow> None | Suc m \<Rightarrow> bget_lru m (prv (bs b)) bs)"

definition bget :: "u32 \<Rightarrow> u32 \<Rightarrow> 'a bio_state_scheme \<Rightarrow> (nat, 'a bio_state_scheme) outcome" where
  "bget d bn s =
     obind (lk_acquire LkBcache s) (\<lambda>_ s.
       case bget_find NBUF d bn (nxt (bufs s NBUF)) (bufs s) of
         None \<Rightarrow> Spin
       | Some (Some b) \<Rightarrow>
           obind (lk_release LkBcache (upd_buf b (\<lambda>q. q\<lparr>refcnt := refcnt q + 1\<rparr>) s)) (\<lambda>_ s.
           obind (acquiresleep (SlBuf b) s) (\<lambda>_ s. Ok b s))
       | Some None \<Rightarrow>
           (case bget_lru NBUF (prv (bufs s NBUF)) (bufs s) of
              None \<Rightarrow> Spin
            | Some None \<Rightarrow> Panic ''bget: no buffers''
            | Some (Some b) \<Rightarrow>
                obind (lk_release LkBcache (upd_buf b
                  (\<lambda>q. q\<lparr>dev := d, blockno := bn, bvalid := False, refcnt := 1\<rparr>) s)) (\<lambda>_ s.
                obind (acquiresleep (SlBuf b) s) (\<lambda>_ s. Ok b s))))"

definition disk_rw :: "nat \<Rightarrow> bool \<Rightarrow> 'a bio_state_scheme \<Rightarrow> 'a bio_state_scheme" where
  "disk_rw b write s =
     (let bn = blockno (bufs s b) in
      if write then s\<lparr>disk := (disk s)(bn := data (bufs s b)), writes := writes s @ [(bn, data (bufs s b))]\<rparr>
      else upd_buf b (\<lambda>q. q\<lparr>data := disk s bn\<rparr>) s)"

definition bread :: "u32 \<Rightarrow> u32 \<Rightarrow> 'a bio_state_scheme \<Rightarrow> (nat, 'a bio_state_scheme) outcome" where
  "bread d bn s =
     obind (bget d bn s) (\<lambda>b s.
       if \<not> bvalid (bufs s b) then Ok b (upd_buf b (\<lambda>q. q\<lparr>bvalid := True\<rparr>) (disk_rw b False s))
       else Ok b s)"

definition bwrite :: "nat \<Rightarrow> 'a bio_state_scheme \<Rightarrow> (unit, 'a bio_state_scheme) outcome" where
  "bwrite b s =
     obind (holdingsleep (SlBuf b) s) (\<lambda>h s.
       if \<not> h then Panic ''bwrite'' else Ok () (disk_rw b True s))"

text \<open>The list surgery of \<open>brelse\<close>: take \<open>b\<close> out and put it in front.\<close>

definition lru_front :: "nat \<Rightarrow> 'a bio_state_scheme \<Rightarrow> 'a bio_state_scheme" where
  "lru_front b s =
     (let s = upd_buf (nxt (bufs s b)) (\<lambda>q. q\<lparr>prv := prv (bufs s b)\<rparr>) s;
          s = upd_buf (prv (bufs s b)) (\<lambda>q. q\<lparr>nxt := nxt (bufs s b)\<rparr>) s;
          s = upd_buf b (\<lambda>q. q\<lparr>nxt := nxt (bufs s NBUF)\<rparr>) s;
          s = upd_buf b (\<lambda>q. q\<lparr>prv := NBUF\<rparr>) s;
          s = upd_buf (nxt (bufs s NBUF)) (\<lambda>q. q\<lparr>prv := b\<rparr>) s
      in upd_buf NBUF (\<lambda>q. q\<lparr>nxt := b\<rparr>) s)"

definition brelse :: "nat \<Rightarrow> 'a bio_state_scheme \<Rightarrow> (unit, 'a bio_state_scheme) outcome" where
  "brelse b s =
     obind (holdingsleep (SlBuf b) s) (\<lambda>h s.
       if \<not> h then Panic ''brelse''
       else obind (releasesleep (SlBuf b) s) (\<lambda>_ s.
         obind (lk_acquire LkBcache s) (\<lambda>_ s.
         let s = upd_buf b (\<lambda>q. q\<lparr>refcnt := refcnt q - 1\<rparr>) s;
             s = (if refcnt (bufs s b) = 0 then lru_front b s else s)
         in lk_release LkBcache s)))"

definition bpin :: "nat \<Rightarrow> 'a bio_state_scheme \<Rightarrow> (unit, 'a bio_state_scheme) outcome" where
  "bpin b s =
     obind (lk_acquire LkBcache s) (\<lambda>_ s.
     lk_release LkBcache (upd_buf b (\<lambda>q. q\<lparr>refcnt := refcnt q + 1\<rparr>) s))"

definition bunpin :: "nat \<Rightarrow> 'a bio_state_scheme \<Rightarrow> (unit, 'a bio_state_scheme) outcome" where
  "bunpin b s =
     obind (lk_acquire LkBcache s) (\<lambda>_ s.
     lk_release LkBcache (upd_buf b (\<lambda>q. q\<lparr>refcnt := refcnt q - 1\<rparr>) s))"

section \<open>The LRU list\<close>

declare bget_find.simps [simp del] bget_lru.simps [simp del]

text \<open>\<open>seg nx pv a xs b\<close>: from node \<open>a\<close> the links lead through \<open>xs\<close> to node \<open>b\<close> and back.\<close>

fun seg :: "(nat \<Rightarrow> nat) \<Rightarrow> (nat \<Rightarrow> nat) \<Rightarrow> nat \<Rightarrow> nat list \<Rightarrow> nat \<Rightarrow> bool" where
  "seg nx pv a [] b \<longleftrightarrow> nx a = b \<and> pv b = a"
| "seg nx pv a (x # xs) b \<longleftrightarrow> nx a = x \<and> pv x = a \<and> seg nx pv x xs b"

lemma seg_append:
  "seg nx pv a (xs @ y # ys) b \<longleftrightarrow> seg nx pv a xs y \<and> seg nx pv y ys b"
  by (induction xs arbitrary: a) auto

lemma seg_frame:
  assumes "seg nx pv a xs b" and "\<And>x. x \<in> set (a # xs) \<Longrightarrow> nx' x = nx x"
    and "\<And>x. x \<in> set (xs @ [b]) \<Longrightarrow> pv' x = pv x"
  shows "seg nx' pv' a xs b"
  using assms by (induction xs arbitrary: a) auto

lemma seg_last: "seg nx pv a xs b \<Longrightarrow> nx (last (a # xs)) = b"
  by (induction xs arbitrary: a) auto

lemma seg_hd: "seg nx pv a xs b \<Longrightarrow> nx a = hd (xs @ [b])"
  by (cases xs) auto

lemma seg_pv: "seg nx pv a xs b \<Longrightarrow> pv b = last (a # xs)"
  by (induction xs arbitrary: a) auto

lemma seg_remove:
  assumes "seg nx pv a (ys @ b # zs) c" and "distinct (ys @ b # zs)"
    and "a \<notin> set (ys @ b # zs)" and "c \<notin> set (ys @ b # zs)"
  shows "seg (nx(pv b := nx b)) (pv(nx b := pv b)) a (ys @ zs) c"
  using assms
proof (induction ys arbitrary: a)
  case Nil
  then have b: "nx a = b" "pv b = a" "seg nx pv b zs c" by auto
  show ?case
  proof (cases zs)
    case Nil
    with b show ?thesis by simp
  next
    case (Cons z zs')
    with b have z: "nx b = z" "seg nx pv z zs' c" by auto
    have "a \<notin> set (z # zs')" "z \<notin> set zs'" "c \<noteq> z"
      using Nil.prems(2-4) Cons by simp_all
    then have "seg (nx(a := z)) (pv(z := a)) z zs' c"
      by (intro seg_frame [OF z(2)]) auto
    then show ?thesis
      unfolding Cons append_Nil seg.simps b(2) z(1) by (simp only: fun_upd_same simp_thms)
  qed
next
  case (Cons y ys)
  have s: "nx a = y" "pv y = a" "seg nx pv y (ys @ b # zs) c" using Cons.prems by auto
  have ih: "seg (nx(pv b := nx b)) (pv(nx b := pv b)) y (ys @ zs) c"
    using Cons.prems s(3) by (intro Cons.IH) auto
  have "pv b = last (y # ys)" "nx b = hd (zs @ [c])"
    using s(3) seg_pv [of nx pv y ys b] seg_hd [of nx pv b zs c] by (auto simp: seg_append)
  then have "pv b \<noteq> a" "nx b \<noteq> y"
    using Cons.prems by (auto split: if_splits) (cases zs; auto)+
  with ih s show ?case
    unfolding append_Cons seg.simps by (simp only: fun_upd_other simp_thms not_sym)
qed

lemma seg_insert:
  assumes "seg nx pv h ws h" and "b \<notin> set ws" and "b \<noteq> h" and "h \<notin> set ws" and "distinct ws"
  shows "seg (nx(b := nx h, h := b)) (pv(b := h, nx h := b)) h (b # ws) h"
proof (cases ws)
  case Nil
  with assms show ?thesis by simp
next
  case (Cons w ws')
  then have w: "nx h = w" "pv w = h" "seg nx pv w ws' h" using assms(1) by auto
  have "seg (nx(b := w, h := b)) (pv(b := h, w := b)) w ws' h"
    using assms Cons w by (intro seg_frame [OF w(3)]) auto
  then show ?thesis using assms Cons w by auto
qed

definition lru :: "(nat \<Rightarrow> buf) \<Rightarrow> nat list \<Rightarrow> bool" where
  "lru bs xs \<longleftrightarrow> seg (\<lambda>i. nxt (bs i)) (\<lambda>i. prv (bs i)) NBUF xs NBUF \<and> distinct xs \<and> set xs = {..<NBUF}"

lemma bget_find_seg:
  assumes "seg (\<lambda>i. nxt (bs i)) (\<lambda>i. prv (bs i)) a xs NBUF" and "NBUF \<notin> set xs" and "length xs \<le> n"
  shows "bget_find n d bn (nxt (bs a)) bs = Some (find (\<lambda>b. dev (bs b) = d \<and> blockno (bs b) = bn) xs)"
  using assms
proof (induction xs arbitrary: a n)
  case Nil
  then show ?case by (subst bget_find.simps) simp
next
  case (Cons x xs)
  then obtain m where n: "n = Suc m" by (cases n) auto
  with Cons show ?case by (subst bget_find.simps) auto
qed

lemma bget_lru_seg:
  assumes "seg (\<lambda>i. nxt (bs i)) (\<lambda>i. prv (bs i)) NBUF xs b" and "NBUF \<notin> set xs" and "length xs \<le> n"
  shows "bget_lru n (prv (bs b)) bs = Some (find (\<lambda>b. refcnt (bs b) = 0) (rev xs))"
  using assms
proof (induction xs arbitrary: b n rule: rev_induct)
  case Nil
  then show ?case by (subst bget_lru.simps) simp
next
  case (snoc x xs)
  then obtain m where n: "n = Suc m" by (cases n) auto
  with snoc show ?case by (subst bget_lru.simps) (auto simp: seg_append)
qed

definition nx :: "'a bio_state_scheme \<Rightarrow> nat \<Rightarrow> nat" where
  "nx s = (\<lambda>i. nxt (bufs s i))"

definition pv :: "'a bio_state_scheme \<Rightarrow> nat \<Rightarrow> nat" where
  "pv s = (\<lambda>i. prv (bufs s i))"

lemma links_upd:
  "nx (upd_buf j (\<lambda>q. q\<lparr>nxt := v\<rparr>) s) = (nx s)(j := v)" "nx (upd_buf j (\<lambda>q. q\<lparr>prv := v\<rparr>) s) = nx s"
  "pv (upd_buf j (\<lambda>q. q\<lparr>prv := v\<rparr>) s) = (pv s)(j := v)" "pv (upd_buf j (\<lambda>q. q\<lparr>nxt := v\<rparr>) s) = pv s"
  by (auto simp: nx_def pv_def upd_buf_def fun_eq_iff)

text \<open>Two states that differ only in the links of their buffers.\<close>

definition same_bufs :: "'a bio_state_scheme \<Rightarrow> 'a bio_state_scheme \<Rightarrow> bool" where
  "same_bufs s t \<longleftrightarrow> t = s\<lparr>bufs := bufs t\<rparr> \<and> (\<forall>i. bvalid (bufs t i) = bvalid (bufs s i) \<and>
     dev (bufs t i) = dev (bufs s i) \<and> blockno (bufs t i) = blockno (bufs s i) \<and>
     refcnt (bufs t i) = refcnt (bufs s i) \<and> data (bufs t i) = data (bufs s i))"

lemma same_bufs_upd:
  "same_bufs s t \<Longrightarrow> same_bufs s (upd_buf j (\<lambda>q. q\<lparr>nxt := v\<rparr>) t)"
  "same_bufs s t \<Longrightarrow> same_bufs s (upd_buf j (\<lambda>q. q\<lparr>prv := v\<rparr>) t)"
  by (cases s, cases t, simp add: same_bufs_def upd_buf_def)+

lemma lru_front_same: "same_bufs s (lru_front b s)"
  unfolding lru_front_def Let_def by (intro same_bufs_upd) (simp add: same_bufs_def)

lemma lru_front_links:
  assumes "b \<noteq> NBUF"
  shows "nx (lru_front b s) = (nx s)(pv s b := nx s b, b := ((nx s)(pv s b := nx s b)) NBUF, NBUF := b)"
    "pv (lru_front b s) = (pv s)(nx s b := pv s b, b := NBUF, ((nx s)(pv s b := nx s b)) NBUF := b)"
proof -
  have e: "nxt (bufs u i) = nx u i" "prv (bufs u i) = pv u i" for u :: "'a bio_state_scheme" and i
    by (simp_all add: nx_def pv_def)
  have nb: "NBUF \<noteq> b" using assms by simp
  have p: "((pv s)(nx s b := pv s b)) b = pv s b" by simp
  show "nx (lru_front b s) = (nx s)(pv s b := nx s b, b := ((nx s)(pv s b := nx s b)) NBUF, NBUF := b)"
    "pv (lru_front b s) = (pv s)(nx s b := pv s b, b := NBUF, ((nx s)(pv s b := nx s b)) NBUF := b)"
    unfolding lru_front_def Let_def e
    by (simp_all only: links_upd p fun_upd_other [OF nb])
qed

lemma lru_front_lru:
  assumes "lru (bufs s) xs" and "b < NBUF"
  shows "\<exists>ys. lru (bufs (lru_front b s)) (b # ys)"
proof -
  have "b \<in> set xs" using assms by (simp add: lru_def)
  then obtain ys zs where xs: "xs = ys @ b # zs" by (auto simp: in_set_conv_decomp)
  have d: "distinct (ys @ b # zs)" "set (ys @ b # zs) = {..<NBUF}" "seg (nx s) (pv s) NBUF (ys @ b # zs) NBUF"
    using assms(1) unfolding lru_def xs nx_def pv_def by blast+
  have N: "NBUF \<notin> set (ys @ b # zs)" unfolding d(2) by simp
  have r: "seg ((nx s)(pv s b := nx s b)) ((pv s)(nx s b := pv s b)) NBUF (ys @ zs) NBUF"
    by (rule seg_remove [OF d(3,1) N N])
  have "seg (nx (lru_front b s)) (pv (lru_front b s)) NBUF (b # ys @ zs) NBUF"
    unfolding lru_front_links [OF less_imp_neq [OF assms(2)], of s]
    by (rule seg_insert [OF r]) (use d(1) N assms(2) in auto)
  moreover have "distinct (b # ys @ zs)" "set (b # ys @ zs) = {..<NBUF}"
    using d by auto
  ultimately show ?thesis unfolding lru_def nx_def pv_def by blast
qed

section \<open>The cache as a block store\<close>

text \<open>
  The buffer that caches block \<open>bn\<close>, and what the cache shows for a block: its current contents,
  the number of references, and the buffer the process \<open>p\<close> has locked.
\<close>

definition is_buf :: "'a bio_state_scheme \<Rightarrow> u32 \<Rightarrow> nat \<Rightarrow> bool" where
  "is_buf s bn i \<longleftrightarrow> dev (bufs s i) = ROOTDEV \<and> blockno (bufs s i) = bn"

definition idx :: "'a bio_state_scheme \<Rightarrow> u32 \<Rightarrow> nat option" where
  "idx s bn = find (is_buf s bn) [0..<NBUF]"

definition content :: "'a bio_state_scheme \<Rightarrow> u32 \<Rightarrow> bytes" where
  "content s bn = (case idx s bn of None \<Rightarrow> disk s bn
     | Some i \<Rightarrow> if bvalid (bufs s i) then data (bufs s i) else disk s bn)"

definition refs :: "'a bio_state_scheme \<Rightarrow> u32 \<Rightarrow> nat" where
  "refs s bn = (case idx s bn of None \<Rightarrow> 0 | Some i \<Rightarrow> unat (refcnt (bufs s i)))"

definition hold :: "nat \<Rightarrow> 'a bio_state_scheme \<Rightarrow> u32 \<Rightarrow> nat option" where
  "hold p s bn = (case idx s bn of None \<Rightarrow> None
     | Some i \<Rightarrow> if sleeplocks s (SlBuf i) = my_lock p s \<and> bvalid (bufs s i) then Some i else None)"

definition unlocked :: "'a bio_state_scheme \<Rightarrow> u32 \<Rightarrow> bool" where
  "unlocked s bn \<longleftrightarrow> (\<forall>i. idx s bn = Some i \<longrightarrow> \<not> locked (sleeplocks s (SlBuf i)))"

definition bcache_ok :: "'a bio_state_scheme \<Rightarrow> bool" where
  "bcache_ok s \<longleftrightarrow> (\<exists>xs. lru (bufs s) xs) \<and>
     (\<forall>i < NBUF. \<forall>j < NBUF. dev (bufs s i) = ROOTDEV \<longrightarrow> dev (bufs s j) = ROOTDEV \<longrightarrow>
        blockno (bufs s i) = blockno (bufs s j) \<longrightarrow> i = j) \<and>
     (\<forall>i < NBUF. bvalid (bufs s i) \<or> refcnt (bufs s i) \<noteq> 0 \<longrightarrow> dev (bufs s i) = ROOTDEV) \<and>
     (\<forall>i < NBUF. bvalid (bufs s i) \<longrightarrow> refcnt (bufs s i) = 0 \<longrightarrow>
        data (bufs s i) = disk s (blockno (bufs s i))) \<and>
     (\<forall>i < NBUF. locked (sleeplocks s (SlBuf i)) \<longrightarrow> refcnt (bufs s i) \<noteq> 0)"

lemma find_Some_iff_unique:
  assumes "inj_on (\<lambda>_. ()) {b \<in> set xs. P b}"
  shows "find P xs = Some i \<longleftrightarrow> P i \<and> i \<in> set xs"
  using assms by (induction xs) (auto simp: inj_on_def)

lemma idx_iff:
  assumes "bcache_ok s"
  shows "idx s bn = Some i \<longleftrightarrow> i < NBUF \<and> is_buf s bn i"
proof -
  have u: "i = j" if "i < NBUF" "j < NBUF" "is_buf s bn i" "is_buf s bn j" for i j
    using assms that unfolding bcache_ok_def is_buf_def by (metis (no_types, lifting))
  show ?thesis
    unfolding idx_def by (subst find_Some_iff_unique) (auto intro: u inj_onI simp del: NBUF_def)
qed

lemma idx_None: "idx s bn = None \<longleftrightarrow> (\<forall>i < NBUF. \<not> is_buf s bn i)"
  by (auto simp: idx_def find_None_iff simp del: NBUF_def)

lemma is_buf_unique:
  "bcache_ok s \<Longrightarrow> i < NBUF \<Longrightarrow> j < NBUF \<Longrightarrow> is_buf s bn i \<Longrightarrow> is_buf s bn j \<Longrightarrow> i = j"
  using idx_iff [of s bn i] idx_iff [of s bn j] by simp

text \<open>A block is found in the cache, or else some buffer is unreferenced as long as fewer than NBUF blocks are.\<close>

definition in_use :: "'a bio_state_scheme \<Rightarrow> u32 set" where
  "in_use s = {bn. refs s bn \<noteq> 0}"

lemma free_buf:
  assumes ok: "bcache_ok s" and "card (in_use s) < NBUF"
  shows "\<exists>i < NBUF. refcnt (bufs s i) = 0"
proof (rule ccontr)
  assume "\<not> ?thesis"
  then have r: "refcnt (bufs s i) \<noteq> 0" if "i < NBUF" for i using that by blast
  then have b: "is_buf s (blockno (bufs s i)) i" if "i < NBUF" for i
    using ok that unfolding bcache_ok_def is_buf_def by blast
  have inj: "inj_on (\<lambda>i. blockno (bufs s i)) {..<NBUF}"
    using is_buf_unique [OF ok] b by (intro inj_onI) (metis lessThan_iff)
  have "(\<lambda>i. blockno (bufs s i)) ` {..<NBUF} \<subseteq> in_use s"
  proof
    fix bn assume "bn \<in> (\<lambda>i. blockno (bufs s i)) ` {..<NBUF}"
    then obtain i where i: "i < NBUF" "bn = blockno (bufs s i)" by auto
    then have "idx s bn = Some i" using idx_iff [OF ok] b by simp
    with r [OF i(1)] show "bn \<in> in_use s"
      by (simp add: in_use_def refs_def unat_gt_0)
  qed
  moreover have "finite (in_use s)"
  proof (rule finite_subset)
    show "in_use s \<subseteq> (\<lambda>i. blockno (bufs s i)) ` {..<NBUF}"
      using idx_iff [OF ok] by (auto simp: in_use_def refs_def is_buf_def split: option.splits)
  qed simp
  ultimately have "card ((\<lambda>i. blockno (bufs s i)) ` {..<NBUF}) \<le> card (in_use s)"
    by (intro card_mono)
  with card_image [OF inj] assms(2) show False by simp
qed

subsection \<open>Reading a block\<close>

lemma bget_hit:
  assumes run: "running p s" and ok: "bcache_ok s" and i: "idx s bn = Some i" and un: "unlocked s bn"
  shows "bget ROOTDEV bn s = Ok i ((upd_buf i (\<lambda>q. q\<lparr>refcnt := refcnt q + 1\<rparr>) s)
    \<lparr>sleeplocks := (sleeplocks s)(SlBuf i := my_lock p s)\<rparr>)"
proof -
  obtain xs where xs: "lru (bufs s) xs" using ok by (auto simp: bcache_ok_def)
  have b: "i < NBUF" "is_buf s bn i" using idx_iff [OF ok] i by simp_all
  have u: "j = i" if "j \<in> set xs" "is_buf s bn j" for j
    using that xs is_buf_unique [OF ok] b by (auto simp: lru_def simp del: NBUF_def)
  have st: "set xs = {..<NBUF}" using xs by (simp only: lru_def)
  have "find (is_buf s bn) xs = Some i \<longleftrightarrow> is_buf s bn i \<and> i \<in> set xs"
    by (rule find_Some_iff_unique, rule inj_onI) (use u in \<open>simp, metis\<close>)
  then have "find (is_buf s bn) xs = Some i"
    using b unfolding st by simp
  then have f: "bget_find NBUF ROOTDEV bn (nxt (bufs s NBUF)) (bufs s) = Some (Some i)"
    using xs by (subst bget_find_seg [where xs = xs])
      (auto simp: lru_def is_buf_def [abs_def] distinct_card [symmetric] simp del: NBUF_def)
  define s1 where "s1 = upd_buf i (\<lambda>q. q\<lparr>refcnt := refcnt q + 1\<rparr>) s"
  have s1: "running p s1" "\<not> locked (sleeplocks s1 (SlBuf i))" "my_lock p s1 = my_lock p s"
    "sleeplocks s1 = sleeplocks s"
    using run un i by (auto simp: s1_def upd_buf_def running_def unlocked_def my_lock_def)
  have "held s = {}" using run by (simp add: running_def)
  then have "bget ROOTDEV bn s = obind (acquiresleep (SlBuf i) s1) (\<lambda>_ s. Ok i s)"
    using f by (simp add: bget_def s1_def upd_buf_def del: ROOTDEV_def)
  then show ?thesis
    using acquiresleep_free [OF s1(1,2)] s1(3,4) by (simp add: s1_def)
qed

lemma bget_miss:
  assumes run: "running p s" and ok: "bcache_ok s" and i: "idx s bn = None" and c: "card (in_use s) < NBUF"
  obtains i where "i < NBUF" "refcnt (bufs s i) = 0"
    "bget ROOTDEV bn s = Ok i ((upd_buf i
      (\<lambda>q. q\<lparr>dev := ROOTDEV, blockno := bn, bvalid := False, refcnt := 1\<rparr>) s)
      \<lparr>sleeplocks := (sleeplocks s)(SlBuf i := my_lock p s)\<rparr>)"
proof -
  obtain xs where xs: "lru (bufs s) xs" using ok by (auto simp: bcache_ok_def)
  have "find (is_buf s bn) xs = None"
    using xs i by (auto simp: lru_def find_None_iff idx_None simp del: NBUF_def)
  then have f: "bget_find NBUF ROOTDEV bn (nxt (bufs s NBUF)) (bufs s) = Some None"
    using xs by (subst bget_find_seg [where xs = xs])
      (auto simp: lru_def is_buf_def [abs_def] distinct_card [symmetric] simp del: NBUF_def)
  obtain k where k: "k < NBUF" "refcnt (bufs s k) = 0" using free_buf [OF ok c] by blast
  then have "find (\<lambda>b. refcnt (bufs s b) = 0) (rev xs) \<noteq> None"
    using xs by (auto simp: find_None_iff lru_def simp del: NBUF_def)
  then obtain j where j: "find (\<lambda>b. refcnt (bufs s b) = 0) (rev xs) = Some j" by blast
  then have jn: "j < NBUF" "refcnt (bufs s j) = 0"
    using xs by (auto simp: find_Some_iff lru_def simp del: NBUF_def)
      (metis lessThan_iff nth_mem length_rev set_rev)
  have l: "bget_lru NBUF (prv (bufs s NBUF)) (bufs s) = Some (Some j)"
    using xs j by (subst bget_lru_seg [where xs = xs])
      (auto simp: lru_def distinct_card [symmetric] simp del: NBUF_def)
  define s1 where "s1 = upd_buf j
    (\<lambda>q. q\<lparr>dev := ROOTDEV, blockno := bn, bvalid := False, refcnt := 1\<rparr>) s"
  have "\<not> locked (sleeplocks s (SlBuf j))"
    using ok jn by (auto simp: bcache_ok_def simp del: NBUF_def)
  then have s1: "running p s1" "\<not> locked (sleeplocks s1 (SlBuf j))" "my_lock p s1 = my_lock p s"
    "sleeplocks s1 = sleeplocks s"
    using run by (auto simp: s1_def upd_buf_def running_def my_lock_def)
  have "held s = {}" using run by (simp add: running_def)
  then have "bget ROOTDEV bn s = obind (acquiresleep (SlBuf j) s1) (\<lambda>_ s. Ok j s)"
    using f l by (simp add: bget_def s1_def upd_buf_def del: ROOTDEV_def)
  then show thesis
    using acquiresleep_free [OF s1(1,2)] s1(3,4) that [of j] jn by (simp add: s1_def)
qed

text \<open>
  Replacing the contents of one buffer that caches \<open>bn\<close>, or that is free to cache it, and its
  sleep-lock.
\<close>

definition fits :: "'a bio_state_scheme \<Rightarrow> u32 \<Rightarrow> nat \<Rightarrow> buf \<Rightarrow> sleeplock \<Rightarrow> bool" where
  "fits s bn i B l \<longleftrightarrow> bcache_ok s \<and> i < NBUF \<and>
     (is_buf s bn i \<or> idx s bn = None \<and> refcnt (bufs s i) = 0) \<and>
     prv B = prv (bufs s i) \<and> nxt B = nxt (bufs s i) \<and>
     dev B = ROOTDEV \<and> blockno B = bn \<and> bvalid B \<and>
     (refcnt B = 0 \<longrightarrow> data B = disk s bn \<and> \<not> locked l)"

definition put_buf :: "nat \<Rightarrow> buf \<Rightarrow> sleeplock \<Rightarrow> 'a bio_state_scheme \<Rightarrow> 'a bio_state_scheme" where
  "put_buf i B l s = s\<lparr>sleeplocks := (sleeplocks s)(SlBuf i := l), bufs := (bufs s)(i := B)\<rparr>"

lemma put_simps:
  "bufs (put_buf i B l s) = (bufs s)(i := B)"
  "sleeplocks (put_buf i B l s) = (sleeplocks s)(SlBuf i := l)"
  "disk (put_buf i B l s) = disk s" "procs (put_buf i B l s) = procs s"
  by (simp_all add: put_buf_def)

lemma fits_other: "fits s bn i B l \<Longrightarrow> j \<noteq> i \<Longrightarrow> j < NBUF \<Longrightarrow> \<not> is_buf s bn j"
  unfolding fits_def using is_buf_unique [of s i j bn] idx_None [of s bn] by blast

lemma put_lru: "fits s bn i B l \<Longrightarrow> lru (bufs (put_buf i B l s)) = lru (bufs s)"
proof -
  assume f: "fits s bn i B l"
  have "(\<lambda>j. nxt (bufs (put_buf i B l s) j)) = (\<lambda>j. nxt (bufs s j))"
    "(\<lambda>j. prv (bufs (put_buf i B l s) j)) = (\<lambda>j. prv (bufs s j))"
    using f by (auto simp: put_simps fits_def fun_eq_iff)
  then show ?thesis by (simp only: lru_def [abs_def])
qed

lemma put_unique:
  assumes f: "fits s bn i B l" and jk: "j < NBUF" "k < NBUF"
    and d: "dev (((bufs s)(i := B)) j) = ROOTDEV" "dev (((bufs s)(i := B)) k) = ROOTDEV"
    and b: "blockno (((bufs s)(i := B)) j) = blockno (((bufs s)(i := B)) k)"
  shows "j = k"
proof -
  have key: "dev B = ROOTDEV" "blockno B = bn" and ok: "bcache_ok s"
    using f by (simp_all only: fits_def)
  show ?thesis
  proof (cases "j = i"; cases "k = i")
    assume "j = i" "k \<noteq> i"
    then have "is_buf s bn k" using d b key by (simp add: is_buf_def)
    then show ?thesis using fits_other [OF f \<open>k \<noteq> i\<close> jk(2)] by simp
  next
    assume "j \<noteq> i" "k = i"
    then have "is_buf s bn j" using d b key by (simp add: is_buf_def)
    then show ?thesis using fits_other [OF f \<open>j \<noteq> i\<close> jk(1)] by simp
  next
    assume "j \<noteq> i" "k \<noteq> i"
    then show ?thesis using d b jk ok unfolding bcache_ok_def by simp
  qed simp
qed

lemma put_ok: "fits s bn i B l \<Longrightarrow> bcache_ok (put_buf i B l s)"
proof -
  assume f: "fits s bn i B l"
  then have ok: "bcache_ok s" and key: "dev B = ROOTDEV" "blockno B = bn" "bvalid B"
    and clean: "refcnt B = 0 \<longrightarrow> data B = disk s bn \<and> \<not> locked l"
    unfolding fits_def by blast+
  have "\<exists>xs. lru (bufs (put_buf i B l s)) xs"
    using ok unfolding put_lru [OF f] bcache_ok_def by blast
  moreover have "\<forall>j < NBUF. bvalid (((bufs s)(i := B)) j) \<or> refcnt (((bufs s)(i := B)) j) \<noteq> 0 \<longrightarrow>
      dev (((bufs s)(i := B)) j) = ROOTDEV"
    using ok key unfolding bcache_ok_def by simp
  moreover have "\<forall>j < NBUF. bvalid (((bufs s)(i := B)) j) \<longrightarrow> refcnt (((bufs s)(i := B)) j) = 0 \<longrightarrow>
      data (((bufs s)(i := B)) j) = disk s (blockno (((bufs s)(i := B)) j))"
    using ok key clean unfolding bcache_ok_def by simp
  moreover have "\<forall>j < NBUF. locked (((sleeplocks s)(SlBuf i := l)) (SlBuf j)) \<longrightarrow>
      refcnt (((bufs s)(i := B)) j) \<noteq> 0"
    using ok clean unfolding bcache_ok_def by (auto simp del: NBUF_def)
  ultimately show ?thesis
    using put_unique [OF f] unfolding bcache_ok_def put_simps by blast
qed

lemma put_idx:
  assumes f: "fits s bn i B l"
  shows "idx (put_buf i B l s) bn' =
    (if bn' = bn then Some i else if idx s bn' = Some i then None else idx s bn')"
proof -
  have i: "i < NBUF" and ok: "bcache_ok s" and key: "dev B = ROOTDEV" "blockno B = bn"
    using f by (simp_all only: fits_def)
  show ?thesis
  proof (cases "bn' = bn")
    case True
    then show ?thesis
      using i key by (simp add: idx_iff [OF put_ok [OF f]] is_buf_def put_simps del: NBUF_def)
  next
    case False
    have e: "idx (put_buf i B l s) bn' = Some j \<longleftrightarrow> idx s bn' = Some j \<and> j \<noteq> i" for j
      using False key unfolding idx_iff [OF put_ok [OF f]] idx_iff [OF ok] is_buf_def put_simps
      by (cases "j = i") simp_all
    show ?thesis
    proof (cases "idx s bn' = None \<or> idx s bn' = Some i")
      case True
      then have "idx (put_buf i B l s) bn' \<noteq> Some j" for j using e [of j] by auto
      then have "idx (put_buf i B l s) bn' = None" by (metis not_None_eq)
      with True False show ?thesis by auto
    next
      case ne: False
      then obtain j where "idx s bn' = Some j" "j \<noteq> i" by auto
      with e [of j] False ne show ?thesis by simp
    qed
  qed
qed

lemma evicted:
  assumes f: "fits s bn i B l" and "idx s bn' = Some i" and "bn' \<noteq> bn"
  shows "refcnt (bufs s i) = 0" "\<not> locked (sleeplocks s (SlBuf i))"
    "bvalid (bufs s i) \<Longrightarrow> data (bufs s i) = disk s bn'"
proof -
  have i: "i < NBUF" and ok: "bcache_ok s"
    and slot: "is_buf s bn i \<or> idx s bn = None \<and> refcnt (bufs s i) = 0"
    using f by (simp_all only: fits_def)
  have b: "is_buf s bn' i" using assms(2) idx_iff [OF ok] by simp
  then show r: "refcnt (bufs s i) = 0"
    using slot assms(3) by (auto simp: is_buf_def)
  show "\<not> locked (sleeplocks s (SlBuf i))"
    using r ok i unfolding bcache_ok_def by blast
  show "data (bufs s i) = disk s bn'" if "bvalid (bufs s i)"
  proof -
    have "data (bufs s i) = disk s (blockno (bufs s i))"
      using that r ok i unfolding bcache_ok_def by blast
    with b show ?thesis by (simp add: is_buf_def)
  qed
qed

lemma put_content:
  assumes f: "fits s bn i B l"
  shows "content (put_buf i B l s) = (content s)(bn := data B)"
proof -
  have "bvalid B" using f by (simp only: fits_def)
  then show ?thesis
    using evicted(3) [OF f] by (auto simp: content_def fun_eq_iff put_idx [OF f] put_simps split: option.splits)
qed

lemma put_refs:
  assumes f: "fits s bn i B l"
  shows "refs (put_buf i B l s) = (refs s)(bn := unat (refcnt B))"
  using evicted(1) [OF f] by (auto simp: refs_def fun_eq_iff put_idx [OF f] put_simps split: option.splits)

lemma put_hold:
  assumes f: "fits s bn i B l"
  shows "hold p (put_buf i B l s) = (hold p s)(bn := if l = my_lock p s then Some i else None)"
proof -
  have m: "my_lock p (put_buf i B l s) = my_lock p s" by (simp add: my_lock_def put_simps)
  have n: "sleeplocks s (SlBuf i) \<noteq> my_lock p s" if "idx s bn' = Some i" "bn' \<noteq> bn" for bn'
    using evicted(2) [OF f that] by (auto simp: my_lock_def)
  have v: "bvalid B" using f by (simp only: fits_def)
  have "hold p (put_buf i B l s) bn' = ((hold p s)(bn := if l = my_lock p s then Some i else None)) bn'"
    for bn'
  proof (cases "bn' = bn")
    case True
    with v show ?thesis by (simp add: hold_def put_idx [OF f] put_simps m)
  next
    case False
    with n [of bn'] show ?thesis
      by (cases "idx s bn'") (simp_all add: hold_def put_idx [OF f] put_simps m)
  qed
  then show ?thesis by (rule ext)
qed

lemma put_unlocked:
  "fits s bn i B l \<Longrightarrow> bn' \<noteq> bn \<Longrightarrow> unlocked s bn' \<Longrightarrow> unlocked (put_buf i B l s) bn'"
  by (auto simp: unlocked_def put_idx put_simps)

lemma bufs_sl_commute: "s\<lparr>bufs := x, sleeplocks := y\<rparr> = s\<lparr>sleeplocks := y, bufs := x\<rparr>"
  by simp

lemma bread_ensures:
  assumes run: "running p s" and ok: "bcache_ok s" and un: "unlocked s bn"
    and room: "refs s bn \<noteq> 0 \<or> card (in_use s) < NBUF" and r: "refs s bn + 1 < 2 ^ 32"
  obtains b B where "bread ROOTDEV bn s = Ok b (put_buf b B (my_lock p s) s)"
    "fits s bn b B (my_lock p s)" "data B = content s bn" "unat (refcnt B) = refs s bn + 1"
proof (cases "idx s bn")
  case None
  have "refs s bn = 0" using None by (simp add: refs_def)
  with room have c: "card (in_use s) < NBUF" by simp
  obtain i where i: "i < NBUF" "refcnt (bufs s i) = 0"
    "bget ROOTDEV bn s = Ok i ((upd_buf i
      (\<lambda>q. q\<lparr>dev := ROOTDEV, blockno := bn, bvalid := False, refcnt := 1\<rparr>) s)
      \<lparr>sleeplocks := (sleeplocks s)(SlBuf i := my_lock p s)\<rparr>)"
    by (rule bget_miss [OF run ok None c])
  let ?B = "(bufs s i)\<lparr>dev := ROOTDEV, blockno := bn, refcnt := 1, data := disk s bn, bvalid := True\<rparr>"
  show thesis
  proof (rule that)
    show "bread ROOTDEV bn s = Ok i (put_buf i ?B (my_lock p s) s)"
      using i(3) by (simp add: bread_def disk_rw_def Let_def upd_buf_def put_buf_def del: ROOTDEV_def)
    show "fits s bn i ?B (my_lock p s)"
      using ok i None by (simp add: fits_def del: ROOTDEV_def NBUF_def)
    show "data ?B = content s bn" using None by (simp add: content_def)
    show "unat (refcnt ?B) = refs s bn + 1" using None by (simp add: refs_def)
  qed
next
  case (Some i)
  then have i: "i < NBUF" "is_buf s bn i" using idx_iff [OF ok] by simp_all
  have bn: "blockno (bufs s i) = bn" using i by (simp add: is_buf_def)
  let ?B = "(bufs s i)\<lparr>refcnt := refcnt (bufs s i) + 1, data := content s bn, bvalid := True\<rparr>"
  have u: "unat (refcnt (bufs s i) + 1) = refs s bn + 1"
    using r Some by (simp add: refs_def unat_word_ariths)
  show thesis
  proof (rule that)
    show "bread ROOTDEV bn s = Ok i (put_buf i ?B (my_lock p s) s)"
    proof (cases "bvalid (bufs s i)")
      case True
      then have eq: "?B = (bufs s i)\<lparr>refcnt := refcnt (bufs s i) + 1\<rparr>"
        using Some by (cases "bufs s i") (simp add: content_def)
      show ?thesis
        unfolding eq bread_def bget_hit [OF run ok Some un] put_buf_def upd_buf_def bufs_sl_commute
        using True by simp
    next
      case False
      then show ?thesis
        unfolding bread_def bget_hit [OF run ok Some un] put_buf_def upd_buf_def bufs_sl_commute
        using Some bn by (simp add: disk_rw_def Let_def upd_buf_def content_def)
    qed
    have "refcnt (bufs s i) + 1 \<noteq> 0" using u by (metis Suc_eq_plus1 nat.distinct(1) unsigned_0)
    then show "fits s bn i ?B (my_lock p s)"
      using ok i by (simp add: fits_def is_buf_def del: ROOTDEV_def NBUF_def)
    show "data ?B = content s bn" by simp
    show "unat (refcnt ?B) = refs s bn + 1" using u by simp
  qed
qed

lemma hold_idx:
  assumes "bcache_ok s" and "hold p s bn = Some b"
  shows "idx s bn = Some b" "b < NBUF" "is_buf s bn b" "bvalid (bufs s b)"
    "sleeplocks s (SlBuf b) = my_lock p s" "refcnt (bufs s b) \<noteq> 0" "data (bufs s b) = content s bn"
    "unat (refcnt (bufs s b)) = refs s bn"
proof -
  show ix: "idx s bn = Some b" and v: "bvalid (bufs s b)" and l: "sleeplocks s (SlBuf b) = my_lock p s"
    using assms(2) by (auto simp: hold_def split: option.splits if_splits)
  show b: "b < NBUF" "is_buf s bn b" using ix idx_iff [OF assms(1)] by simp_all
  have "locked (sleeplocks s (SlBuf b))" using l by (simp add: my_lock_def)
  then show "refcnt (bufs s b) \<noteq> 0"
    using assms(1) b(1) unfolding bcache_ok_def by blast
  show "data (bufs s b) = content s bn" using ix v by (simp add: content_def)
  show "unat (refcnt (bufs s b)) = refs s bn" using ix by (simp add: refs_def)
qed

section \<open>The contract of the cache\<close>

text \<open>
  What a client sees of the cache, per block: the current contents, the contents on disk, the
  number of references, the buffer through which the client itself holds the block locked,
  whether anybody has it locked, and the history of disk writes.
\<close>

record bview =
  vcontent :: "u32 \<Rightarrow> bytes"
  vdisk :: "u32 \<Rightarrow> bytes"
  vrefs :: "u32 \<Rightarrow> nat"
  vhold :: "u32 \<Rightarrow> nat option"
  vlocked :: "u32 \<Rightarrow> bool"
  vwrites :: "(u32 \<times> bytes) list"

definition vroom :: "bview \<Rightarrow> u32 \<Rightarrow> bool" where
  "vroom v bn \<longleftrightarrow> vrefs v bn + 1 < 2 ^ 32 \<and> (vrefs v bn \<noteq> 0 \<or> card {bn. vrefs v bn \<noteq> 0} < NBUF)"

definition v_read :: "u32 \<Rightarrow> nat \<Rightarrow> bview \<Rightarrow> bview" where
  "v_read bn b v = v\<lparr>vrefs := (vrefs v)(bn := vrefs v bn + 1), vhold := (vhold v)(bn := Some b),
     vlocked := (vlocked v)(bn := True)\<rparr>"

definition v_set :: "u32 \<Rightarrow> bytes \<Rightarrow> bview \<Rightarrow> bview" where
  "v_set bn d v = v\<lparr>vcontent := (vcontent v)(bn := d)\<rparr>"

definition v_write :: "u32 \<Rightarrow> bview \<Rightarrow> bview" where
  "v_write bn v = v\<lparr>vdisk := (vdisk v)(bn := vcontent v bn), vwrites := vwrites v @ [(bn, vcontent v bn)]\<rparr>"

definition v_release :: "u32 \<Rightarrow> bview \<Rightarrow> bview" where
  "v_release bn v = v\<lparr>vrefs := (vrefs v)(bn := vrefs v bn - 1), vhold := (vhold v)(bn := None),
     vlocked := (vlocked v)(bn := False)\<rparr>"

definition v_pin :: "u32 \<Rightarrow> bview \<Rightarrow> bview" where
  "v_pin bn v = v\<lparr>vrefs := (vrefs v)(bn := vrefs v bn + 1)\<rparr>"

definition v_unpin :: "u32 \<Rightarrow> bview \<Rightarrow> bview" where
  "v_unpin bn v = v\<lparr>vrefs := (vrefs v)(bn := vrefs v bn - 1)\<rparr>"

definition bview_of :: "nat \<Rightarrow> 'a bio_state_scheme \<Rightarrow> bview" where
  "bview_of p s = \<lparr>vcontent = content s, vdisk = disk s, vrefs = refs s, vhold = hold p s,
     vlocked = (\<lambda>bn. \<not> unlocked s bn), vwrites = writes s\<rparr>"

definition bio_inv :: "nat \<Rightarrow> 'a bio_state_scheme \<Rightarrow> bool" where
  "bio_inv p s \<longleftrightarrow> running p s \<and> bcache_ok s"

definition bio_rest :: "nat \<Rightarrow> 'a bio_state_scheme \<Rightarrow> bytes \<times> u64 \<times> u64 \<times> proc \<times> 'a" where
  "bio_rest p s = (mem s, freelist s, kend s, procs s p, bio_state.more s)"

definition set_data :: "nat \<Rightarrow> bytes \<Rightarrow> 'a bio_state_scheme \<Rightarrow> 'a bio_state_scheme" where
  "set_data b d s = upd_buf b (\<lambda>q. q\<lparr>data := d\<rparr>) s"

definition get_data :: "nat \<Rightarrow> 'a bio_state_scheme \<Rightarrow> bytes" where
  "get_data b s = data (bufs s b)"

locale block_cache =
  fixes rd :: "u32 \<Rightarrow> 's \<Rightarrow> (nat, 's) outcome"
    and wr rel pin unpin :: "nat \<Rightarrow> 's \<Rightarrow> (unit, 's) outcome"
    and setd :: "nat \<Rightarrow> bytes \<Rightarrow> 's \<Rightarrow> 's" and getd :: "nat \<Rightarrow> 's \<Rightarrow> bytes"
    and view :: "'s \<Rightarrow> bview" and inv :: "'s \<Rightarrow> bool" and rest :: "'s \<Rightarrow> 'r"
  assumes rd: "inv s \<Longrightarrow> \<not> vlocked (view s) bn \<Longrightarrow> vroom (view s) bn \<Longrightarrow>
      ensures (rd bn s) (\<lambda>b t. inv t \<and> view t = v_read bn b (view s) \<and> rest t = rest s)"
    and getd: "inv s \<Longrightarrow> vhold (view s) bn = Some b \<Longrightarrow> getd b s = vcontent (view s) bn"
    and setd: "inv s \<Longrightarrow> vhold (view s) bn = Some b \<Longrightarrow>
      inv (setd b d s) \<and> view (setd b d s) = v_set bn d (view s) \<and> rest (setd b d s) = rest s"
    and wr: "inv s \<Longrightarrow> vhold (view s) bn = Some b \<Longrightarrow>
      ensures (wr b s) (\<lambda>_ t. inv t \<and> view t = v_write bn (view s) \<and> rest t = rest s)"
    and rel: "inv s \<Longrightarrow> vhold (view s) bn = Some b \<Longrightarrow>
      (vrefs (view s) bn = 1 \<longrightarrow> vcontent (view s) bn = vdisk (view s) bn) \<Longrightarrow>
      ensures (rel b s) (\<lambda>_ t. inv t \<and> view t = v_release bn (view s) \<and> rest t = rest s)"
    and pin: "inv s \<Longrightarrow> vhold (view s) bn = Some b \<Longrightarrow> vrefs (view s) bn + 1 < 2 ^ 32 \<Longrightarrow>
      ensures (pin b s) (\<lambda>_ t. inv t \<and> view t = v_pin bn (view s) \<and> rest t = rest s)"
    and unpin: "inv s \<Longrightarrow> vhold (view s) bn = Some b \<Longrightarrow> 2 \<le> vrefs (view s) bn \<Longrightarrow>
      ensures (unpin b s) (\<lambda>_ t. inv t \<and> view t = v_unpin bn (view s) \<and> rest t = rest s)"
    and clean: "inv s \<Longrightarrow> vrefs (view s) bn = 0 \<Longrightarrow> vcontent (view s) bn = vdisk (view s) bn"
    and free: "inv s \<Longrightarrow> \<not> vlocked (view s) bn \<Longrightarrow> vhold (view s) bn = None"

section \<open>What clients do with blocks\<close>

text \<open>
  Proved once for every provider of the contract: reading a block, updating a block in place on
  disk, and copying one block to another, which is all the log does.
\<close>

definition v_store :: "u32 \<Rightarrow> bytes \<Rightarrow> bview \<Rightarrow> bview" where
  "v_store bn d v = v\<lparr>vcontent := (vcontent v)(bn := d), vdisk := (vdisk v)(bn := d),
     vwrites := vwrites v @ [(bn, d)]\<rparr>"

definition vroom2 :: "bview \<Rightarrow> u32 \<Rightarrow> u32 \<Rightarrow> bool" where
  "vroom2 v a b \<longleftrightarrow> vroom v a \<and> vroom (v\<lparr>vrefs := (vrefs v)(a := vrefs v a + 1)\<rparr>) b"

lemmas v_defs = v_read_def v_set_def v_write_def v_release_def v_pin_def v_unpin_def v_store_def

lemma v_copy:
  assumes "from \<noteq> to" and "\<not> vlocked v to" "\<not> vlocked v from" and "vhold v to = None" "vhold v from = None"
  shows "v_release to (v_release from (v_write to (v_set to d (v_read from y (v_read to x v))))) = v_store to d v"
  using assms by (cases v) (simp add: v_defs fun_eq_iff)

definition v_install :: "bool \<Rightarrow> u32 \<Rightarrow> bytes \<Rightarrow> bview \<Rightarrow> bview" where
  "v_install rc bn d v = (if rc then v_store bn d v else v_unpin bn (v_store bn d v))"

lemma v_install:
  assumes "from \<noteq> to" and "\<not> vlocked v to" "\<not> vlocked v from" and "vhold v to = None" "vhold v from = None"
    and "w = v_write to (v_set to d (v_read to y (v_read from x v)))" and "rc \<or> 1 \<le> vrefs v to"
  shows "v_release to (v_release from (if rc then w else v_unpin to w)) = v_install rc to d v"
  using assms by (cases v) (auto simp add: v_defs v_install_def fun_eq_iff)

context block_cache
begin

lemma rdI:
  assumes "inv s" and "\<not> vlocked (view s) bn" and "vroom (view s) bn"
    and "\<And>b t. inv t \<Longrightarrow> view t = v_read bn b (view s) \<Longrightarrow> rest t = rest s \<Longrightarrow> P b t"
  shows "ensures (rd bn s) P"
  by (rule ensures_mono [OF rd [OF assms(1-3)]]) (simp add: assms(4))

lemma wrI:
  assumes "inv s" and "vhold (view s) bn = Some b"
    and "\<And>t. inv t \<Longrightarrow> view t = v_write bn (view s) \<Longrightarrow> rest t = rest s \<Longrightarrow> P t"
  shows "ensures (wr b s) (\<lambda>_. P)"
  by (rule ensures_mono [OF wr [OF assms(1,2)]]) (simp add: assms(3))

lemma relI:
  assumes "inv s" and "vhold (view s) bn = Some b"
    and "vrefs (view s) bn = 1 \<longrightarrow> vcontent (view s) bn = vdisk (view s) bn"
    and "\<And>t. inv t \<Longrightarrow> view t = v_release bn (view s) \<Longrightarrow> rest t = rest s \<Longrightarrow> P t"
  shows "ensures (rel b s) (\<lambda>_. P)"
  by (rule ensures_mono [OF rel [OF assms(1-3)]]) (simp add: assms(4))

lemma unpinI:
  assumes "inv s" and "vhold (view s) bn = Some b" and "2 \<le> vrefs (view s) bn"
    and "\<And>t. inv t \<Longrightarrow> view t = v_unpin bn (view s) \<Longrightarrow> rest t = rest s \<Longrightarrow> P t"
  shows "ensures (unpin b s) (\<lambda>_. P)"
  by (rule ensures_mono [OF unpin [OF assms(1-3)]]) (simp add: assms(4))

lemma read_release:
  assumes "inv s" and "\<not> vlocked (view s) bn" and "vroom (view s) bn"
  shows "ensures (rd bn s) (\<lambda>b t. getd b t = vcontent (view s) bn \<and> inv t \<and> vhold (view t) bn = Some b \<and>
    view t = v_read bn b (view s) \<and> rest t = rest s \<and>
    (vrefs (view t) bn = 1 \<longrightarrow> vcontent (view t) bn = vdisk (view t) bn) \<and>
    v_release bn (view t) = view s)"
proof (rule ensures_mono [OF rd [OF assms]], elim conjE)
  fix b t
  assume t: "inv t" "view t = v_read bn b (view s)" "rest t = rest s"
  have "vhold (view t) bn = Some b" using t by (simp add: v_defs)
  moreover have "getd b t = vcontent (view s) bn" using getd [OF t(1) calculation] t by (simp add: v_defs)
  moreover have "v_release bn (view t) = view s"
    using t free [OF assms(1,2)] assms(2) by (simp add: v_defs fun_upd_idem)
  ultimately show "getd b t = vcontent (view s) bn \<and> inv t \<and> vhold (view t) bn = Some b \<and>
    view t = v_read bn b (view s) \<and> rest t = rest s \<and>
    (vrefs (view t) bn = 1 \<longrightarrow> vcontent (view t) bn = vdisk (view t) bn) \<and>
    v_release bn (view t) = view s"
    using t clean [OF assms(1), of bn] by (simp add: v_defs)
qed

lemma store_block:
  assumes "inv s" and "\<not> vlocked (view s) bn" and "vroom (view s) bn" and s0: "s0 = s"
  shows "ensures (rd bn s) (\<lambda>b s. ensures (wr b (setd b (f (getd b s)) s)) (\<lambda>_ s.
    ensures (rel b s) (\<lambda>_ t. inv t \<and> view t = v_store bn (f (vcontent (view s0) bn)) (view s0) \<and>
      rest t = rest s0)))"
proof (rule ensures_mono [OF read_release [OF assms(1-3)]], elim conjE)
  fix b t
  assume t: "getd b t = vcontent (view s) bn" "inv t" "vhold (view t) bn = Some b"
    "view t = v_read bn b (view s)" "rest t = rest s"
  let ?u = "setd b (f (getd b t)) t"
  have u: "inv ?u" "view ?u = v_set bn (f (vcontent (view s) bn)) (v_read bn b (view s))" "rest ?u = rest s"
    using setd [OF t(2,3)] t by auto
  note fr = free [OF assms(1,2)]
  show "ensures (wr b ?u) (\<lambda>_ s. ensures (rel b s) (\<lambda>_ t. inv t \<and>
      view t = v_store bn (f (vcontent (view s0) bn)) (view s0) \<and> rest t = rest s0))"
    by (rule wrI [OF u(1), of bn], simp add: u v_defs, rule relI [where bn = bn],
      simp_all add: u v_defs s0 assms(2) fr fun_upd_idem)
qed

lemma rd2I:
  assumes i: "inv s" and n: "a \<noteq> b" and l: "\<not> vlocked (view s) a" "\<not> vlocked (view s) b"
    and r: "vroom2 (view s) a b"
    and P: "\<And>x y t. inv t \<Longrightarrow> view t = v_read b y (v_read a x (view s)) \<Longrightarrow> rest t = rest s \<Longrightarrow>
      getd x t = vcontent (view s) a \<Longrightarrow> getd y t = vcontent (view s) b \<Longrightarrow> P x y t"
  shows "ensures (rd a s) (\<lambda>x s. ensures (rd b s) (P x))"
proof (rule rdI [OF i l(1)])
  show "vroom (view s) a" using r by (simp add: vroom2_def)
  fix x s1
  assume 1: "inv s1" "view s1 = v_read a x (view s)" "rest s1 = rest s"
  have "\<not> vlocked (view s1) b" using 1 l(2) n by (simp add: v_defs)
  moreover have "vroom (view s1) b" using r 1 by (simp add: vroom2_def vroom_def v_defs)
  ultimately show "ensures (rd b s1) (P x)"
  proof (rule rdI [OF 1(1)])
    fix y t
    assume 2: "inv t" "view t = v_read b y (view s1)" "rest t = rest s1"
    show "P x y t"
      by (rule P) (use getd [OF 2(1), of a x] getd [OF 2(1), of b y] n in \<open>simp_all add: 1 2 v_defs\<close>)
  qed
qed

lemma rel2I:
  assumes i: "inv s" and n: "a \<noteq> b" and h: "vhold (view s) a = Some x" "vhold (view s) b = Some y"
    and c: "vrefs (view s) a = 1 \<longrightarrow> vcontent (view s) a = vdisk (view s) a"
      "vcontent (view s) b = vdisk (view s) b"
  shows "ensures (rel x s) (\<lambda>_ s'. ensures (rel y s') (\<lambda>_ t. inv t \<and>
    view t = v_release b (v_release a (view s)) \<and> rest t = rest s))"
proof (rule relI [OF i h(1) c(1)])
  fix s1
  assume 1: "inv s1" "view s1 = v_release a (view s)" "rest s1 = rest s"
  show "ensures (rel y s1) (\<lambda>_ t. inv t \<and> view t = v_release b (v_release a (view s)) \<and> rest t = rest s)"
    by (rule relI [OF 1(1), of b]) (use 1 n h c in \<open>simp_all add: v_defs\<close>)
qed

text \<open>The copy of a cached block to a block of the log.\<close>

lemma copy_block:
  assumes i: "inv s" and n: "from \<noteq> to" and l: "\<not> vlocked (view s) to" "\<not> vlocked (view s) from"
    and r: "vroom2 (view s) to from" and that: "v = view s" "rs = rest s"
  shows "ensures (rd to s) (\<lambda>x s. ensures (rd from s) (\<lambda>y s. ensures (wr x (setd x (getd y s) s)) (\<lambda>_ s.
    ensures (rel y s) (\<lambda>_ s. ensures (rel x s) (\<lambda>_ t. inv t \<and>
      view t = v_store to (vcontent v from) v \<and> rest t = rs)))))"
proof (rule rd2I [OF i n [symmetric] l r])
  fix x y s2
  let ?d = "vcontent (view s) from"
  assume 2: "inv s2" "view s2 = v_read from y (v_read to x (view s))" "rest s2 = rest s" "getd y s2 = ?d"
  let ?u = "setd x ?d s2"
  have u: "inv ?u" "view ?u = v_set to ?d (view s2)" "rest ?u = rest s2"
    using setd [OF 2(1), of to x] 2 n by (simp_all add: v_defs)
  show "ensures (wr x (setd x (getd y s2) s2)) (\<lambda>_ s. ensures (rel y s) (\<lambda>_ s. ensures (rel x s) (\<lambda>_ t. inv t \<and>
    view t = v_store to (vcontent v from) v \<and> rest t = rs)))"
    unfolding 2(4)
  proof (rule wrI [OF u(1), of to])
    show "vhold (view ?u) to = Some x" using n by (simp add: u 2 v_defs)
    note cl = clean [OF i, of "from"]
    fix s3
    assume 3: "inv s3" "view s3 = v_write to (view ?u)" "rest s3 = rest ?u"
    have v3: "v_release to (v_release from (view s3)) = v_store to ?d (view s)"
      unfolding 3 u 2 by (rule v_copy [OF n l free [OF i l(1)] free [OF i l(2)]])
    show "ensures (rel y s3) (\<lambda>_ s. ensures (rel x s) (\<lambda>_ t. inv t \<and>
      view t = v_store to (vcontent v from) v \<and> rest t = rs))"
      unfolding that v3 [symmetric] 2(3) [symmetric] u(3) [symmetric] 3(3) [symmetric]
      by ((rule rel2I [OF 3(1) n]; simp only: 3(2) u(2) 2(2)); simp add: v_defs n n [symmetric] cl)
  qed
qed

text \<open>The copy of a block of the log to its home location.\<close>

lemma install_block:
  assumes i: "inv s" and n: "from \<noteq> to" and l: "\<not> vlocked (view s) to" "\<not> vlocked (view s) from"
    and r: "vroom2 (view s) from to" and p: "rc \<or> 1 \<le> vrefs (view s) to"
    and that: "v = view s" "rs = rest s"
  shows "ensures (rd from s) (\<lambda>x s. ensures (rd to s) (\<lambda>y s. ensures (wr y (setd y (getd x s) s)) (\<lambda>_ s.
    ensures (if rc then Ok () s else unpin y s) (\<lambda>_ s. ensures (rel x s) (\<lambda>_ s. ensures (rel y s) (\<lambda>_ t.
      inv t \<and> view t = v_install rc to (vcontent v from) v \<and> rest t = rs))))))"
proof (rule rd2I [OF i n l(2,1) r])
  fix x y s2
  let ?d = "vcontent (view s) from"
  assume 2: "inv s2" "view s2 = v_read to y (v_read from x (view s))" "rest s2 = rest s" "getd x s2 = ?d"
  let ?u = "setd y ?d s2"
  have u: "inv ?u" "view ?u = v_set to ?d (view s2)" "rest ?u = rest s2"
    using setd [OF 2(1), of to y] 2 by (simp_all add: v_defs)
  show "ensures (wr y (setd y (getd x s2) s2)) (\<lambda>_ s. ensures (if rc then Ok () s else unpin y s) (\<lambda>_ s.
    ensures (rel x s) (\<lambda>_ s. ensures (rel y s) (\<lambda>_ t. inv t \<and>
      view t = v_install rc to (vcontent v from) v \<and> rest t = rs))))"
    unfolding 2(4)
  proof (rule wrI [OF u(1), of to])
    show "vhold (view ?u) to = Some y" by (simp add: u 2 v_defs)
    note cl = clean [OF i, of "from"]
    fix s3
    assume 3: "inv s3" "view s3 = v_write to (view ?u)" "rest s3 = rest ?u"
    have h3: "vhold (view s3) to = Some y" by (simp add: 3 u 2 v_defs)
    have "ensures (if rc then Ok () s3 else unpin y s3)
      (\<lambda>_ t. inv t \<and> view t = (if rc then view s3 else v_unpin to (view s3)) \<and> rest t = rest s3)"
      using unpin [OF 3(1) h3] p 3(1) by (auto simp: 3 u 2 v_defs)
    then show "ensures (if rc then Ok () s3 else unpin y s3) (\<lambda>_ s. ensures (rel x s) (\<lambda>_ s. ensures (rel y s) (\<lambda>_ t.
      inv t \<and> view t = v_install rc to (vcontent v from) v \<and> rest t = rs)))"
    proof (rule ensures_mono, elim conjE)
      fix s4
      assume 4: "inv s4" "view s4 = (if rc then view s3 else v_unpin to (view s3))" "rest s4 = rest s3"
      have v4: "v_release to (v_release from (view s4)) = v_install rc to ?d (view s)"
        unfolding 4 by (rule v_install [OF n l free [OF i l(1)] free [OF i l(2)] _ p]) (simp only: 3 u 2)
      show "ensures (rel x s4) (\<lambda>_ s. ensures (rel y s) (\<lambda>_ t. inv t \<and>
        view t = v_install rc to (vcontent v from) v \<and> rest t = rs))"
        unfolding that v4 [symmetric] 2(3) [symmetric] u(3) [symmetric] 3(3) [symmetric] 4(3) [symmetric]
        by ((rule rel2I [OF 4(1) n]; simp only: 4(2) 3(2) u(2) 2(2)); simp add: v_defs n n [symmetric] cl)
    qed
  qed
qed

end

section \<open>The cache keeps the contract\<close>

text \<open>Each operation on one buffer of the cache is a \<open>put_buf\<close>.\<close>

lemma put_view:
  assumes f: "fits s bn b B l" and l: "l = my_lock p s \<or> \<not> locked l"
  shows "bview_of p (put_buf b B l s) = (bview_of p s)\<lparr>vcontent := (content s)(bn := data B),
    vrefs := (refs s)(bn := unat (refcnt B)),
    vhold := (hold p s)(bn := if locked l then Some b else None),
    vlocked := (\<lambda>n. \<not> unlocked s n)(bn := locked l)\<rparr>"
proof -
  have ml: "l = my_lock p s \<longleftrightarrow> locked l"
    using l by (auto simp: my_lock_def)
  have "unlocked (put_buf b B l s) n = (if n = bn then \<not> locked l else unlocked s n)" for n
  proof (cases "n = bn")
    case True
    then show ?thesis by (simp add: unlocked_def put_idx [OF f] put_simps)
  next
    case False
    then show ?thesis
      using evicted(2) [OF f _ False]
      by (cases "idx s n") (auto simp: unlocked_def put_idx [OF f] put_simps)
  qed
  then show ?thesis
    by (simp add: bview_of_def put_content [OF f] put_refs [OF f] put_hold [OF f] put_simps ml fun_eq_iff)
      (simp add: put_buf_def)
qed

lemma put_inv: "fits s bn b B l \<Longrightarrow> bio_inv p s \<Longrightarrow> bio_inv p (put_buf b B l s)"
  using put_ok [of s bn b B l] by (simp add: bio_inv_def running_def put_buf_def)

lemma put_rest: "bio_rest p (put_buf b B l s) = bio_rest p s"
  by (simp add: bio_rest_def put_buf_def)

lemma view_procs:
  assumes "\<And>i. pid (ps i) = pid (procs s i)"
  shows "bview_of p (s\<lparr>procs := ps\<rparr>) = bview_of p s" "bcache_ok (s\<lparr>procs := ps\<rparr>) = bcache_ok s"
proof -
  have b: "is_buf (s\<lparr>procs := ps\<rparr>) = is_buf s" by (simp add: is_buf_def fun_eq_iff)
  then have i: "idx (s\<lparr>procs := ps\<rparr>) = idx s" by (simp only: idx_def [abs_def])
  have m: "my_lock p (s\<lparr>procs := ps\<rparr>) = my_lock p s" using assms by (simp add: my_lock_def)
  show "bview_of p (s\<lparr>procs := ps\<rparr>) = bview_of p s"
    by (simp add: bview_of_def fun_eq_iff content_def refs_def hold_def i m unlocked_def
        split: option.split)
  show "bcache_ok (s\<lparr>procs := ps\<rparr>) = bcache_ok s"
    by (simp add: bcache_ok_def)
qed

lemma view_same_bufs:
  assumes "same_bufs s t" and "lru (bufs t) xs" and "bcache_ok s"
  shows "bview_of p t = bview_of p s" "bcache_ok t"
proof -
  have t: "t = s\<lparr>bufs := bufs t\<rparr>" using assms(1) by (simp only: same_bufs_def)
  have f: "bvalid (bufs t i) = bvalid (bufs s i)" "dev (bufs t i) = dev (bufs s i)"
    "blockno (bufs t i) = blockno (bufs s i)" "refcnt (bufs t i) = refcnt (bufs s i)"
    "data (bufs t i) = data (bufs s i)" for i
    using assms(1) by (simp_all add: same_bufs_def)
  have u: "sleeplocks t = sleeplocks s" "disk t = disk s" "procs t = procs s" "writes t = writes s"
    by (subst t, simp)+
  have "is_buf t = is_buf s" by (simp add: is_buf_def f fun_eq_iff)
  then have i: "idx t = idx s" by (simp only: idx_def [abs_def])
  have m: "my_lock p t = my_lock p s" by (simp add: my_lock_def u)
  show "bview_of p t = bview_of p s"
    by (simp add: bview_of_def fun_eq_iff content_def refs_def hold_def i m u f unlocked_def
        split: option.split)
  show "bcache_ok t"
    using assms(2,3) unfolding bcache_ok_def u f by blast
qed

lemma bread_law:
  assumes "bio_inv p s" and "\<not> vlocked (bview_of p s) bn" and "vroom (bview_of p s) bn"
  shows "ensures (bread ROOTDEV bn s) (\<lambda>b t. bio_inv p t \<and>
    bview_of p t = v_read bn b (bview_of p s) \<and> bio_rest p t = bio_rest p s)"
proof -
  have h: "running p s" "bcache_ok s" "unlocked s bn" "refs s bn \<noteq> 0 \<or> card (in_use s) < NBUF"
    "refs s bn + 1 < 2 ^ 32"
    using assms by (simp_all add: bio_inv_def bview_of_def vroom_def in_use_def)
  obtain b B where b: "bread ROOTDEV bn s = Ok b (put_buf b B (my_lock p s) s)"
    "fits s bn b B (my_lock p s)" "data B = content s bn" "unat (refcnt B) = refs s bn + 1"
    by (rule bread_ensures [OF h])
  have "locked (my_lock p s)" by (simp add: my_lock_def)
  then have "bview_of p (put_buf b B (my_lock p s) s) = v_read bn b (bview_of p s)"
    using put_view [OF b(2), of p] b(3,4) by (simp add: v_read_def bview_of_def)
  then show ?thesis
    using b(1) put_inv [OF b(2) assms(1)] by (simp add: put_rest)
qed

lemma set_data_law:
  assumes "bio_inv p s" and "vhold (bview_of p s) bn = Some b"
  shows "bio_inv p (set_data b d s) \<and> bview_of p (set_data b d s) = v_set bn d (bview_of p s) \<and>
    bio_rest p (set_data b d s) = bio_rest p s"
proof -
  have ok: "bcache_ok s" and hd: "hold p s bn = Some b"
    using assms by (simp_all add: bio_inv_def bview_of_def)
  note hi = hold_idx [OF ok hd]
  let ?B = "(bufs s b)\<lparr>data := d\<rparr>"
  have eq: "set_data b d s = put_buf b ?B (my_lock p s) s"
    unfolding set_data_def upd_buf_def put_buf_def hi(5) [symmetric] by simp
  have f: "fits s bn b ?B (my_lock p s)"
    using ok hi by (simp add: fits_def is_buf_def del: NBUF_def)
  have l: "locked (my_lock p s)" by (simp add: my_lock_def)
  have "\<not> unlocked s bn" using hi l by (simp add: unlocked_def)
  then have "bview_of p (put_buf b ?B (my_lock p s) s) = v_set bn d (bview_of p s)"
    using put_view [OF f, of p] l hi(8) hd
    by (simp add: v_set_def bview_of_def fun_upd_idem)
  then show ?thesis
    unfolding eq using put_inv [OF f assms(1)] by (simp add: put_rest)
qed

lemma bwrite_law:
  assumes "bio_inv p s" and "vhold (bview_of p s) bn = Some b"
  shows "ensures (bwrite b s) (\<lambda>_ t. bio_inv p t \<and> bview_of p t = v_write bn (bview_of p s) \<and>
    bio_rest p t = bio_rest p s)"
proof -
  have run: "running p s" and ok: "bcache_ok s" and hd: "hold p s bn = Some b"
    using assms by (simp_all add: bio_inv_def bview_of_def)
  note hi = hold_idx [OF ok hd]
  have bn: "blockno (bufs s b) = bn" using hi(3) by (simp add: is_buf_def)
  let ?t = "s\<lparr>disk := (disk s)(bn := content s bn), writes := writes s @ [(bn, content s bn)]\<rparr>"
  have w: "bwrite b s = Ok () ?t"
    using holdingsleep_eq [OF run] hi(5,7) bn by (simp add: bwrite_def disk_rw_def Let_def)
  have i: "idx (s\<lparr>disk := d, writes := w\<rparr>) = idx s" for d w
  proof -
    have "is_buf (s\<lparr>disk := d, writes := w\<rparr>) = is_buf s" by (simp add: is_buf_def fun_eq_iff)
    then show ?thesis by (simp only: idx_def [abs_def])
  qed
  have m: "my_lock p (s\<lparr>disk := d, writes := w\<rparr>) = my_lock p s" for d w by (simp add: my_lock_def)
  have c: "content ?t = content s"
  proof
    fix n
    show "content ?t n = content s n"
      using hi(1,4) by (cases "n = bn") (simp_all add: content_def i split: option.split)
  qed
  have "bview_of p ?t = v_write bn (bview_of p s)"
    by (simp add: bview_of_def v_write_def c)
      (simp add: fun_eq_iff refs_def hold_def i m unlocked_def split: option.split)
  moreover have "bcache_ok ?t"
  proof -
    have "data (bufs s j) = ((disk s)(bn := content s bn)) (blockno (bufs s j))"
      if "j < NBUF" "bvalid (bufs s j)" "refcnt (bufs s j) = 0" for j
    proof (cases "blockno (bufs s j) = bn")
      case True
      have "dev (bufs s j) = ROOTDEV" using ok that unfolding bcache_ok_def by blast
      then have "j = b" using True that is_buf_unique [OF ok that(1) hi(2) _ hi(3)] by (simp add: is_buf_def)
      with hi(6) that show ?thesis by simp
    next
      case False
      then show ?thesis using ok that unfolding bcache_ok_def by simp
    qed
    then show ?thesis using ok unfolding bcache_ok_def by (simp del: NBUF_def)
  qed
  ultimately show ?thesis
    using w run by (simp add: bio_inv_def running_def bio_rest_def)
qed

lemma pin_law:
  assumes "bio_inv p s" and "vhold (bview_of p s) bn = Some b" and r: "r \<noteq> 0"
    and o: "op b s = Ok () (upd_buf b (\<lambda>q. q\<lparr>refcnt := r\<rparr>) s)"
  shows "ensures (op b s) (\<lambda>_ t. bio_inv p t \<and>
    bview_of p t = (bview_of p s)\<lparr>vrefs := (vrefs (bview_of p s))(bn := unat r)\<rparr> \<and>
    bio_rest p t = bio_rest p s)"
proof -
  have ok: "bcache_ok s" and hd: "hold p s bn = Some b"
    using assms by (simp_all add: bio_inv_def bview_of_def)
  note hi = hold_idx [OF ok hd]
  let ?B = "(bufs s b)\<lparr>refcnt := r\<rparr>"
  have eq: "upd_buf b (\<lambda>q. q\<lparr>refcnt := r\<rparr>) s = put_buf b ?B (my_lock p s) s"
    unfolding upd_buf_def put_buf_def hi(5) [symmetric] by simp
  have f: "fits s bn b ?B (my_lock p s)"
    using ok hi r by (simp add: fits_def is_buf_def del: NBUF_def)
  have l: "locked (my_lock p s)" by (simp add: my_lock_def)
  have "\<not> unlocked s bn" using hi l by (simp add: unlocked_def)
  then have "bview_of p (put_buf b ?B (my_lock p s) s) =
      (bview_of p s)\<lparr>vrefs := (vrefs (bview_of p s))(bn := unat r)\<rparr>"
    using put_view [OF f, of p] l hi(7) hd by (simp add: bview_of_def fun_upd_idem)
  then show ?thesis
    unfolding o eq using put_inv [OF f assms(1)] by (simp add: put_rest)
qed

lemma bpin_law:
  assumes "bio_inv p s" and "vhold (bview_of p s) bn = Some b" and "vrefs (bview_of p s) bn + 1 < 2 ^ 32"
  shows "ensures (bpin b s) (\<lambda>_ t. bio_inv p t \<and> bview_of p t = v_pin bn (bview_of p s) \<and>
    bio_rest p t = bio_rest p s)"
proof -
  have ok: "bcache_ok s" and hd: "hold p s bn = Some b" and h: "held s = {}"
    using assms by (simp_all add: bio_inv_def bview_of_def running_def)
  note hi = hold_idx [OF ok hd]
  let ?r = "refcnt (bufs s b) + 1"
  have u: "unat ?r = refs s bn + 1"
    using assms(3) hi(8) by (simp add: bview_of_def unat_word_ariths)
  then have "?r \<noteq> 0" by (metis Suc_eq_plus1 nat.distinct(1) unsigned_0)
  moreover have "bpin b s = Ok () (upd_buf b (\<lambda>q. q\<lparr>refcnt := ?r\<rparr>) s)"
    using h by (simp add: bpin_def upd_buf_def)
  ultimately show ?thesis
    using pin_law [OF assms(1,2), of ?r bpin] u by (simp add: v_pin_def bview_of_def)
qed

lemma bunpin_law:
  assumes "bio_inv p s" and "vhold (bview_of p s) bn = Some b" and "2 \<le> vrefs (bview_of p s) bn"
  shows "ensures (bunpin b s) (\<lambda>_ t. bio_inv p t \<and> bview_of p t = v_unpin bn (bview_of p s) \<and>
    bio_rest p t = bio_rest p s)"
proof -
  have ok: "bcache_ok s" and hd: "hold p s bn = Some b" and h: "held s = {}"
    using assms by (simp_all add: bio_inv_def bview_of_def running_def)
  note hi = hold_idx [OF ok hd]
  let ?r = "refcnt (bufs s b) - 1"
  have "1 \<le> refcnt (bufs s b)" using assms(3) hi(8) by (simp add: bview_of_def word_le_nat_alt)
  then have u: "unat ?r = refs s bn - 1"
    using hi(8) by (simp add: unat_sub)
  then have "unat ?r \<noteq> 0" using assms(3) by (simp add: bview_of_def)
  then have "?r \<noteq> 0" by (metis unsigned_0)
  moreover have "bunpin b s = Ok () (upd_buf b (\<lambda>q. q\<lparr>refcnt := ?r\<rparr>) s)"
    using h by (simp add: bunpin_def upd_buf_def)
  ultimately show ?thesis
    using pin_law [OF assms(1,2), of ?r bunpin] u by (simp add: v_unpin_def bview_of_def)
qed

lemma bufs_held_commute: "s\<lparr>bufs := x, held := y\<rparr> = s\<lparr>held := y, bufs := x\<rparr>"
  by simp

lemma lru_front_held: "lru_front b (s\<lparr>held := H\<rparr>) = (lru_front b s)\<lparr>held := H\<rparr>"
proof -
  have "upd_buf i f (u\<lparr>held := H\<rparr>) = (upd_buf i f u)\<lparr>held := H\<rparr>" for i f and u :: "'a bio_state_scheme"
    by (simp add: upd_buf_def)
  moreover have "bufs (u\<lparr>held := H\<rparr>) = bufs u" for u :: "'a bio_state_scheme" by simp
  ultimately show ?thesis unfolding lru_front_def Let_def by presburger
qed

lemma front_if:
  assumes "bio_inv p s" and "b < NBUF"
  defines "t \<equiv> if refcnt (bufs s b) = 0 then lru_front b s else s"
  shows "bio_inv p t \<and> bview_of p t = bview_of p s \<and> bio_rest p t = bio_rest p s \<and> held t = held s"
proof -
  have sb: "same_bufs s (lru_front b s)" by (rule lru_front_same)
  have e: "lru_front b s = s\<lparr>bufs := bufs (lru_front b s)\<rparr>" using sb by (simp only: same_bufs_def)
  have u: "cur (lru_front b s) = cur s" "held (lru_front b s) = held s"
    "bio_rest p (lru_front b s) = bio_rest p s"
    by (subst e, simp add: bio_rest_def)+
  obtain xs where "lru (bufs s) xs" using assms(1) by (auto simp: bio_inv_def bcache_ok_def)
  then obtain ys where l: "lru (bufs (lru_front b s)) (b # ys)" using lru_front_lru assms(2) by blast
  have "bcache_ok s" using assms(1) by (simp add: bio_inv_def)
  note v = view_same_bufs [OF sb l this]
  show ?thesis using assms(1) v u by (simp add: t_def bio_inv_def running_def)
qed

lemma brelse_law:
  assumes "bio_inv p s" and "vhold (bview_of p s) bn = Some b"
    and cl: "vrefs (bview_of p s) bn = 1 \<longrightarrow> vcontent (bview_of p s) bn = vdisk (bview_of p s) bn"
  shows "ensures (brelse b s) (\<lambda>_ t. bio_inv p t \<and> bview_of p t = v_release bn (bview_of p s) \<and>
    bio_rest p t = bio_rest p s)"
proof -
  have run: "running p s" and ok: "bcache_ok s" and hd: "hold p s bn = Some b"
    using assms by (simp_all add: bio_inv_def bview_of_def)
  note hi = hold_idx [OF ok hd]
  let ?w = "woken (Some (ChSleep (SlBuf b))) (cur s) (procs s)"
  let ?s = "s\<lparr>procs := ?w\<rparr>"
  let ?B = "(bufs s b)\<lparr>refcnt := refcnt (bufs s b) - 1\<rparr>"
  let ?l = "\<lparr>locked = False, sl_pid = 0\<rparr>"
  let ?t = "put_buf b ?B ?l ?s"
  have v: "bview_of p ?s = bview_of p s" "bcache_ok ?s" using view_procs [where ps = ?w and s = s] ok by simp_all
  have u: "unat (refcnt ?B) = refs s bn - 1"
    using hi(6) unat_minus_one [of "refcnt (bufs s b)"] unfolding hi(8) [symmetric] by simp
  have "refcnt ?B = 0 \<longrightarrow> content s bn = disk s bn"
  proof
    assume "refcnt ?B = 0"
    then have "refcnt (bufs s b) = 1" by simp
    then have "refs s bn = 1" using hi(8) by simp
    then show "content s bn = disk s bn" using cl by (simp add: bview_of_def)
  qed
  moreover have "is_buf ?s bn b" using hi(3) by (simp add: is_buf_def)
  ultimately have f: "fits ?s bn b ?B ?l"
    using v(2) hi by (simp add: fits_def is_buf_def del: NBUF_def)
  have rs: "bio_inv p ?s" using run v(2) by (simp add: bio_inv_def running_def)
  have t: "bio_inv p ?t" "bview_of p ?t = v_release bn (bview_of p s)" "bio_rest p ?t = bio_rest p s"
  proof -
    show "bio_inv p ?t" by (rule put_inv [OF f rs])
    show "bio_rest p ?t = bio_rest p s"
      using run by (simp add: put_rest) (simp add: bio_rest_def woken_def running_def)
    have c: "content ?s = content s" "refs ?s = refs s" "hold p ?s = hold p s" "(\<lambda>n. \<not> unlocked ?s n) = (\<lambda>n. \<not> unlocked s n)"
      using v(1) by (simp_all add: bview_of_def)
    show "bview_of p ?t = v_release bn (bview_of p s)"
      unfolding put_view [OF f disjI2, of p, simplified] v(1) c v_release_def
      using u hi(7) by (simp add: bview_of_def fun_upd_idem)
  qed
  have h0: "held s = {}" using run by (simp add: running_def)
  let ?h = "?t\<lparr>held := {LkBcache}\<rparr>"
  have "brelse b s = lk_release LkBcache (if refcnt (bufs ?h b) = 0 then lru_front b ?h else ?h)"
    using run holdingsleep_eq [OF run] hi(5) releasesleep_eq [OF run] h0
    by (simp add: brelse_def upd_buf_def put_buf_def bufs_sl_commute bufs_held_commute Let_def)
  also have "\<dots> = lk_release LkBcache ((if refcnt (bufs ?t b) = 0 then lru_front b ?t else ?t)\<lparr>held := {LkBcache}\<rparr>)"
    by (simp add: lru_front_held)
  finally have br: "brelse b s = \<dots>" .
  have "held ?t = {}" using h0 by (simp add: put_buf_def)
  then show ?thesis
    unfolding br using front_if [OF t(1) hi(2)] t(2,3) by simp
qed

lemma get_data_law: "bio_inv p s \<Longrightarrow> vhold (bview_of p s) bn = Some b \<Longrightarrow> get_data b s = vcontent (bview_of p s) bn"
  using hold_idx(7) [of s p bn b] by (simp add: bio_inv_def bview_of_def get_data_def)

lemma clean_law:
  assumes "bio_inv p s" and "vrefs (bview_of p s) bn = 0"
  shows "vcontent (bview_of p s) bn = vdisk (bview_of p s) bn"
proof (cases "idx s bn")
  case None
  then show ?thesis by (simp add: bview_of_def content_def)
next
  case (Some i)
  have ok: "bcache_ok s" using assms(1) by (simp add: bio_inv_def)
  then have i: "i < NBUF" "is_buf s bn i" using idx_iff [OF ok] Some by simp_all
  have "refcnt (bufs s i) = 0" using assms(2) Some by (simp add: bview_of_def refs_def unat_eq_0)
  then have "bvalid (bufs s i) \<Longrightarrow> data (bufs s i) = disk s (blockno (bufs s i))"
    using ok i(1) unfolding bcache_ok_def by blast
  then show ?thesis using Some i(2) by (simp add: bview_of_def content_def is_buf_def)
qed

lemma free_law: "bio_inv p s \<Longrightarrow> \<not> vlocked (bview_of p s) bn \<Longrightarrow> vhold (bview_of p s) bn = None"
  by (auto simp: bview_of_def hold_def unlocked_def my_lock_def split: option.split)

interpretation bc: block_cache "bread ROOTDEV" bwrite brelse bpin bunpin set_data get_data "bview_of p"
    "bio_inv p" "bio_rest p" for p
  by unfold_locales
    (rule bread_law get_data_law set_data_law bwrite_law brelse_law bpin_law bunpin_law clean_law
      free_law; assumption)+

section \<open>Booting\<close>

definition zero_proc :: proc where
  "zero_proc = \<lparr>state = UNUSED, chan = None, killed = False, xstate = 0, pid = 0, parent = None, kstack = 0,
     sz = 0, pagetable = 0, trapframe = 0, context_ra = 0, context_sp = 0, ofile = (\<lambda>_. None), cwd = None,
     pname = []\<rparr>"

definition zero_buf :: buf where
  "zero_buf = \<lparr>bvalid = False, dev = 0, blockno = 0, refcnt = 0, prv = 0, nxt = 0, data = (\<lambda>_. 0)\<rparr>"

text \<open>The zeroed kernel data of a machine with disk \<open>d\<close>, in which the first process runs.\<close>

definition bio_zero :: "(u32 \<Rightarrow> bytes) \<Rightarrow> 'a \<Rightarrow> 'a bio_state_scheme" where
  "bio_zero d m = \<lparr>held = {}, cur = Some 0, mem = (\<lambda>_. 0), freelist = 0, kend = 0, kernel_pagetable = 0,
     etext = 0, trampoline = 0, satp = 0, procs = (\<lambda>_. zero_proc), nextpid = 1, initproc = None,
     forkret_addr = 0, sleeplocks = (\<lambda>_. \<lparr>locked = False, sl_pid = 0\<rparr>), bufs = (\<lambda>_. zero_buf), disk = d,
     writes = [], \<dots> = m\<rparr>"

text \<open>A cache without references over the disk \<open>d\<close>.\<close>

definition booted :: "nat \<Rightarrow> (u32 \<Rightarrow> bytes) \<Rightarrow> 'a bio_state_scheme \<Rightarrow> bool" where
  "booted p d s \<longleftrightarrow> bio_inv p s \<and> bview_of p s = \<lparr>vcontent = d, vdisk = d, vrefs = (\<lambda>_. 0), vhold = (\<lambda>_. None),
     vlocked = (\<lambda>_. False), vwrites = []\<rparr>"

lemma binit_body_links:
  fixes s :: "'a bio_state_scheme"
  assumes "b \<noteq> NBUF"
  defines "u \<equiv> upd_buf NBUF (\<lambda>q. q\<lparr>nxt := b\<rparr>) (upd_buf (nxt (bufs s NBUF)) (\<lambda>q. q\<lparr>prv := b\<rparr>)
    (initsleeplock (SlBuf b) (upd_buf b (\<lambda>q. q\<lparr>nxt := nxt (bufs s NBUF), prv := NBUF\<rparr>) s)))"
  shows "nx u = (nx s)(b := nx s NBUF, NBUF := b)" "pv u = (pv s)(b := NBUF, nx s NBUF := b)"
proof -
  have i: "nx (initsleeplock l t) = nx t" "pv (initsleeplock l t) = pv t" for l and t :: "'a bio_state_scheme"
    by (simp_all add: nx_def pv_def initsleeplock_def lk_init_def)
  have b: "nx (upd_buf b (\<lambda>q. q\<lparr>nxt := v, prv := w\<rparr>) s) = (nx s)(b := v)"
    "pv (upd_buf b (\<lambda>q. q\<lparr>nxt := v, prv := w\<rparr>) s) = (pv s)(b := w)" for v w
    by (auto simp: nx_def pv_def upd_buf_def fun_eq_iff)
  have e: "nxt (bufs s NBUF) = nx s NBUF" by (simp add: nx_def)
  show "nx u = (nx s)(b := nx s NBUF, NBUF := b)" "pv u = (pv s)(b := NBUF, nx s NBUF := b)"
    unfolding u_def e by (simp_all only: links_upd i b)
qed

lemma binit_loop_seg:
  assumes "n \<le> NBUF" and "seg (nx s) (pv s) NBUF (rev [0..<NBUF - n]) NBUF"
  shows "seg (nx (binit_loop n s)) (pv (binit_loop n s)) NBUF (rev [0..<NBUF]) NBUF"
  using assms
proof (induction n arbitrary: s)
  case 0
  then show ?case by (simp del: NBUF_def upt.simps)
next
  case (Suc n)
  let ?b = "NBUF - Suc n"
  have b: "?b \<noteq> NBUF" "NBUF - n = Suc ?b" using Suc.prems(1) by auto
  let ?u = "upd_buf NBUF (\<lambda>q. q\<lparr>nxt := ?b\<rparr>) (upd_buf (nxt (bufs s NBUF)) (\<lambda>q. q\<lparr>prv := ?b\<rparr>)
    (initsleeplock (SlBuf ?b) (upd_buf ?b (\<lambda>q. q\<lparr>nxt := nxt (bufs s NBUF), prv := NBUF\<rparr>) s)))"
  have "seg (nx ?u) (pv ?u) NBUF (?b # rev [0..<?b]) NBUF"
    unfolding binit_body_links [OF b(1), of s]
    by (rule seg_insert [OF Suc.prems(2)]) (use Suc.prems(1) in auto)
  then have "seg (nx ?u) (pv ?u) NBUF (rev [0..<NBUF - n]) NBUF"
    unfolding b(2) by simp
  from Suc.IH [OF _ this] Suc.prems(1) show ?case
    by (simp add: Let_def del: NBUF_def)
qed

definition same_store :: "'a bio_state_scheme \<Rightarrow> 'a bio_state_scheme \<Rightarrow> bool" where
  "same_store s t \<longleftrightarrow> disk t = disk s \<and> writes t = writes s \<and> cur t = cur s \<and> procs t = procs s \<and>
     held t \<subseteq> held s \<and> (\<forall>l. sleeplocks t l = sleeplocks s l \<or> \<not> locked (sleeplocks t l)) \<and>
     (\<forall>i. bvalid (bufs t i) = bvalid (bufs s i) \<and> dev (bufs t i) = dev (bufs s i) \<and>
       refcnt (bufs t i) = refcnt (bufs s i))"

lemma same_store_steps:
  "same_store s t \<Longrightarrow> same_store s (upd_buf i (\<lambda>q. q\<lparr>nxt := a, prv := b\<rparr>) t)"
  "same_store s t \<Longrightarrow> same_store s (upd_buf i (\<lambda>q. q\<lparr>prv := b, nxt := a\<rparr>) t)"
  "same_store s t \<Longrightarrow> same_store s (upd_buf i (\<lambda>q. q\<lparr>nxt := a\<rparr>) t)"
  "same_store s t \<Longrightarrow> same_store s (upd_buf i (\<lambda>q. q\<lparr>prv := b\<rparr>) t)"
  "same_store s t \<Longrightarrow> same_store s (initsleeplock l t)"
  "same_store s t \<Longrightarrow> same_store s (lk_init k t)"
  by (auto simp: same_store_def upd_buf_def initsleeplock_def lk_init_def)

lemma binit_loop_same: "same_store s t \<Longrightarrow> same_store s (binit_loop n t)"
proof (induction n arbitrary: t)
  case 0
  then show ?case by simp
next
  case (Suc n)
  show ?case
    unfolding binit_loop.simps Let_def by (intro Suc.IH same_store_steps Suc.prems)
qed

lemma binit_booted:
  assumes z: "\<forall>i \<le> NBUF. bvalid (bufs s i) = False \<and> dev (bufs s i) = 0 \<and> refcnt (bufs s i) = 0"
    and l: "\<forall>i. \<not> locked (sleeplocks s (SlBuf i))" and r: "running p s" and w: "writes s = []"
  shows "booted p (disk s) (binit s)" "lru (bufs (binit s)) (rev [0..<NBUF])"
proof -
  let ?h = "upd_buf NBUF (\<lambda>q. q\<lparr>prv := NBUF, nxt := NBUF\<rparr>) (lk_init LkBcache s)"
  have "same_store s (binit s)"
    unfolding binit_def
    by (intro binit_loop_same same_store_steps) (simp add: same_store_def)
  then have s: "disk (binit s) = disk s" "writes (binit s) = []" "cur (binit s) = Some p"
    "held (binit s) = {}" "\<And>i. i \<le> NBUF \<Longrightarrow> \<not> bvalid (bufs (binit s) i)"
    "\<And>i. i \<le> NBUF \<Longrightarrow> dev (bufs (binit s) i) = 0" "\<And>i. i \<le> NBUF \<Longrightarrow> refcnt (bufs (binit s) i) = 0"
    "\<And>i. \<not> locked (sleeplocks (binit s) (SlBuf i))"
    using z l r w unfolding same_store_def running_def by (auto simp del: NBUF_def) metis
  have "seg (nx ?h) (pv ?h) NBUF (rev [0..<NBUF - NBUF]) NBUF"
    by (simp add: nx_def pv_def upd_buf_def)
  then have "seg (nx (binit s)) (pv (binit s)) NBUF (rev [0..<NBUF]) NBUF"
    unfolding binit_def by (rule binit_loop_seg [OF order_refl])
  then show lru: "lru (bufs (binit s)) (rev [0..<NBUF])"
    unfolding lru_def nx_def pv_def by (auto simp del: NBUF_def upt.simps)
  have i: "idx (binit s) bn = None" for bn
    using s(6) [OF less_imp_le] by (auto simp add: idx_def find_None_iff is_buf_def del: NBUF_def upt.simps)
  have "bcache_ok (binit s)"
    unfolding bcache_ok_def using lru s(5-8) by (auto simp del: NBUF_def)
  then show "booted p (disk s) (binit s)"
    by (simp add: booted_def bio_inv_def running_def s bview_of_def content_def [abs_def] refs_def [abs_def]
        hold_def [abs_def] unlocked_def [abs_def] i)
qed

section \<open>Properties\<close>

text \<open>
  C36: After \<open>binit\<close> on the zeroed buffers the list of buffers is well formed and holds every
  buffer once, and the cache invariant holds: no block has two buffers, no block is referenced
  or locked, and the cache shows the disk.
\<close>

theorem binit_establishes_invariant:
  assumes "\<forall>i \<le> NBUF. bvalid (bufs s i) = False \<and> dev (bufs s i) = 0 \<and> refcnt (bufs s i) = 0"
    and "\<forall>i. \<not> locked (sleeplocks s (SlBuf i))" and "running p s" and "writes s = []"
  shows "lru (bufs (binit s)) (rev [0..<NBUF]) \<and> bcache_ok (binit s) \<and> content (binit s) = disk s \<and>
    (\<forall>bn. refs (binit s) bn = 0 \<and> unlocked (binit s) bn)"
  using binit_booted [OF assms] by (simp add: booted_def bio_inv_def bview_of_def fun_eq_iff)

lemma bio_zero_zeroed:
  "\<forall>i \<le> NBUF. bvalid (bufs (bio_zero d m) i) = False \<and> dev (bufs (bio_zero d m) i) = 0 \<and>
     refcnt (bufs (bio_zero d m) i) = 0"
  "\<forall>i. \<not> locked (sleeplocks (bio_zero d m) (SlBuf i))" "running 0 (bio_zero d m)"
  "writes (bio_zero d m) = []" "disk (bio_zero d m) = d"
  by (simp_all add: bio_zero_def zero_buf_def running_def)

lemmas binit_zero = binit_booted [OF bio_zero_zeroed(1-4), unfolded bio_zero_zeroed(5)]

theorem binit_establishes_invariant_witness:
  "bcache_ok (binit (bio_zero (\<lambda>bn i. ucast bn) ())) \<and> content (binit (bio_zero (\<lambda>bn i. ucast bn) ())) 5 3 = 5"
  using binit_establishes_invariant [OF bio_zero_zeroed(1-4), of "\<lambda>bn i. ucast bn" "()"]
  by (simp add: bio_zero_zeroed(5))

text \<open>
  C3: The cache is a block store: for a block nobody has locked, with a buffer to be had, reading
  it, changing its bytes by \<open>f\<close>, writing and releasing it changes the contents and the disk of that
  block to \<open>f\<close> of the contents it had, records that one disk write, and changes nothing else a
  client can see: no other block, no reference count, no lock, no memory.
\<close>

theorem cache_is_block_store:
  assumes "bio_inv p s" and "\<not> vlocked (bview_of p s) bn" and "vroom (bview_of p s) bn"
  shows "ensures (obind (bread ROOTDEV bn s) (\<lambda>b s.
      obind (bwrite b (set_data b (f (get_data b s)) s)) (\<lambda>_ s. brelse b s)))
    (\<lambda>_ t. bio_inv p t \<and> bview_of p t = v_store bn (f (content s bn)) (bview_of p s) \<and>
      bio_rest p t = bio_rest p s)"
  using bc.store_block [OF assms refl, of f] by (simp add: bview_of_def)

theorem cache_is_block_store_witness:
  "ensures (obind (bread ROOTDEV 5 (binit (bio_zero (\<lambda>bn i. ucast bn) ()))) (\<lambda>b s.
      obind (bwrite b (set_data b ((\<lambda>d i. d i + 1) (get_data b s)) s)) (\<lambda>_ s. brelse b s)))
    (\<lambda>_ t. vdisk (bview_of 0 t) 5 3 = 6 \<and> vcontent (bview_of 0 t) 6 3 = 6)"
proof -
  let ?s = "binit (bio_zero (\<lambda>bn i. ucast bn) ())"
  have b: "booted 0 (\<lambda>bn i. ucast bn) ?s" by (rule binit_zero)
  have v: "\<not> vlocked (bview_of 0 ?s) 5" "vroom (bview_of 0 ?s) 5" "bio_inv 0 ?s"
    "vcontent (bview_of 0 ?s) = (\<lambda>bn i. ucast bn)" "content ?s 5 = (\<lambda>i. 5)"
    using b unfolding booted_def by (simp_all add: vroom_def) (simp add: bview_of_def)
  show ?thesis
    by (rule ensures_mono [OF cache_is_block_store [OF v(3,1,2), of "\<lambda>d i. d i + 1"]])
      (simp add: v_store_def v(4,5))
qed

text \<open>
  C37: When every buffer is referenced, \<open>bread\<close> of a block that is not cached panics with
  "bget: no buffers", whatever the state of the locks on the buffers.
\<close>

theorem bread_no_buffers:
  assumes "bcache_ok s" and "running p s" and "idx s bn = None" and "\<forall>i < NBUF. refcnt (bufs s i) \<noteq> 0"
  shows "bread ROOTDEV bn s = Panic ''bget: no buffers''"
proof -
  obtain xs where l: "lru (bufs s) xs" using assms(1) by (auto simp: bcache_ok_def)
  then have d: "seg (\<lambda>i. nxt (bufs s i)) (\<lambda>i. prv (bufs s i)) NBUF xs NBUF" "set xs = {..<NBUF}" "length xs \<le> NBUF"
    unfolding lru_def using distinct_card [of xs] by (auto simp del: NBUF_def)
  have n: "NBUF \<notin> set xs" unfolding d(2) by simp
  have "find (\<lambda>b. dev (bufs s b) = ROOTDEV \<and> blockno (bufs s b) = bn) xs = None"
    using assms(3) d(2) by (auto simp: find_None_iff idx_def is_buf_def simp del: NBUF_def)
  moreover have "find (\<lambda>b. refcnt (bufs s b) = 0) (rev xs) = None"
    using assms(4) d(2) by (auto simp: find_None_iff simp del: NBUF_def)
  ultimately show ?thesis
    using assms(2) bget_find_seg [OF d(1) n d(3), of ROOTDEV bn] bget_lru_seg [OF d(1) n d(3)]
    by (simp add: bread_def bget_def running_def del: NBUF_def ROOTDEV_def)
qed

definition bio_full :: bio_state where
  "bio_full = (binit (bio_zero (\<lambda>_ _. 0) ()))\<lparr>bufs :=
     \<lambda>i. (bufs (binit (bio_zero (\<lambda>_ _. 0) ())) i)\<lparr>dev := ROOTDEV, blockno := of_nat i, refcnt := 1, bvalid := False\<rparr>\<rparr>"

theorem bread_no_buffers_witness: "bread ROOTDEV 100 bio_full = Panic ''bget: no buffers''"
proof (rule bread_no_buffers [where p = 0])
  let ?z = "binit (bio_zero (\<lambda>_ _. 0) ())"
  have z: "lru (bufs ?z) (rev [0..<NBUF])" "bcache_ok ?z" "running 0 ?z"
    using binit_zero [of "\<lambda>_ _. 0" "()"] by (simp_all add: booted_def bio_inv_def)
  have "unat (of_nat i :: u32) = i" if "i < NBUF" for i using that by (simp add: unat_of_nat)
  then have inj: "i = j" if "i < NBUF" "j < NBUF" "(of_nat i :: u32) = of_nat j" for i j
    using that by metis
  have "lru (bufs bio_full) (rev [0..<NBUF])"
    using z(1) by (simp add: lru_def bio_full_def del: NBUF_def upt.simps)
  then show "bcache_ok bio_full"
    using z(2) inj unfolding bcache_ok_def by (auto simp: bio_full_def simp del: NBUF_def)
  show "running 0 bio_full" using z(3) by (simp add: running_def bio_full_def)
  show "\<forall>i < NBUF. refcnt (bufs bio_full i) \<noteq> 0" by (simp add: bio_full_def)
  have "(of_nat i :: u32) \<noteq> 100" if "i < NBUF" for i
    using that by (auto dest!: arg_cong [where f = unat] simp: unat_of_nat)
  then show "idx bio_full 100 = None" by (auto simp: idx_None is_buf_def bio_full_def simp del: NBUF_def)
qed

end
