(* ===== verification/Log.thy ===== *)
theory Log
  imports Bio
begin

text \<open>
  The redo log (kernel/log.c): transactions of several file-system calls, committed by writing
  the modified blocks to the log, then the header, then the blocks to their home locations.
  The super block (kernel/fs.h) is defined here because \<open>initlog\<close> takes it.  A block of the log is
  named by the block number the code computes from \<open>log.start\<close>.  A wait in \<open>begin_op\<close> ends in the
  outcome \<open>Sleep\<close>; the process runs the loop of \<open>begin_op\<close> again when it is woken.
\<close>

section \<open>State and operations\<close>

record superblock =
  magic :: u32
  sb_size :: u32
  nblocks :: u32
  ninodes :: u32
  nlog :: u32
  logstart :: u32
  inodestart :: u32
  bmapstart :: u32

definition LOGSIZE :: nat where [simp]: "LOGSIZE = MAXOPBLOCKS * 3"

record log_state = bio_state +
  log_start :: int
  log_size :: int
  outstanding :: int
  committing :: bool
  log_dev :: u32
  lh_n :: int
  lh_block :: "nat \<Rightarrow> u32"

text \<open>The block number of slot \<open>tail\<close> of the log, \<open>log.start+tail+1\<close>.\<close>

definition log_slot :: "nat \<Rightarrow> 'a log_state_scheme \<Rightarrow> u32" where
  "log_slot tail s = word_of_int (log_start s + int tail + 1)"

fun install_trans_loop :: "nat \<Rightarrow> bool \<Rightarrow> 'a log_state_scheme \<Rightarrow> (unit, 'a log_state_scheme) outcome" where
  "install_trans_loop 0 recovering s = Ok () s"
| "install_trans_loop (Suc k) recovering s =
     (let tail = nat (lh_n s) - Suc k in
      obind (bread (log_dev s) (log_slot tail s) s) (\<lambda>lbuf s.
      obind (bread (log_dev s) (lh_block s tail) s) (\<lambda>dbuf s.
      obind (bwrite dbuf (set_data dbuf (get_data lbuf s) s)) (\<lambda>_ s.
      obind (if recovering then Ok () s else bunpin dbuf s) (\<lambda>_ s.
      obind (brelse lbuf s) (\<lambda>_ s.
      obind (brelse dbuf s) (\<lambda>_ s.
      install_trans_loop k recovering s)))))))"

definition install_trans :: "bool \<Rightarrow> 'a log_state_scheme \<Rightarrow> (unit, 'a log_state_scheme) outcome" where
  "install_trans recovering s = install_trans_loop (nat (lh_n s)) recovering s"

text \<open>\<open>log.lh.block\<close> has LOGSIZE elements: a header with more would write past its end.\<close>

fun read_head_loop :: "nat \<Rightarrow> bytes \<Rightarrow> 'a log_state_scheme \<Rightarrow> (unit, 'a log_state_scheme) outcome" where
  "read_head_loop 0 lh s = Ok () s"
| "read_head_loop (Suc k) lh s =
     (let i = nat (lh_n s) - Suc k in
      if LOGSIZE \<le> i then Undef
      else read_head_loop k lh (s\<lparr>lh_block := (lh_block s)(i := load32 lh (4 + 4 * i))\<rparr>))"

definition read_head :: "'a log_state_scheme \<Rightarrow> (unit, 'a log_state_scheme) outcome" where
  "read_head s =
     obind (bread (log_dev s) (word_of_int (log_start s)) s) (\<lambda>buf s.
       let lh = get_data buf s; s = s\<lparr>lh_n := sint (load32 lh 0)\<rparr> in
       obind (read_head_loop (nat (lh_n s)) lh s) (\<lambda>_ s. brelse buf s))"

fun write_head_loop :: "nat \<Rightarrow> nat \<Rightarrow> (nat \<Rightarrow> u32) \<Rightarrow> bytes \<Rightarrow> bytes" where
  "write_head_loop 0 n blk hb = hb"
| "write_head_loop (Suc k) n blk hb =
     (let i = n - Suc k in write_head_loop k n blk (store32 hb (4 + 4 * i) (blk i)))"

definition write_head :: "'a log_state_scheme \<Rightarrow> (unit, 'a log_state_scheme) outcome" where
  "write_head s =
     obind (bread (log_dev s) (word_of_int (log_start s)) s) (\<lambda>buf s.
       let hb = store32 (get_data buf s) 0 (word_of_int (lh_n s));
           hb = write_head_loop (nat (lh_n s)) (nat (lh_n s)) (lh_block s) hb in
       obind (bwrite buf (set_data buf hb s)) (\<lambda>_ s. brelse buf s))"

definition recover_from_log :: "'a log_state_scheme \<Rightarrow> (unit, 'a log_state_scheme) outcome" where
  "recover_from_log s =
     obind (read_head s) (\<lambda>_ s.
     obind (install_trans True s) (\<lambda>_ s.
     write_head (s\<lparr>lh_n := 0\<rparr>)))"

definition initlog :: "u32 \<Rightarrow> superblock \<Rightarrow> 'a log_state_scheme \<Rightarrow> (unit, 'a log_state_scheme) outcome" where
  "initlog d sb s =
     (if BSIZE \<le> 4 + 4 * LOGSIZE then Panic ''initlog: too big logheader''
      else recover_from_log ((lk_init LkLog s)
        \<lparr>log_start := sint (logstart sb), log_size := sint (nlog sb), log_dev := d\<rparr>))"

definition begin_op :: "'a log_state_scheme \<Rightarrow> (unit, 'a log_state_scheme) outcome" where
  "begin_op s =
     obind (lk_acquire LkLog s) (\<lambda>_ s.
       if committing s then sleep ChLog LkLog s
       else if lh_n s + (outstanding s + 1) * int MAXOPBLOCKS > int LOGSIZE then sleep ChLog LkLog s
       else lk_release LkLog (s\<lparr>outstanding := outstanding s + 1\<rparr>))"

fun write_log_loop :: "nat \<Rightarrow> 'a log_state_scheme \<Rightarrow> (unit, 'a log_state_scheme) outcome" where
  "write_log_loop 0 s = Ok () s"
| "write_log_loop (Suc k) s =
     (let tail = nat (lh_n s) - Suc k in
      obind (bread (log_dev s) (log_slot tail s) s) (\<lambda>to s.
      obind (bread (log_dev s) (lh_block s tail) s) (\<lambda>from s.
      obind (bwrite to (set_data to (get_data from s) s)) (\<lambda>_ s.
      obind (brelse from s) (\<lambda>_ s.
      obind (brelse to s) (\<lambda>_ s.
      write_log_loop k s))))))"

definition write_log :: "'a log_state_scheme \<Rightarrow> (unit, 'a log_state_scheme) outcome" where
  "write_log s = write_log_loop (nat (lh_n s)) s"

definition commit :: "'a log_state_scheme \<Rightarrow> (unit, 'a log_state_scheme) outcome" where
  "commit s =
     (if lh_n s > 0 then
        obind (write_log s) (\<lambda>_ s.
        obind (write_head s) (\<lambda>_ s.
        obind (install_trans False s) (\<lambda>_ s.
        write_head (s\<lparr>lh_n := 0\<rparr>))))
      else Ok () s)"

definition end_op :: "'a log_state_scheme \<Rightarrow> (unit, 'a log_state_scheme) outcome" where
  "end_op s =
     obind (lk_acquire LkLog s) (\<lambda>_ s.
     let s = s\<lparr>outstanding := outstanding s - 1\<rparr> in
     if committing s then Panic ''log.committing''
     else if outstanding s = 0 then
       obind (lk_release LkLog (s\<lparr>committing := True\<rparr>)) (\<lambda>_ s.
       obind (commit s) (\<lambda>_ s.
       obind (lk_acquire LkLog s) (\<lambda>_ s.
       obind (wakeup (Some ChLog) (s\<lparr>committing := False\<rparr>)) (\<lambda>_ s.
       lk_release LkLog s))))
     else obind (wakeup (Some ChLog) s) (\<lambda>_ s. lk_release LkLog s))"

text \<open>The search of \<open>log_write\<close> for the block in the header: its position, or \<open>log.lh.n\<close>.\<close>

fun log_find :: "nat \<Rightarrow> nat \<Rightarrow> (nat \<Rightarrow> u32) \<Rightarrow> u32 \<Rightarrow> nat" where
  "log_find 0 n blk bn = n"
| "log_find (Suc k) n blk bn = (let i = n - Suc k in if blk i = bn then i else log_find k n blk bn)"

definition log_write :: "nat \<Rightarrow> 'a log_state_scheme \<Rightarrow> (unit, 'a log_state_scheme) outcome" where
  "log_write b s =
     obind (lk_acquire LkLog s) (\<lambda>_ s.
       if lh_n s \<ge> int LOGSIZE \<or> lh_n s \<ge> log_size s - 1 then Panic ''too big a transaction''
       else if outstanding s < 1 then Panic ''log_write outside of trans''
       else
         let bn = blockno (bufs s b);
             i = log_find (nat (lh_n s)) (nat (lh_n s)) (lh_block s) bn;
             s = s\<lparr>lh_block := (lh_block s)(i := bn)\<rparr> in
         if int i = lh_n s then obind (bpin b s) (\<lambda>_ s. lk_release LkLog (s\<lparr>lh_n := lh_n s + 1\<rparr>))
         else lk_release LkLog s)"

section \<open>The log over the contract of the cache\<close>

declare install_trans_loop.simps [simp del] write_log_loop.simps [simp del] read_head_loop.simps [simp del]
  write_head_loop.simps [simp del] log_find.simps [simp del]

lemma truncate_eqD:
  assumes "bio_state.truncate s = bio_state.truncate t"
  shows "bview_of p s = bview_of p t" "bio_inv p s = bio_inv p t"
proof -
  have e: "bufs s = bufs t" "sleeplocks s = sleeplocks t" "disk s = disk t" "writes s = writes t"
    "procs s = procs t" "cur s = cur t" "held s = held t"
    using assms by (simp_all add: bio_state.truncate_def)
  have "is_buf s = is_buf t" by (simp add: is_buf_def e fun_eq_iff)
  then have i: "idx s = idx t" by (simp only: idx_def [abs_def])
  have m: "my_lock p s = my_lock p t" by (simp add: my_lock_def e)
  show "bview_of p s = bview_of p t"
    by (simp add: bview_of_def fun_eq_iff content_def refs_def hold_def unlocked_def i m e split: option.split)
  show "bio_inv p s = bio_inv p t"
    by (simp add: bio_inv_def running_def bcache_ok_def e)
qed

lemma view_log_fields [simp]:
  "bview_of p (s\<lparr>lh_n := n\<rparr>) = bview_of p s" "bio_inv p (s\<lparr>lh_n := n\<rparr>) = bio_inv p s"
  "bview_of p (s\<lparr>lh_block := bl\<rparr>) = bview_of p s" "bio_inv p (s\<lparr>lh_block := bl\<rparr>) = bio_inv p s"
  "bview_of p (s\<lparr>outstanding := z\<rparr>) = bview_of p s" "bio_inv p (s\<lparr>outstanding := z\<rparr>) = bio_inv p s"
  "bview_of p (s\<lparr>committing := c\<rparr>) = bview_of p s" "bio_inv p (s\<lparr>committing := c\<rparr>) = bio_inv p s"
  "bview_of p (s\<lparr>log_start := n\<rparr>) = bview_of p s" "bio_inv p (s\<lparr>log_start := n\<rparr>) = bio_inv p s"
  "bview_of p (s\<lparr>log_size := n\<rparr>) = bview_of p s" "bio_inv p (s\<lparr>log_size := n\<rparr>) = bio_inv p s"
  "bview_of p (s\<lparr>log_dev := d\<rparr>) = bview_of p s" "bio_inv p (s\<lparr>log_dev := d\<rparr>) = bio_inv p s"
  by (rule truncate_eqD, simp add: bio_state.truncate_def)+

lemma rest_log_fields:
  assumes "bio_rest p t = bio_rest p s"
  shows "log_start t = log_start s" "log_size t = log_size s" "outstanding t = outstanding s"
    "committing t = committing s" "log_dev t = log_dev s" "lh_n t = lh_n s" "lh_block t = lh_block s"
  using assms by (cases s; cases t; simp add: bio_rest_def)+

text \<open>A sequence of disk writes, and its effect on what clients see.\<close>

fun apply_writes :: "(u32 \<times> bytes) list \<Rightarrow> (u32 \<Rightarrow> bytes) \<Rightarrow> u32 \<Rightarrow> bytes" where
  "apply_writes [] d = d"
| "apply_writes ((b, x) # ws) d = apply_writes ws (d(b := x))"

lemma apply_append: "apply_writes (ws @ xs) d = apply_writes xs (apply_writes ws d)"
  by (induction ws arbitrary: d) auto

lemma apply_other: "b \<notin> fst ` set ws \<Longrightarrow> apply_writes ws d b = d b"
  by (induction ws arbitrary: d) auto

lemma apply_map_in:
  "i \<in> set xs \<Longrightarrow> inj_on f (set xs) \<Longrightarrow> distinct xs \<Longrightarrow> apply_writes (map (\<lambda>i. (f i, g i)) xs) d (f i) = g i"
  by (induction xs arbitrary: d) (auto simp: apply_other image_image)

fun v_stores :: "(u32 \<times> bytes) list \<Rightarrow> bview \<Rightarrow> bview" where
  "v_stores [] v = v"
| "v_stores ((b, x) # ws) v = v_stores ws (v_store b x v)"

fun v_installs :: "bool \<Rightarrow> (u32 \<times> bytes) list \<Rightarrow> bview \<Rightarrow> bview" where
  "v_installs rc [] v = v"
| "v_installs rc ((b, x) # ws) v = v_installs rc ws (v_install rc b x v)"

lemma v_stores_eq:
  "v_stores ws v = v\<lparr>vcontent := apply_writes ws (vcontent v), vdisk := apply_writes ws (vdisk v),
     vwrites := vwrites v @ ws\<rparr>"
  by (induction ws arbitrary: v) (auto simp: v_store_def)

lemma v_installs_True: "v_installs True ws v = v_stores ws v"
  by (induction ws arbitrary: v) (auto simp: v_install_def)

lemma v_unpin_stores: "v_stores ws (v_unpin b v) = v_unpin b (v_stores ws v)"
  by (simp add: v_stores_eq v_unpin_def)

lemma v_installs_False:
  "distinct (map fst ws) \<Longrightarrow> v_installs False ws v =
    (v_stores ws v)\<lparr>vrefs := \<lambda>b. if b \<in> fst ` set ws then vrefs v b - 1 else vrefs v b\<rparr>"
  by (induction ws arbitrary: v) (auto simp: v_install_def v_unpin_def v_stores_eq v_store_def fun_eq_iff)

section \<open>The two copying loops\<close>

lemma ensures_with:
  "ensures m (\<lambda>_. R) \<Longrightarrow> ensures m P \<Longrightarrow> (\<And>a t. R t \<Longrightarrow> P a t \<Longrightarrow> Q a t) \<Longrightarrow> ensures m Q"
  by (cases m) simp_all

text \<open>The second read of an iteration finds the header and the device unchanged.\<close>

lemma bread_twice:
  assumes "bio_inv p s" and "log_dev s = ROOTDEV" and "\<not> vlocked (bview_of p s) a" and "vroom (bview_of p s) a"
    and "ensures (bread ROOTDEV a s) (\<lambda>x s'. ensures (bread ROOTDEV (lh_block s i) s') (P x))"
  shows "ensures (bread (log_dev s) a s) (\<lambda>x s'. ensures (bread (log_dev s') (lh_block s' i) s') (P x))"
proof -
  have "ensures (bread ROOTDEV a s) (\<lambda>_ t. bio_rest p t = bio_rest p s)"
    by (rule ensures_mono [OF bread_law [OF assms(1,3,4)]]) simp
  from ensures_with [OF this assms(5)] show ?thesis
    unfolding assms(2) using rest_log_fields(5,7) assms(2) by (metis (no_types, lifting))
qed

text \<open>The transaction in the in-memory header: the blocks, and room to read each with its slot.\<close>

definition trans_ok :: "nat \<Rightarrow> nat \<Rightarrow> 'a log_state_scheme \<Rightarrow> bool" where
  "trans_ok p n s \<longleftrightarrow> bio_inv p s \<and> log_dev s = ROOTDEV \<and> lh_n s = int n \<and>
     (\<forall>i < n. \<forall>j < n. lh_block s i \<noteq> log_slot j s) \<and>
     (\<forall>i < n. \<not> vlocked (bview_of p s) (lh_block s i) \<and> \<not> vlocked (bview_of p s) (log_slot i s))"

text \<open>Enough unreferenced buffers to read block \<open>b\<close> together with a block of the log.\<close>

definition vslack :: "bview \<Rightarrow> u32 \<Rightarrow> bool" where
  "vslack v b \<longleftrightarrow> card (insert b {bn. vrefs v bn \<noteq> 0}) < NBUF \<and> (\<forall>bn. vrefs v bn + 2 < 2 ^ 32)"

lemma vslack_mono: "vslack v b \<Longrightarrow> (\<And>bn. vrefs w bn \<le> vrefs v bn) \<Longrightarrow> vslack w b"
proof -
  assume v: "vslack v b" and le: "\<And>bn. vrefs w bn \<le> vrefs v bn"
  have "insert b {bn. vrefs w bn \<noteq> 0} \<subseteq> insert b {bn. vrefs v bn \<noteq> 0}"
    using le by (auto simp: Suc_le_eq dest: order.strict_trans2 [of 0])
  then have "card (insert b {bn. vrefs w bn \<noteq> 0}) \<le> card (insert b {bn. vrefs v bn \<noteq> 0})"
    by (rule card_mono [rotated]) simp
  moreover have "vrefs w bn + 2 < 2 ^ 32" for bn
    using v le [of bn] unfolding vslack_def by (meson add_le_mono1 order.strict_trans1)
  ultimately show ?thesis using v by (simp add: vslack_def)
qed

lemma vslack_room: "vslack v b \<Longrightarrow> vroom v a"
proof -
  assume v: "vslack v b"
  have "card {bn. vrefs v bn \<noteq> 0} \<le> card (insert b {bn. vrefs v bn \<noteq> 0})" by (rule card_mono) auto
  moreover have "vrefs v a + 2 < 2 ^ 32" using v unfolding vslack_def by blast
  ultimately show "vroom v a" using v unfolding vslack_def vroom_def by linarith
qed

lemma vslack_room2:
  assumes "vslack v b"
  shows "vroom2 v a b"
proof -
  let ?U = "{bn. vrefs v bn \<noteq> 0}"
  let ?w = "v\<lparr>vrefs := (vrefs v)(a := vrefs v a + 1)\<rparr>"
  have "{bn. vrefs ?w bn \<noteq> 0} = insert a ?U" by auto
  then have w: "card {bn. vrefs ?w bn \<noteq> 0} \<le> Suc (card ?U)" by (simp add: card_insert_if)
  have "vrefs v a + 2 < 2 ^ 32" "vrefs v b + 2 < 2 ^ 32" using assms unfolding vslack_def by blast+
  then have n: "vrefs ?w b + 1 < 2 ^ 32" by simp
  have "vrefs ?w b \<noteq> 0 \<or> card {bn. vrefs ?w bn \<noteq> 0} < NBUF"
  proof (cases "vrefs v b = 0")
    case True
    then have "card (insert b ?U) = Suc (card ?U)" by (simp add: card_insert_if)
    with w assms show ?thesis unfolding vslack_def by linarith
  qed simp
  with n have "vroom ?w b" unfolding vroom_def by blast
  then show ?thesis using vslack_room [OF assms, of a] by (simp add: vroom2_def)
qed

lemma write_log_loop_ensures:
  assumes "trans_ok p n s" and "k \<le> n"
    and "\<forall>i < n. vslack (bview_of p s) (lh_block s i)"
  shows "ensures (write_log_loop k s) (\<lambda>_ t. bio_inv p t \<and> bio_rest p t = bio_rest p s \<and>
    bview_of p t = v_stores (map (\<lambda>i. (log_slot i s, vcontent (bview_of p s) (lh_block s i))) [n - k..<n])
      (bview_of p s))"
  using assms
proof (induction k arbitrary: s)
  case 0
  then show ?case by (simp add: write_log_loop.simps trans_ok_def)
next
  case (Suc k)
  let ?i = "n - Suc k" and ?v = "bview_of p s"
  have i: "?i < n" "[?i..<n] = ?i # [n - k..<n]"
    using Suc.prems(2) by (simp_all add: upt_conv_Cons Suc_diff_Suc)
  have s: "bio_inv p s" "log_dev s = ROOTDEV" "nat (lh_n s) = n" "lh_block s ?i \<noteq> log_slot ?i s"
    "\<not> vlocked ?v (log_slot ?i s)" "\<not> vlocked ?v (lh_block s ?i)"
    using Suc.prems(1) i(1) by (simp_all add: trans_ok_def del: ROOTDEV_def)
  have r: "vroom2 ?v (log_slot ?i s) (lh_block s ?i)" using Suc.prems(3) i(1) vslack_room2 by blast
  have a: "ensures (obind (bread (log_dev s) (log_slot ?i s) s) (\<lambda>to s.
      obind (bread (log_dev s) (lh_block s ?i) s) (\<lambda>from s.
      obind (bwrite to (set_data to (get_data from s) s)) (\<lambda>_ s.
      obind (brelse from s) (\<lambda>_ s. brelse to s)))))
    (\<lambda>_ t. bio_inv p t \<and> bview_of p t = v_store (log_slot ?i s) (vcontent ?v (lh_block s ?i)) ?v \<and>
      bio_rest p t = bio_rest p s)"
    unfolding ensures_obind
    by (rule bread_twice [OF s(1,2,5)], use r in \<open>simp add: vroom2_def\<close>)
      (rule bc.copy_block [OF s(1,4,5,6) r refl refl])
  have b: "ensures (write_log_loop k t) (\<lambda>_ u. bio_inv p u \<and> bio_rest p u = bio_rest p s \<and>
      bview_of p u = v_stores (map (\<lambda>i. (log_slot i s, vcontent ?v (lh_block s i))) [?i..<n]) ?v)"
    if t: "bio_inv p t" "bview_of p t = v_store (log_slot ?i s) (vcontent ?v (lh_block s ?i)) ?v"
      "bio_rest p t = bio_rest p s" for t
  proof -
    note f = rest_log_fields [OF t(3)]
    have sl: "log_slot j t = log_slot j s" for j by (simp add: log_slot_def f)
    have "trans_ok p n t"
      using Suc.prems(1) t unfolding trans_ok_def sl f by (simp add: v_store_def)
    moreover have "\<forall>i < n. vslack (bview_of p t) (lh_block t i)"
      using Suc.prems(3) unfolding sl f t(2) by (simp add: vslack_def v_store_def)
    ultimately have "ensures (write_log_loop k t) (\<lambda>_ u. bio_inv p u \<and> bio_rest p u = bio_rest p t \<and>
        bview_of p u = v_stores (map (\<lambda>i. (log_slot i t, vcontent (bview_of p t) (lh_block t i))) [n - k..<n])
          (bview_of p t))"
      by (intro Suc.IH) (use Suc.prems(2) in auto)
    moreover have "vcontent (bview_of p t) (lh_block s j) = vcontent ?v (lh_block s j)" if "j < n" for j
      using Suc.prems(1) that i(1) unfolding t(2) trans_ok_def by (simp add: v_store_def)
    then have "map (\<lambda>i. (log_slot i s, vcontent (bview_of p t) (lh_block s i))) [n - k..<n] =
        map (\<lambda>i. (log_slot i s, vcontent ?v (lh_block s i))) [n - k..<n]"
      by simp
    ultimately show ?thesis
      unfolding sl f i(2) t(2,3) by simp
  qed
  have "write_log_loop (Suc k) s = obind (obind (bread (log_dev s) (log_slot ?i s) s) (\<lambda>to s.
      obind (bread (log_dev s) (lh_block s ?i) s) (\<lambda>from s.
      obind (bwrite to (set_data to (get_data from s) s)) (\<lambda>_ s.
      obind (brelse from s) (\<lambda>_ s. brelse to s))))) (\<lambda>_ s. write_log_loop k s)"
    by (simp only: write_log_loop.simps Let_def s(3) obind_assoc)
  then show ?case
    using ensures_mono [OF a] b by (simp only: ensures_obind)
qed

lemma install_loop_ensures:
  assumes "trans_ok p n s" and "k \<le> n" and "distinct (map (lh_block s) [0..<n])"
    and "\<forall>i < n. vslack (bview_of p s) (lh_block s i)"
    and "\<forall>i. n - k \<le> i \<longrightarrow> i < n \<longrightarrow> rc \<or> 1 \<le> vrefs (bview_of p s) (lh_block s i)"
  shows "ensures (install_trans_loop k rc s) (\<lambda>_ t. bio_inv p t \<and> bio_rest p t = bio_rest p s \<and>
    bview_of p t = v_installs rc (map (\<lambda>i. (lh_block s i, vcontent (bview_of p s) (log_slot i s))) [n - k..<n])
      (bview_of p s))"
  using assms
proof (induction k arbitrary: s)
  case 0
  then show ?case by (simp add: install_trans_loop.simps trans_ok_def)
next
  case (Suc k)
  let ?i = "n - Suc k" and ?v = "bview_of p s"
  have i: "?i < n" "[?i..<n] = ?i # [n - k..<n]"
    using Suc.prems(2) by (simp_all add: upt_conv_Cons Suc_diff_Suc)
  have s: "bio_inv p s" "log_dev s = ROOTDEV" "nat (lh_n s) = n" "log_slot ?i s \<noteq> lh_block s ?i"
    "\<not> vlocked ?v (lh_block s ?i)" "\<not> vlocked ?v (log_slot ?i s)"
    using Suc.prems(1) i(1) unfolding trans_ok_def by (simp_all del: ROOTDEV_def) metis
  have r: "vroom2 ?v (log_slot ?i s) (lh_block s ?i)" using Suc.prems(4) i(1) vslack_room2 by blast
  have pn: "rc \<or> 1 \<le> vrefs ?v (lh_block s ?i)" using Suc.prems(5) i(1) by blast
  have a: "ensures (obind (bread (log_dev s) (log_slot ?i s) s) (\<lambda>lbuf s.
      obind (bread (log_dev s) (lh_block s ?i) s) (\<lambda>dbuf s.
      obind (bwrite dbuf (set_data dbuf (get_data lbuf s) s)) (\<lambda>_ s.
      obind (if rc then Ok () s else bunpin dbuf s) (\<lambda>_ s.
      obind (brelse lbuf s) (\<lambda>_ s. brelse dbuf s))))))
    (\<lambda>_ t. bio_inv p t \<and> bview_of p t = v_install rc (lh_block s ?i) (vcontent ?v (log_slot ?i s)) ?v \<and>
      bio_rest p t = bio_rest p s)"
    unfolding ensures_obind
    by (rule bread_twice [OF s(1,2,6)], use r in \<open>simp add: vroom2_def\<close>)
      (rule bc.install_block [OF s(1,4,5,6) r pn refl refl])
  have b: "ensures (install_trans_loop k rc t) (\<lambda>_ u. bio_inv p u \<and> bio_rest p u = bio_rest p s \<and>
      bview_of p u = v_installs rc (map (\<lambda>i. (lh_block s i, vcontent ?v (log_slot i s))) [?i..<n]) ?v)"
    if t: "bio_inv p t" "bview_of p t = v_install rc (lh_block s ?i) (vcontent ?v (log_slot ?i s)) ?v"
      "bio_rest p t = bio_rest p s" for t
  proof -
    note f = rest_log_fields [OF t(3)]
    have sl: "log_slot j t = log_slot j s" for j by (simp add: log_slot_def f)
    have "trans_ok p n t"
      using Suc.prems(1) t unfolding trans_ok_def sl f by (simp add: v_install_def v_defs)
    moreover have "\<forall>i < n. vslack (bview_of p t) (lh_block t i)"
      unfolding f t(2) using Suc.prems(4)
      by (auto intro: vslack_mono [of ?v] simp add: v_install_def v_defs)
    moreover have "\<forall>i. n - k \<le> i \<longrightarrow> i < n \<longrightarrow> rc \<or> 1 \<le> vrefs (bview_of p t) (lh_block t i)"
    proof (intro allI impI)
      fix j
      assume j: "n - k \<le> j" "j < n"
      then have "lh_block s j \<noteq> lh_block s ?i"
        using Suc.prems(2,3) i(1) by (auto simp: distinct_map dest!: inj_onD [of _ _ j ?i])
      then show "rc \<or> 1 \<le> vrefs (bview_of p t) (lh_block t j)"
        unfolding f t(2) using Suc.prems(5) [rule_format, of j] j by (auto simp add: v_install_def v_defs)
    qed
    ultimately have "ensures (install_trans_loop k rc t) (\<lambda>_ u. bio_inv p u \<and> bio_rest p u = bio_rest p t \<and>
        bview_of p u = v_installs rc (map (\<lambda>i. (lh_block t i, vcontent (bview_of p t) (log_slot i t))) [n - k..<n])
          (bview_of p t))"
      by (intro Suc.IH) (use Suc.prems(2,3) f in auto)
    moreover have "vcontent (bview_of p t) (log_slot j s) = vcontent ?v (log_slot j s)" if "j < n" for j
    proof -
      have "lh_block s ?i \<noteq> log_slot j s" using Suc.prems(1) that i(1) unfolding trans_ok_def by blast
      then show ?thesis unfolding t(2) by (auto simp add: v_install_def v_defs)
    qed
    then have "map (\<lambda>i. (lh_block s i, vcontent (bview_of p t) (log_slot i s))) [n - k..<n] =
        map (\<lambda>i. (lh_block s i, vcontent ?v (log_slot i s))) [n - k..<n]"
      by simp
    ultimately show ?thesis
      unfolding sl f i(2) t(2,3) by simp
  qed
  have "install_trans_loop (Suc k) rc s = obind (obind (bread (log_dev s) (log_slot ?i s) s) (\<lambda>lbuf s.
      obind (bread (log_dev s) (lh_block s ?i) s) (\<lambda>dbuf s.
      obind (bwrite dbuf (set_data dbuf (get_data lbuf s) s)) (\<lambda>_ s.
      obind (if rc then Ok () s else bunpin dbuf s) (\<lambda>_ s.
      obind (brelse lbuf s) (\<lambda>_ s. brelse dbuf s)))))) (\<lambda>_ s. install_trans_loop k rc s)"
    by (simp only: install_trans_loop.simps Let_def s(3) obind_assoc)
  then show ?case
    using ensures_mono [OF a] b by (simp only: ensures_obind)
qed

section \<open>The header\<close>

definition hdr_n :: "bytes \<Rightarrow> int" where
  "hdr_n d = sint (load32 d 0)"

definition hdr_block :: "bytes \<Rightarrow> nat \<Rightarrow> u32" where
  "hdr_block d i = load32 d (4 + 4 * i)"

definition head_bytes :: "nat \<Rightarrow> (nat \<Rightarrow> u32) \<Rightarrow> bytes \<Rightarrow> bytes" where
  "head_bytes n blk d = write_head_loop n n blk (store32 d 0 (word_of_int (int n)))"

lemma write_head_loop_load:
  assumes "k \<le> n"
  shows "load32 (write_head_loop k n blk hb) 0 = load32 hb 0"
    "load32 (write_head_loop k n blk hb) (4 + 4 * i) = (if n - k \<le> i \<and> i < n then blk i else load32 hb (4 + 4 * i))"
  using assms
proof (induction k arbitrary: hb)
  case 0
  { case 1 then show ?case by (simp add: write_head_loop.simps) }
  { case 2 show ?case by (auto simp add: write_head_loop.simps) }
next
  case (Suc k)
  { case 1 then show ?case using Suc.IH(1) by (simp add: write_head_loop.simps Let_def load32_store32_disjoint) }
  { case 2
    then have "k \<le> n" by simp
    have d: "load32 (store32 hb (4 + 4 * (n - Suc k)) v) (4 + 4 * i) =
        (if i = n - Suc k then v else load32 hb (4 + 4 * i))" for v
      by (cases "i < n - Suc k") (auto simp: load32_store32_disjoint)
    show ?case
      using 2 unfolding write_head_loop.simps Let_def Suc.IH(2) [OF \<open>k \<le> n\<close>] d by auto }
qed

lemma head_bytes_hdr:
  assumes "n \<le> LOGSIZE"
  shows "hdr_n (head_bytes n blk d) = int n" "i < n \<Longrightarrow> hdr_block (head_bytes n blk d) i = blk i"
proof -
  have "sint (word_of_int (int n) :: u32) = int n"
    using assms by (simp add: signed_of_nat signed_take_bit_int_eq_self)
  then show "hdr_n (head_bytes n blk d) = int n"
    by (simp add: hdr_n_def head_bytes_def write_head_loop_load)
  show "i < n \<Longrightarrow> hdr_block (head_bytes n blk d) i = blk i"
    by (simp add: hdr_block_def head_bytes_def write_head_loop_load(2))
qed

lemma read_head_loop_eq:
  assumes "k \<le> nat (lh_n s)" and "nat (lh_n s) \<le> LOGSIZE"
  shows "read_head_loop k lh s = Ok () (s\<lparr>lh_block :=
    \<lambda>i. if nat (lh_n s) - k \<le> i \<and> i < nat (lh_n s) then hdr_block lh i else lh_block s i\<rparr>)"
  using assms
proof (induction k arbitrary: s)
  case 0
  have "(\<lambda>i. if nat (lh_n s) \<le> i \<and> i < nat (lh_n s) then hdr_block lh i else lh_block s i) = lh_block s"
    by (auto simp: fun_eq_iff)
  then show ?case by (simp add: read_head_loop.simps)
next
  case (Suc k)
  let ?n = "nat (lh_n s)"
  let ?b = "(lh_block s)(?n - Suc k := hdr_block lh (?n - Suc k))"
  have "(\<lambda>i. if ?n - k \<le> i \<and> i < ?n then hdr_block lh i else ?b i) =
      (\<lambda>i. if ?n - Suc k \<le> i \<and> i < ?n then hdr_block lh i else lh_block s i)"
    using Suc.prems(1) by (auto simp: fun_eq_iff)
  moreover have "\<not> LOGSIZE \<le> ?n - Suc k" using Suc.prems by linarith
  ultimately show ?case
    using Suc.prems Suc.IH [of "s\<lparr>lh_block := ?b\<rparr>"]
    by (simp add: read_head_loop.simps Let_def hdr_block_def [symmetric] del: LOGSIZE_def cong: if_cong)
qed

abbreviation log_head :: "'a log_state_scheme \<Rightarrow> u32" where
  "log_head s \<equiv> word_of_int (log_start s)"

lemma write_head_ensures:
  assumes i: "bio_inv p s" and d: "log_dev s = ROOTDEV" and n: "lh_n s = int n"
    and l: "\<not> vlocked (bview_of p s) (log_head s)" and r: "vroom (bview_of p s) (log_head s)"
  shows "ensures (write_head s) (\<lambda>_ t. bio_inv p t \<and> bview_of p t = v_store (log_head s)
      (head_bytes n (lh_block s) (vcontent (bview_of p s) (log_head s))) (bview_of p s) \<and>
    bio_rest p t = bio_rest p s)"
proof -
  have "ensures (bread ROOTDEV (log_head s) s) (\<lambda>_ t. bio_rest p t = bio_rest p s)"
    by (rule ensures_mono [OF bread_law [OF i l r]]) simp
  then have "ensures (bread ROOTDEV (log_head s) s) (\<lambda>buf t.
      ensures (bwrite buf (set_data buf (write_head_loop (nat (lh_n t)) (nat (lh_n t)) (lh_block t)
        (store32 (get_data buf t) 0 (word_of_int (lh_n t)))) t)) (\<lambda>_ t. ensures (brelse buf t)
      (\<lambda>_ t. bio_inv p t \<and> bview_of p t = v_store (log_head s)
      (head_bytes n (lh_block s) (vcontent (bview_of p s) (log_head s))) (bview_of p s) \<and>
        bio_rest p t = bio_rest p s)))"
  proof (rule ensures_with [OF _ bc.store_block [OF i l r refl, of "head_bytes n (lh_block s)"]])
    fix buf t
    assume "bio_rest p t = bio_rest p s"
    note f = rest_log_fields [OF this]
    let ?P = "\<lambda>_ u. ensures (brelse buf u) (\<lambda>_ t. bio_inv p t \<and> bview_of p t = v_store (log_head s)
      (head_bytes n (lh_block s) (vcontent (bview_of p s) (log_head s))) (bview_of p s) \<and>
        bio_rest p t = bio_rest p s)"
    assume "ensures (bwrite buf (set_data buf (head_bytes n (lh_block s) (get_data buf t)) t)) ?P"
    then show "ensures (bwrite buf (set_data buf (write_head_loop (nat (lh_n t)) (nat (lh_n t)) (lh_block t)
        (store32 (get_data buf t) 0 (word_of_int (lh_n t)))) t)) ?P"
      by (simp only: f n head_bytes_def nat_int)
  qed
  then show ?thesis
    unfolding write_head_def d Let_def ensures_obind .
qed

lemma read_head_ensures:
  assumes i: "bio_inv p s" and d: "log_dev s = ROOTDEV"
    and l: "\<not> vlocked (bview_of p s) (log_head s)" and r: "vroom (bview_of p s) (log_head s)"
    and n: "hdr_n (vcontent (bview_of p s) (log_head s)) = int n" "n \<le> LOGSIZE"
  shows "ensures (read_head s) (\<lambda>_ t. bio_inv p t \<and> bview_of p t = bview_of p s \<and> lh_n t = int n \<and>
    (\<forall>i < n. lh_block t i = hdr_block (vcontent (bview_of p s) (log_head s)) i) \<and>
    log_start t = log_start s \<and> log_dev t = log_dev s \<and> log_size t = log_size s \<and>
    outstanding t = outstanding s \<and> committing t = committing s)"
  unfolding read_head_def d ensures_obind Let_def
proof (rule ensures_mono [OF bc.read_release [OF i l r]], elim conjE)
  fix b t
  let ?h = "vcontent (bview_of p s) (log_head s)"
  assume t: "get_data b t = ?h" "bio_inv p t" "vhold (bview_of p t) (log_head s) = Some b"
    "bio_rest p t = bio_rest p s"
    "vrefs (bview_of p t) (log_head s) = 1 \<longrightarrow> vcontent (bview_of p t) (log_head s) = vdisk (bview_of p t) (log_head s)"
    "v_release (log_head s) (bview_of p t) = bview_of p s"
  note f = rest_log_fields [OF t(4)]
  let ?bl = "\<lambda>i. if i < n then hdr_block ?h i else lh_block t i"
  let ?u = "t\<lparr>lh_n := int n, lh_block := ?bl\<rparr>"
  have u: "read_head_loop n ?h (t\<lparr>lh_n := int n\<rparr>) = Ok () ?u"
    using read_head_loop_eq [of n "t\<lparr>lh_n := int n\<rparr>" ?h] n(2) by (simp del: LOGSIZE_def cong: if_cong)
  have "ensures (brelse b ?u) (\<lambda>_ t'. bio_inv p t' \<and> bview_of p t' = bview_of p s \<and> bio_rest p t' = bio_rest p ?u)"
    using brelse_law [of p ?u "log_head s" b] t by simp
  then have "ensures (brelse b ?u) (\<lambda>_ t. bio_inv p t \<and> bview_of p t = bview_of p s \<and> lh_n t = int n \<and>
      (\<forall>i < n. lh_block t i = hdr_block ?h i) \<and> log_start t = log_start s \<and> log_dev t = ROOTDEV \<and>
      log_size t = log_size s \<and> outstanding t = outstanding s \<and> committing t = committing s)"
    by (rule ensures_mono) (use f d in \<open>auto dest: rest_log_fields\<close>)
  then show "ensures (read_head_loop (nat (lh_n (t\<lparr>lh_n := sint (load32 (get_data b t) 0)\<rparr>))) (get_data b t)
      (t\<lparr>lh_n := sint (load32 (get_data b t) 0)\<rparr>)) (\<lambda>a s'. ensures (brelse b s') (\<lambda>_ t. bio_inv p t \<and>
      bview_of p t = bview_of p s \<and> lh_n t = int n \<and> (\<forall>i < n. lh_block t i = hdr_block ?h i) \<and>
      log_start t = log_start s \<and> log_dev t = ROOTDEV \<and>
      log_size t = log_size s \<and> outstanding t = outstanding s \<and> committing t = committing s))"
    using u n(1) unfolding t(1) hdr_n_def by simp
qed

section \<open>What a crash leaves\<close>

text \<open>
  A disk after a crash is the disk before with a prefix of the writes applied.  \<open>recovered\<close> is the
  disk that recovery makes of it, and the home locations are the blocks outside the log.
\<close>

definition slot_of :: "int \<Rightarrow> nat \<Rightarrow> u32" where
  "slot_of st i = word_of_int (st + int i + 1)"

definition head_of :: "int \<Rightarrow> u32" where
  "head_of st = word_of_int st"

definition log_area :: "int \<Rightarrow> u32 set" where
  "log_area st = insert (head_of st) (slot_of st ` {..<LOGSIZE})"

definition log_place :: "int \<Rightarrow> bool" where
  "log_place st \<longleftrightarrow> 0 \<le> st \<and> st + int LOGSIZE < 2 ^ 31"

definition redo_writes :: "int \<Rightarrow> (u32 \<Rightarrow> bytes) \<Rightarrow> (u32 \<times> bytes) list" where
  "redo_writes st d = map (\<lambda>i. (hdr_block (d (head_of st)) i, d (slot_of st i))) [0..<nat (hdr_n (d (head_of st)))]"

definition recovered :: "int \<Rightarrow> (u32 \<Rightarrow> bytes) \<Rightarrow> u32 \<Rightarrow> bytes" where
  "recovered st d = apply_writes (redo_writes st d) d"

definition log_wf :: "int \<Rightarrow> (u32 \<Rightarrow> bytes) \<Rightarrow> bool" where
  "log_wf st d \<longleftrightarrow> (\<exists>n \<le> LOGSIZE. hdr_n (d (head_of st)) = int n \<and>
     distinct (map (hdr_block (d (head_of st))) [0..<n]) \<and>
     (\<forall>i < n. hdr_block (d (head_of st)) i \<notin> log_area st))"

definition same_home :: "int \<Rightarrow> (u32 \<Rightarrow> bytes) \<Rightarrow> (u32 \<Rightarrow> bytes) \<Rightarrow> bool" where
  "same_home st d e \<longleftrightarrow> (\<forall>bn. bn \<notin> log_area st \<longrightarrow> d bn = e bn)"

lemma slot_uint:
  assumes "log_place st"
  shows "i < LOGSIZE \<Longrightarrow> uint (slot_of st i) = st + int i + 1" "uint (head_of st) = st"
  using assms unfolding slot_of_def head_of_def uint_word_of_int log_place_def by auto

lemma slot_inj:
  assumes "log_place st" and "i < LOGSIZE" "j < LOGSIZE" and "slot_of st i = slot_of st j"
  shows "i = j"
proof -
  have "st + int i + 1 = st + int j + 1" using slot_uint(1) [OF assms(1)] assms(2-4) by metis
  then show ?thesis by simp
qed

lemma slot_not_head: "log_place st \<Longrightarrow> i < LOGSIZE \<Longrightarrow> slot_of st i \<noteq> head_of st"
  using slot_uint(1) [of st i] slot_uint(2) [of st] by auto

lemma area_mem: "head_of st \<in> log_area st" "i < LOGSIZE \<Longrightarrow> slot_of st i \<in> log_area st"
  by (auto simp: log_area_def)

lemma apply_map_fun: "apply_writes (map (\<lambda>i. (f i, h (f i))) xs) e b = (if b \<in> f ` set xs then h b else e b)"
  by (induction xs arbitrary: e) auto

lemma take_map_upt: "take j (map f [0..<n]) = map f [0..<min j n]"
  by (simp add: take_map take_upt min_def)

lemma redo_home:
  assumes "log_wf st d" and "log_place st"
  shows "recovered st d (head_of st) = d (head_of st)" "i < LOGSIZE \<Longrightarrow> recovered st d (slot_of st i) = d (slot_of st i)"
proof -
  have "bn \<notin> fst ` set (redo_writes st d)" if "bn \<in> log_area st" for bn
    using assms(1) that by (auto simp: log_wf_def redo_writes_def)
  then show "recovered st d (head_of st) = d (head_of st)"
    "i < LOGSIZE \<Longrightarrow> recovered st d (slot_of st i) = d (slot_of st i)"
    by (simp_all add: recovered_def apply_other area_mem)
qed

lemma redo_as_fun:
  assumes "log_wf st d"
  shows "redo_writes st d = map (\<lambda>i. (hdr_block (d (head_of st)) i, recovered st d (hdr_block (d (head_of st)) i)))
    [0..<nat (hdr_n (d (head_of st)))]"
proof -
  have "recovered st d (hdr_block (d (head_of st)) i) = d (slot_of st i)" if "i < nat (hdr_n (d (head_of st)))" for i
    unfolding recovered_def redo_writes_def
    using assms that by (intro apply_map_in) (auto simp: log_wf_def distinct_map)
  then show ?thesis unfolding redo_writes_def by (intro map_cong) auto
qed

text \<open>A disk whose log is the same and whose home blocks agree except where recovery writes.\<close>

lemma same_log:
  assumes "e (head_of st) = d (head_of st)" and "\<And>i. i < LOGSIZE \<Longrightarrow> e (slot_of st i) = d (slot_of st i)"
    and "log_wf st d"
  shows "log_wf st e" "redo_writes st e = redo_writes st d"
proof -
  show "log_wf st e" using assms(1,3) by (simp add: log_wf_def)
  have "nat (hdr_n (d (head_of st))) \<le> LOGSIZE" using assms(3) by (auto simp: log_wf_def)
  then show "redo_writes st e = redo_writes st d"
    unfolding redo_writes_def assms(1) by (intro map_cong) (auto simp: assms(2))
qed

lemma empty_log: "hdr_n (d (head_of st)) = 0 \<Longrightarrow> log_wf st d \<and> recovered st d = d"
  by (simp add: log_wf_def recovered_def redo_writes_def)

text \<open>Recovery can itself crash: what it would do on the disk it leaves is the same.\<close>

lemma recovery_prefix:
  fixes k :: nat
  assumes wf: "log_wf st d" and pl: "log_place st" and h0: "hdr_n H = 0"
  defines "e \<equiv> apply_writes (take k (redo_writes st d @ [(head_of st, H)])) d"
  shows "log_wf st e \<and> same_home st (recovered st e) (recovered st d)"
proof (cases "k \<le> length (redo_writes st d)")
  case True
  let ?b = "hdr_block (d (head_of st))" and ?n = "nat (hdr_n (d (head_of st)))"
  have t: "take k (redo_writes st d) = map (\<lambda>i. (?b i, recovered st d (?b i))) [0..<min k ?n]"
    by (subst redo_as_fun [OF wf]) (rule take_map_upt)
  have e: "e bn = (if bn \<in> ?b ` {0..<min k ?n} then recovered st d bn else d bn)" for bn
    using True unfolding e_def by (simp add: t apply_map_fun)
  have "e bn = d bn" if "bn \<in> log_area st" for bn
    using wf that unfolding e by (auto simp: log_wf_def)
  then have l: "log_wf st e" "redo_writes st e = redo_writes st d"
    using same_log [OF _ _ wf, of e] area_mem by auto
  have "recovered st e bn = recovered st d bn" for bn
  proof -
    have "recovered st e bn = (if bn \<in> ?b ` {0..<?n} then recovered st d bn else e bn)"
      unfolding recovered_def [of st e] l(2) by (subst redo_as_fun [OF wf]) (simp add: apply_map_fun)
    moreover have "recovered st d bn = d bn" if "bn \<notin> ?b ` {0..<?n}"
      using that unfolding recovered_def by (intro apply_other) (auto simp: redo_writes_def)
    ultimately show ?thesis by (auto simp: e)
  qed
  then show ?thesis using l(1) by (simp add: same_home_def)
next
  case False
  then have e: "e = (recovered st d)(head_of st := H)"
    unfolding e_def by (simp add: apply_append recovered_def)
  then have "hdr_n (e (head_of st)) = 0" using h0 by simp
  from empty_log [of e st, OF this] show ?thesis
    using area_mem(1) [of st] by (auto simp: e same_home_def)
qed

text \<open>The writes of a commit, and the three stages a crash can find.\<close>

definition commit_writes ::
    "int \<Rightarrow> nat \<Rightarrow> (nat \<Rightarrow> u32) \<Rightarrow> (u32 \<Rightarrow> bytes) \<Rightarrow> bytes \<Rightarrow> bytes \<Rightarrow> (u32 \<times> bytes) list" where
  "commit_writes st n blk c H H0 = map (\<lambda>i. (slot_of st i, c (blk i))) [0..<n] @ [(head_of st, H)] @
     map (\<lambda>i. (blk i, c (blk i))) [0..<n] @ [(head_of st, H0)]"

lemma slot_writes_home:
  assumes "n \<le> LOGSIZE" and "bn \<notin> log_area st"
  shows "apply_writes (map (\<lambda>i. (slot_of st i, g i)) [0..<n]) d bn = d bn"
proof (rule apply_other)
  have "slot_of st i \<in> log_area st" if "i < n" for i using area_mem(2) that assms(1) by simp
  then show "bn \<notin> fst ` set (map (\<lambda>i. (slot_of st i, g i)) [0..<n])" using assms(2) by auto
qed

lemma commit_stages:
  assumes k: "k \<le> length (commit_writes st n blk c H H0)"
  obtains (logging) "k \<le> n" "take k (commit_writes st n blk c H H0) = map (\<lambda>i. (slot_of st i, c (blk i))) [0..<k]"
  | (installing) j where "n < k" "j \<le> n" "take k (commit_writes st n blk c H H0) =
      map (\<lambda>i. (slot_of st i, c (blk i))) [0..<n] @ (head_of st, H) # map (\<lambda>i. (blk i, c (blk i))) [0..<j]"
  | (finished) "n < k" "take k (commit_writes st n blk c H H0) = commit_writes st n blk c H H0"
proof (cases "k \<le> n")
  case True
  then have "take k (commit_writes st n blk c H H0) = map (\<lambda>i. (slot_of st i, c (blk i))) [0..<k]"
    by (simp add: commit_writes_def take_map_upt min_def)
  with True show ?thesis by (rule logging)
next
  case k: False
  show ?thesis
  proof (cases "k \<le> n + 1 + n")
    case True
    have "take k (commit_writes st n blk c H H0) = map (\<lambda>i. (slot_of st i, c (blk i))) [0..<n] @
        (head_of st, H) # map (\<lambda>i. (blk i, c (blk i))) [0..<k - n - 1]"
      using k True by (cases "k - n") (auto simp add: commit_writes_def take_map_upt min_def)
    with k True show ?thesis by (intro installing [of "k - n - 1"]) auto
  next
    case False
    then have "length (commit_writes st n blk c H H0) \<le> k" by (simp add: commit_writes_def)
    with k show ?thesis by (intro finished) auto
  qed
qed

lemma commit_prefix:
  fixes k :: nat
  assumes pl: "log_place st" and n: "n \<le> LOGSIZE" and d0: "hdr_n (d (head_of st)) = 0"
    and blk: "distinct (map blk [0..<n])" "\<forall>i < n. blk i \<notin> log_area st"
    and H: "hdr_n H = int n" "\<forall>i < n. hdr_block H i = blk i" and H0: "hdr_n H0 = 0"
    and clean: "\<forall>bn. bn \<notin> log_area st \<longrightarrow> bn \<notin> blk ` {..<n} \<longrightarrow> c bn = d bn"
    and k: "k \<le> length (commit_writes st n blk c H H0)"
  defines "e \<equiv> apply_writes (take k (commit_writes st n blk c H H0)) d"
  shows "log_wf st e \<and> (k \<le> n \<longrightarrow> same_home st (recovered st e) d) \<and> (n < k \<longrightarrow> same_home st (recovered st e) c)"
  using k
proof (cases rule: commit_stages)
  case logging
  have "fst ` set (map (\<lambda>i. (slot_of st i, c (blk i))) [0..<k]) \<subseteq> log_area st - {head_of st}"
    using logging(1) n slot_not_head [OF pl] area_mem(2) by force
  then have e: "e (head_of st) = d (head_of st)" "bn \<notin> log_area st \<Longrightarrow> e bn = d bn" for bn
    unfolding e_def logging(2) by (intro apply_other; blast)+
  from empty_log [of e st] d0 e show ?thesis using logging(1) by (simp add: same_home_def)
next
  case (installing j)
  have e: "e bn = (if bn \<in> blk ` {0..<j} then c bn else
      ((apply_writes (map (\<lambda>i. (slot_of st i, c (blk i))) [0..<n]) d)(head_of st := H)) bn)" for bn
    unfolding e_def installing(3) by (simp add: apply_append apply_map_fun)
  have b: "blk ` {0..<j} \<inter> log_area st = {}" using blk(2) installing(2) by auto
  have eh: "e (head_of st) = H" using b area_mem(1) [of st] by (auto simp: e)
  have "e (slot_of st i) = c (blk i)" if "i < n" for i
  proof -
    have "inj_on (slot_of st) (set [0..<n])" using slot_inj [OF pl] n by (auto intro!: inj_onI)
    then have "apply_writes (map (\<lambda>i. (slot_of st i, c (blk i))) [0..<n]) d (slot_of st i) = c (blk i)"
      using that by (intro apply_map_in) auto
    moreover have "slot_of st i \<notin> blk ` {0..<j}" "slot_of st i \<noteq> head_of st"
      using b area_mem(2) [of i st] slot_not_head [OF pl, of i] n that by auto
    ultimately show ?thesis by (simp add: e)
  qed
  then have "redo_writes st e = map (\<lambda>i. (blk i, c (blk i))) [0..<n]"
    unfolding redo_writes_def eh H by (auto simp: H)
  then have "recovered st e bn = (if bn \<in> blk ` {0..<n} then c bn else e bn)" for bn
    by (simp add: recovered_def apply_map_fun)
  moreover have "e bn = d bn" if "bn \<notin> log_area st" "bn \<notin> blk ` {0..<n}" for bn
    using that area_mem(1) [of st] installing(2) slot_writes_home [OF n that(1)] by (auto simp: e)
  ultimately have "same_home st (recovered st e) c"
    using clean by (auto simp: same_home_def lessThan_atLeast0)
  moreover have "log_wf st e"
  proof -
    have m: "map (hdr_block H) [0..<n] = map blk [0..<n]" using H(2) by simp
    have "distinct (map (hdr_block H) [0..<n])" unfolding m by (rule blk(1))
    then show ?thesis unfolding log_wf_def eh using n H blk(2) by (intro exI [of _ n]) auto
  qed
  ultimately show ?thesis using installing(1) by simp
next
  case finished
  have e: "e = (apply_writes (map (\<lambda>i. (blk i, c (blk i))) [0..<n])
      ((apply_writes (map (\<lambda>i. (slot_of st i, c (blk i))) [0..<n]) d)(head_of st := H)))(head_of st := H0)"
    unfolding e_def finished(2) by (simp add: commit_writes_def apply_append)
  have "same_home st e c"
    using slot_writes_home [OF n] clean area_mem(1) [of st] by (auto simp: e same_home_def apply_map_fun lessThan_atLeast0)
  moreover have "hdr_n (e (head_of st)) = 0" using H0 by (simp add: e)
  ultimately show ?thesis using empty_log [of e st] finished(1) by simp
qed

section \<open>Commit and recovery\<close>

lemma log_names: "log_slot i s = slot_of (log_start s) i" "log_head s = head_of (log_start s)"
  by (simp_all add: log_slot_def slot_of_def head_of_def)

text \<open>
  A state in which \<open>commit\<close> may run for a transaction of \<open>n\<close> blocks: the blocks are distinct, outside
  the log, pinned in the cache and not locked; the log on disk is empty; every block not in the
  transaction is clean; and the cache has a buffer left beside the pinned ones.
\<close>

definition can_commit :: "nat \<Rightarrow> nat \<Rightarrow> 'a log_state_scheme \<Rightarrow> bool" where
  "can_commit p n s \<longleftrightarrow> (let v = bview_of p s; st = log_start s in
     bio_inv p s \<and> log_dev s = ROOTDEV \<and> lh_n s = int n \<and> n \<le> LOGSIZE \<and> log_place st \<and>
     distinct (map (lh_block s) [0..<n]) \<and>
     (\<forall>i < n. lh_block s i \<notin> log_area st \<and> \<not> vlocked v (lh_block s i) \<and> 1 \<le> vrefs v (lh_block s i)) \<and>
     (\<forall>bn \<in> log_area st. \<not> vlocked v bn) \<and>
     (\<forall>i < n. vslack v (lh_block s i)) \<and>
     hdr_n (vdisk v (head_of st)) = 0 \<and>
     (\<forall>bn. bn \<notin> log_area st \<longrightarrow> bn \<notin> lh_block s ` {..<n} \<longrightarrow> vcontent v bn = vdisk v bn))"

lemma can_commit_trans_ok:
  assumes "can_commit p n s"
  shows "trans_ok p n s"
proof -
  have "lh_block s i \<noteq> slot_of (log_start s) j" if "i < n" "j < n" for i j
    using assms that area_mem(2) [of j "log_start s"] unfolding can_commit_def Let_def
    by (metis order.strict_trans2)
  moreover have "\<not> vlocked (bview_of p s) (slot_of (log_start s) i)" if "i < n" for i
    using assms that area_mem(2) [of i "log_start s"] unfolding can_commit_def Let_def by simp
  ultimately show ?thesis
    using assms by (simp add: trans_ok_def can_commit_def log_names Let_def)
qed

definition committed :: "nat \<Rightarrow> nat \<Rightarrow> 'a log_state_scheme \<Rightarrow> 'a log_state_scheme \<Rightarrow> bool" where
  "committed p n s t \<longleftrightarrow> (\<exists>H H0. let v = bview_of p s; ws = commit_writes (log_start s) n (lh_block s) (vcontent v) H H0 in
     bio_inv p t \<and> lh_n t = 0 \<and> bio_rest p t = bio_rest p (s\<lparr>lh_n := 0\<rparr>) \<and>
     hdr_n H = int n \<and> (\<forall>i < n. hdr_block H i = lh_block s i) \<and> hdr_n H0 = 0 \<and>
     bview_of p t = v\<lparr>vcontent := apply_writes ws (vcontent v), vdisk := apply_writes ws (vdisk v),
       vwrites := vwrites v @ ws,
       vrefs := \<lambda>b. if b \<in> lh_block s ` {..<n} then vrefs v b - 1 else vrefs v b\<rparr>)"

lemma rest_lh_n: "bio_rest p t = bio_rest p s \<Longrightarrow> bio_rest p (t\<lparr>lh_n := x\<rparr>) = bio_rest p (s\<lparr>lh_n := x\<rparr>)"
  by (cases s; cases t; simp add: bio_rest_def)

text \<open>The views after the four steps of \<open>commit\<close>.\<close>

definition copies :: "nat \<Rightarrow> nat \<Rightarrow> 'a log_state_scheme \<Rightarrow> (u32 \<times> bytes) list" where
  "copies p n s = map (\<lambda>i. (log_slot i s, vcontent (bview_of p s) (lh_block s i))) [0..<n]"

definition homes :: "nat \<Rightarrow> nat \<Rightarrow> 'a log_state_scheme \<Rightarrow> (u32 \<times> bytes) list" where
  "homes p n s = map (\<lambda>i. (lh_block s i, vcontent (bview_of p s) (lh_block s i))) [0..<n]"

definition view1 :: "nat \<Rightarrow> nat \<Rightarrow> 'a log_state_scheme \<Rightarrow> bview" where
  "view1 p n s = v_stores (copies p n s) (bview_of p s)"

definition view2 :: "nat \<Rightarrow> nat \<Rightarrow> 'a log_state_scheme \<Rightarrow> bview" where
  "view2 p n s = v_store (log_head s) (head_bytes n (lh_block s) (vcontent (view1 p n s) (log_head s))) (view1 p n s)"

definition view3 :: "nat \<Rightarrow> nat \<Rightarrow> 'a log_state_scheme \<Rightarrow> bview" where
  "view3 p n s = v_installs False (homes p n s) (view2 p n s)"

lemma can_commitD:
  assumes "can_commit p n s"
  shows "bio_inv p s" "lh_n s = int n" "n \<le> LOGSIZE" "log_place (log_start s)" "log_dev s = ROOTDEV"
    "\<forall>i < n. vslack (bview_of p s) (lh_block s i)" "\<not> vlocked (bview_of p s) (log_head s)"
    "distinct (map (lh_block s) [0..<n])"
    "\<forall>i < n. lh_block s i \<notin> log_area (log_start s) \<and> 1 \<le> vrefs (bview_of p s) (lh_block s i)"
  using assms area_mem(1) [of "log_start s"] by (auto simp: can_commit_def Let_def log_names)

lemma view_frames:
  "vrefs (view1 p n s) = vrefs (bview_of p s)" "vlocked (view1 p n s) = vlocked (bview_of p s)"
  "vrefs (view2 p n s) = vrefs (bview_of p s)" "vlocked (view2 p n s) = vlocked (bview_of p s)"
  by (simp_all add: view1_def view2_def v_stores_eq v_store_def)

lemma view3_eq:
  assumes "distinct (map (lh_block s) [0..<n])"
  shows "view3 p n s = (v_stores (homes p n s) (view2 p n s))\<lparr>vrefs :=
    \<lambda>b. if b \<in> lh_block s ` {..<n} then vrefs (bview_of p s) b - 1 else vrefs (bview_of p s) b\<rparr>"
proof -
  have "distinct (map fst (homes p n s))" using assms by (simp add: homes_def comp_def)
  moreover have "fst ` set (homes p n s) = lh_block s ` {..<n}"
    by (auto simp: homes_def lessThan_atLeast0 image_image)
  ultimately show ?thesis by (simp add: view3_def v_installs_False view_frames cong: if_cong)
qed

lemma write_log_ensures:
  assumes "can_commit p n s"
  shows "ensures (write_log s) (\<lambda>_ t. bio_inv p t \<and> bio_rest p t = bio_rest p s \<and> bview_of p t = view1 p n s)"
  using write_log_loop_ensures [OF can_commit_trans_ok [OF assms] order_refl can_commitD(6) [OF assms]]
  by (simp add: write_log_def can_commitD(2) [OF assms] view1_def copies_def)

lemma write_head_commit:
  assumes c: "can_commit p n s" and n: "0 < n"
    and t: "bio_inv p t" "bio_rest p t = bio_rest p s" "bview_of p t = view1 p n s"
  shows "ensures (write_head t) (\<lambda>_ u. bio_inv p u \<and> bview_of p u = view2 p n s \<and> bio_rest p u = bio_rest p s)"
proof -
  note f = rest_log_fields [OF t(2)] and s = can_commitD [OF c]
  have "vslack (bview_of p s) (lh_block s 0)" using s(6) n by blast
  from vslack_room [OF this, of "log_head s"] have "vroom (view1 p n s) (log_head s)"
    by (simp add: vroom_def view_frames)
  then show ?thesis
    using write_head_ensures [OF t(1), of n] s(2,5,7) unfolding t(2,3) f view2_def view_frames by simp
qed

lemma install_commit:
  assumes c: "can_commit p n s"
    and t: "bio_inv p t" "bview_of p t = view2 p n s" "bio_rest p t = bio_rest p s"
  shows "ensures (install_trans False t) (\<lambda>_ u. bio_inv p u \<and> bio_rest p u = bio_rest p s \<and> bview_of p u = view3 p n s)"
proof -
  note f = rest_log_fields [OF t(3)] and s = can_commitD [OF c]
  have sl: "log_slot j t = log_slot j s" for j by (simp add: log_slot_def f)
  have tr: "trans_ok p n t"
    using can_commit_trans_ok [OF c] t(1) unfolding trans_ok_def f sl t(2) view_frames by simp
  have "\<forall>i < n. vslack (bview_of p t) (lh_block t i)"
    using s(6) unfolding t(2) f vslack_def view_frames .
  moreover have "\<forall>i. n - n \<le> i \<longrightarrow> i < n \<longrightarrow> False \<or> 1 \<le> vrefs (bview_of p t) (lh_block t i)"
    using s(9) unfolding t(2) f view_frames by simp
  moreover have "distinct (map (lh_block t) [0..<n])" using s(8) by (simp add: f)
  moreover have "vcontent (view2 p n s) (log_slot i s) = vcontent (bview_of p s) (lh_block s i)" if "i < n" for i
  proof -
    have "inj_on (\<lambda>i. log_slot i s) (set [0..<n])"
      using slot_inj [OF s(4)] s(3) by (auto intro!: inj_onI simp: log_names)
    then have "apply_writes (copies p n s) (vcontent (bview_of p s)) (log_slot i s) = vcontent (bview_of p s) (lh_block s i)"
      unfolding copies_def using that by (intro apply_map_in) auto
    moreover have "log_slot i s \<noteq> log_head s"
      using slot_not_head [OF s(4)] that s(3) by (simp add: log_names)
    ultimately show ?thesis by (simp add: view2_def view1_def v_store_def v_stores_eq)
  qed
  then have "map (\<lambda>i. (lh_block t i, vcontent (bview_of p t) (log_slot i t))) [n - n..<n] = homes p n s"
    unfolding homes_def t(2) f sl by simp
  ultimately show ?thesis
    using install_loop_ensures [OF tr order_refl, of False]
    unfolding t(3) by (simp add: install_trans_def f s(2) view3_def t(2))
qed

lemma clear_commit:
  assumes c: "can_commit p n s" and n: "0 < n"
    and t: "bio_inv p t" "bio_rest p t = bio_rest p s" "bview_of p t = view3 p n s"
  shows "ensures (write_head (t\<lparr>lh_n := 0\<rparr>)) (\<lambda>_ u. bio_inv p u \<and> bview_of p u = v_store (log_head s)
      (head_bytes 0 (lh_block s) (vcontent (view3 p n s) (log_head s))) (view3 p n s) \<and>
    bio_rest p u = bio_rest p (s\<lparr>lh_n := 0\<rparr>))"
proof -
  note f = rest_log_fields [OF t(2)] and s = can_commitD [OF c]
  have "vslack (bview_of p s) (lh_block s 0)" using s(6) n by blast
  then have "vslack (view3 p n s) (lh_block s 0)" by (rule vslack_mono) (simp add: view3_eq [OF s(8)])
  note r = vslack_room [OF this, of "log_head s"]
  have "\<not> vlocked (view3 p n s) (log_head s)"
    using s(7) by (simp add: view3_eq [OF s(8)] v_stores_eq view_frames)
  then show ?thesis
    using write_head_ensures [of p "t\<lparr>lh_n := 0\<rparr>" 0] t(1,3) r s(5) rest_lh_n [OF t(2), of 0] by (simp add: f)
qed

lemma commit_ensures:
  assumes c: "can_commit p n s" and n: "0 < n"
  shows "ensures (commit s) (\<lambda>_. committed p n s)"
proof -
  note s = can_commitD [OF c]
  let ?H = "head_bytes n (lh_block s) (vcontent (view1 p n s) (log_head s))"
  let ?Z = "head_bytes 0 (lh_block s) (vcontent (view3 p n s) (log_head s))"
  have "committed p n s u"
    if u: "bio_inv p u" "bview_of p u = v_store (log_head s) ?Z (view3 p n s)"
      "bio_rest p u = bio_rest p (s\<lparr>lh_n := 0\<rparr>)" for u
  proof -
    have ws: "commit_writes (log_start s) n (lh_block s) (vcontent (bview_of p s)) ?H ?Z =
        copies p n s @ (log_head s, ?H) # homes p n s @ [(log_head s, ?Z)]"
      by (simp add: commit_writes_def copies_def homes_def log_names)
    define ws where "ws = copies p n s @ (log_head s, ?H) # homes p n s @ [(log_head s, ?Z)]"
    have v: "bview_of p u = (bview_of p s)\<lparr>vcontent := apply_writes ws (vcontent (bview_of p s)),
        vdisk := apply_writes ws (vdisk (bview_of p s)), vwrites := vwrites (bview_of p s) @ ws,
        vrefs := \<lambda>b. if b \<in> lh_block s ` {..<n} then vrefs (bview_of p s) b - 1 else vrefs (bview_of p s) b\<rparr>"
      unfolding u(2) ws_def
      by (simp add: view3_eq [OF s(8)] view2_def view1_def v_store_def v_stores_eq apply_append)
    show ?thesis
      unfolding committed_def Let_def
    proof (rule exI [where x = ?H], rule exI [where x = ?Z], intro conjI)
      show "hdr_n ?H = int n" "\<forall>i < n. hdr_block ?H i = lh_block s i" "hdr_n ?Z = 0"
        using head_bytes_hdr(1) [of 0] head_bytes_hdr [OF s(3)] by simp_all
    qed (use u(1,3) v rest_log_fields(6) [OF u(3)] in \<open>simp_all add: ws ws_def\<close>)
  qed
  note 4 = this
  have "ensures (write_log s) (\<lambda>_ t. ensures (write_head t) (\<lambda>_ t. ensures (install_trans False t) (\<lambda>_ t.
      ensures (write_head (t\<lparr>lh_n := 0\<rparr>)) (\<lambda>_. committed p n s))))"
    by (rule ensures_mono [OF write_log_ensures [OF c]], elim conjE,
      rule ensures_mono [OF write_head_commit [OF c n]], assumption+, elim conjE,
      rule ensures_mono [OF install_commit [OF c]], assumption+, elim conjE,
      rule ensures_mono [OF clear_commit [OF c n]], assumption+, elim conjE, rule 4)
  then show ?thesis
    by (simp add: commit_def s(2) n)
qed

lemma recover_install:
  assumes t: "bio_inv p t" "log_dev t = ROOTDEV" "lh_n t = int n" "bview_of p t = v"
    and n: "n \<le> LOGSIZE" and pl: "log_place st" and st: "log_start t = st"
    and h: "hdr_n (vcontent v (head_of st)) = int n" "\<forall>i < n. lh_block t i = hdr_block (vcontent v (head_of st)) i"
    and wf: "log_wf st (vcontent v)" and l: "vlocked v = (\<lambda>_. False)" and r: "vrefs v = (\<lambda>_. 0)"
  shows "ensures (install_trans True t) (\<lambda>_ u. bio_inv p u \<and> bio_rest p u = bio_rest p t \<and>
    bview_of p u = v_stores (redo_writes st (vcontent v)) v)"
proof -
  have m: "map (lh_block t) [0..<n] = map (hdr_block (vcontent v (head_of st))) [0..<n]" using h(2) by simp
  have d: "distinct (map (lh_block t) [0..<n])" unfolding m using wf h(1) by (auto simp: log_wf_def)
  have "lh_block t i \<noteq> log_slot j t" if "i < n" "j < n" for i j
    using wf that n area_mem(2) [of j st] h by (auto simp: log_wf_def log_names st)
  then have tr: "trans_ok p n t" using t l by (simp add: trans_ok_def)
  have "\<forall>i < n. vslack (bview_of p t) (lh_block t i)" by (simp add: t(4) vslack_def r)
  moreover have "map (\<lambda>i. (lh_block t i, vcontent v (log_slot i t))) [0..<n] = redo_writes st (vcontent v)"
    by (simp add: redo_writes_def h log_names st)
  ultimately show ?thesis
    using install_loop_ensures [OF tr order_refl d, of True] t(3)
    by (simp add: install_trans_def t(4) v_installs_True)
qed

definition recovers :: "nat \<Rightarrow> int \<Rightarrow> (u32 \<Rightarrow> bytes) \<Rightarrow> 'a log_state_scheme \<Rightarrow> bool" where
  "recovers p st d t \<longleftrightarrow> bio_inv p t \<and> lh_n t = 0 \<and> log_start t = st \<and> log_dev t = ROOTDEV \<and>
     (\<exists>Z. hdr_n Z = 0 \<and> writes t = redo_writes st d @ [(head_of st, Z)] \<and>
       disk t = (recovered st d)(head_of st := Z) \<and> content t = disk t) \<and>
     refs t = (\<lambda>_. 0) \<and> (\<forall>bn. unlocked t bn)"

lemma write_head_clear:
  assumes t: "bio_inv p t" "log_dev t = ROOTDEV" "log_start t = st"
    and b: "booted p d s" and v: "bview_of p t = v_stores (redo_writes st d) (bview_of p s)"
  shows "ensures (write_head (t\<lparr>lh_n := 0\<rparr>)) (\<lambda>_ u. recovers p st d u \<and> bio_rest p u = bio_rest p (t\<lparr>lh_n := 0\<rparr>))"
proof -
  let ?Z = "head_bytes 0 (lh_block t) (recovered st d (head_of st))"
  let ?t = "t\<lparr>lh_n := 0\<rparr>"
  have v': "bview_of p t = \<lparr>vcontent = recovered st d, vdisk = recovered st d, vrefs = (\<lambda>_. 0),
      vhold = (\<lambda>_. None), vlocked = (\<lambda>_. False), vwrites = redo_writes st d\<rparr>"
    using b by (simp add: v v_stores_eq booted_def recovered_def)
  have "ensures (write_head ?t) (\<lambda>_ u. bio_inv p u \<and>
      bview_of p u = v_store (head_of st) ?Z (bview_of p t) \<and> bio_rest p u = bio_rest p ?t)"
    using write_head_ensures [of p ?t 0] t by (simp add: v' head_of_def vroom_def)
  then show ?thesis
  proof (rule ensures_mono, elim conjE, intro conjI)
    fix u
    assume u: "bio_inv p u" "bview_of p u = v_store (head_of st) ?Z (bview_of p t)" "bio_rest p u = bio_rest p ?t"
    have "content u = (recovered st d)(head_of st := ?Z)" "disk u = (recovered st d)(head_of st := ?Z)"
      "refs u = (\<lambda>_. 0)" "\<forall>bn. unlocked u bn" "writes u = redo_writes st d @ [(head_of st, ?Z)]"
      using u(2) unfolding v' by (simp_all add: bview_of_def v_store_def fun_eq_iff)
    moreover have "hdr_n ?Z = 0" using head_bytes_hdr(1) [of 0] by simp
    ultimately show "recovers p st d u"
      using u(1) rest_log_fields [OF u(3)] t by (auto simp: recovers_def)
  qed simp
qed

lemma recover_ensures:
  assumes b: "booted p d s" and d: "log_dev s = ROOTDEV" and st: "log_start s = st"
    and pl: "log_place st" and wf: "log_wf st d"
  shows "ensures (recover_from_log s) (\<lambda>_ t. recovers p st d t \<and> log_size t = log_size s \<and>
    outstanding t = outstanding s \<and> committing t = committing s)"
proof -
  obtain n where n: "n \<le> LOGSIZE" "hdr_n (d (head_of st)) = int n" using wf by (auto simp: log_wf_def)
  have v: "bview_of p s = \<lparr>vcontent = d, vdisk = d, vrefs = (\<lambda>_. 0), vhold = (\<lambda>_. None),
      vlocked = (\<lambda>_. False), vwrites = []\<rparr>" and i: "bio_inv p s"
    using b by (simp_all add: booted_def)
  have 1: "ensures (read_head s) (\<lambda>_ t. bio_inv p t \<and> bview_of p t = bview_of p s \<and> lh_n t = int n \<and>
      (\<forall>i < n. lh_block t i = hdr_block (d (head_of st)) i) \<and> log_start t = st \<and> log_dev t = ROOTDEV \<and>
      log_size t = log_size s \<and> outstanding t = outstanding s \<and> committing t = committing s)"
    using read_head_ensures [OF i d _ _ _ n(1)] n(2) by (simp add: v head_of_def st vroom_def d)
  have 2: "ensures (install_trans True t) (\<lambda>_ u. ensures (write_head (u\<lparr>lh_n := 0\<rparr>)) (\<lambda>_ w. recovers p st d w \<and>
      log_size w = log_size s \<and> outstanding w = outstanding s \<and> committing w = committing s))"
    if t: "bio_inv p t" "bview_of p t = bview_of p s" "lh_n t = int n"
      "\<forall>i < n. lh_block t i = hdr_block (d (head_of st)) i" "log_start t = st" "log_dev t = ROOTDEV"
      "log_size t = log_size s" "outstanding t = outstanding s" "committing t = committing s" for t
  proof -
    have "ensures (install_trans True t) (\<lambda>_ u. bio_inv p u \<and> bio_rest p u = bio_rest p t \<and>
        bview_of p u = v_stores (redo_writes st d) (bview_of p s))"
      using recover_install [OF t(1,6,3,2) n(1) pl t(5)] n(2) t(4) wf by (simp add: v)
    then show ?thesis
    proof (rule ensures_mono, elim conjE)
      fix u
      assume u: "bio_inv p u" "bio_rest p u = bio_rest p t" "bview_of p u = v_stores (redo_writes st d) (bview_of p s)"
      note f = rest_log_fields [OF u(2)]
      show "ensures (write_head (u\<lparr>lh_n := 0\<rparr>)) (\<lambda>_ w. recovers p st d w \<and>
          log_size w = log_size s \<and> outstanding w = outstanding s \<and> committing w = committing s)"
        by (rule ensures_mono [OF write_head_clear [OF u(1) _ _ b u(3)]])
          (use f t in \<open>auto dest: rest_log_fields\<close>)
    qed
  qed
  show ?thesis
    unfolding recover_from_log_def ensures_obind
    by (rule ensures_mono [OF 1], elim conjE, rule 2)
qed

lemma initlog_ensures:
  assumes b: "booted p d s" and st: "st = sint (logstart sb)" and pl: "log_place st" and wf: "log_wf st d"
  shows "ensures (initlog ROOTDEV sb s) (\<lambda>_ t. recovers p st d t \<and> log_size t = sint (nlog sb) \<and>
    outstanding t = outstanding s \<and> committing t = committing s)"
proof -
  have "held s = {}" using b by (simp add: booted_def bio_inv_def running_def)
  then have "lk_init LkLog s = s" by simp
  moreover let ?s = "s\<lparr>log_start := st, log_size := sint (nlog sb), log_dev := ROOTDEV\<rparr>"
  have "booted p d ?s" using b by (simp add: booted_def)
  from recover_ensures [OF this _ _ pl wf] have "ensures (recover_from_log ?s) (\<lambda>_ t. recovers p st d t \<and>
      log_size t = sint (nlog sb) \<and> outstanding t = outstanding s \<and> committing t = committing s)"
    by simp
  ultimately show ?thesis by (simp add: initlog_def st)
qed

section \<open>Crashes and reboots\<close>

text \<open>The disk that a crash leaves after \<open>k\<close> of the writes on the way from \<open>s\<close> to \<open>t\<close>.\<close>

definition crash_disk :: "'a bio_state_scheme \<Rightarrow> 'a bio_state_scheme \<Rightarrow> nat \<Rightarrow> u32 \<Rightarrow> bytes" where
  "crash_disk s t k = apply_writes (take k (drop (length (writes s)) (writes t))) (disk s)"

text \<open>
  \<open>reboots q sb d e\<close>: starting with disk \<open>d\<close>, the machine booted and crashed inside \<open>initlog\<close> any
  number of times, each time after any number of its writes, and the disk is now \<open>e\<close>.
\<close>

inductive reboots :: "nat \<Rightarrow> superblock \<Rightarrow> (u32 \<Rightarrow> bytes) \<Rightarrow> (u32 \<Rightarrow> bytes) \<Rightarrow> bool" for q sb d where
  no_crash: "reboots q sb d d"
| crash: "reboots q sb d e \<Longrightarrow> booted q e (s :: log_state) \<Longrightarrow> initlog ROOTDEV sb s = Ok () t \<Longrightarrow>
    reboots q sb d (crash_disk s t k)"

lemma same_home_trans: "same_home st a b \<Longrightarrow> same_home st b c \<Longrightarrow> same_home st a c"
  by (simp add: same_home_def)

lemma reboots_recovered:
  assumes "reboots q sb d e" and st: "st = sint (logstart sb)" "log_place st" and "log_wf st d"
  shows "log_wf st e \<and> same_home st (recovered st e) (recovered st d)"
  using assms(1)
proof induction
  case no_crash
  then show ?case using assms(4) by (simp add: same_home_def)
next
  case (crash e s t k)
  have "recovers q st e t"
    using initlog_ensures [OF crash(2) st(1,2)] crash(3,4) by (simp del: ROOTDEV_def)
  then obtain Z where Z: "hdr_n Z = 0" "writes t = redo_writes st e @ [(head_of st, Z)]"
    by (auto simp: recovers_def)
  have "crash_disk s t k = apply_writes (take k (redo_writes st e @ [(head_of st, Z)])) e"
    using crash(2) Z by (simp add: crash_disk_def booted_def bview_of_def)
  with recovery_prefix [OF _ st(2) Z(1), of e k] crash(4) same_home_trans show ?case by auto
qed

lemma final_recovery:
  assumes b: "booted q e u" and st: "st = sint (logstart sb)" "log_place st" and wf: "log_wf st e"
    and h: "same_home st (recovered st e) c"
  shows "ensures (initlog ROOTDEV sb u) (\<lambda>_ w. same_home st (disk w) c \<and> content w = disk w \<and>
    hdr_n (disk w (head_of st)) = 0)"
  by (rule ensures_mono [OF initlog_ensures [OF b st wf]])
    (use h area_mem(1) [of st] in \<open>auto simp: recovers_def same_home_def\<close>)

section \<open>Properties\<close>

text \<open>
  C1: Commit is atomic under crashes.  From a state ready to commit \<open>n\<close> blocks, \<open>commit\<close> returns;
  and if the machine crashes after any number \<open>k\<close> of its disk writes, reboots, crashes again
  inside recovery any number of times, and finally completes \<open>initlog\<close>, then the home locations on
  disk are those from before the transaction when the header had not been written (\<open>k \<le> n\<close>),
  and those with the whole transaction otherwise; the log is empty and the cache agrees with
  the disk.
\<close>

theorem commit_crash_atomic:
  assumes c: "can_commit p n s" and n: "0 < n" and sb: "log_start s = sint (logstart sb)"
  shows "ensures (commit s) (\<lambda>_ t. \<forall>k e q u. reboots q sb (crash_disk s t k) e \<longrightarrow> booted q e (u :: 'b log_state_scheme) \<longrightarrow>
    ensures (initlog ROOTDEV sb u) (\<lambda>_ w. content w = disk w \<and> hdr_n (disk w (head_of (log_start s))) = 0 \<and>
      same_home (log_start s) (disk w) (if k \<le> n then disk s else content s)))"
proof (rule ensures_mono [OF commit_ensures [OF c n]], intro allI impI)
  fix t k e q and u :: "'b log_state_scheme"
  let ?st = "log_start s" and ?v = "bview_of p s"
  assume "committed p n s t"
  then obtain H Z where H: "hdr_n H = int n" "\<forall>i < n. hdr_block H i = lh_block s i" "hdr_n Z = 0"
    and w: "vwrites (bview_of p t) = vwrites ?v @ commit_writes ?st n (lh_block s) (vcontent ?v) H Z"
    by (auto simp: committed_def Let_def)
  define ws where "ws = commit_writes ?st n (lh_block s) (content s) H Z"
  have d: "crash_disk s t k = apply_writes (take (min k (length ws)) ws) (disk s)"
    using w by (simp add: crash_disk_def bview_of_def ws_def min_def)
  have cs: "n \<le> LOGSIZE" "hdr_n (disk s (head_of ?st)) = 0" "distinct (map (lh_block s) [0..<n])"
    "\<forall>i < n. lh_block s i \<notin> log_area ?st"
    "\<forall>bn. bn \<notin> log_area ?st \<longrightarrow> bn \<notin> lh_block s ` {..<n} \<longrightarrow> content s bn = disk s bn" and pl: "log_place ?st"
    using c by (simp_all add: can_commit_def Let_def bview_of_def del: LOGSIZE_def)
  have k: "min k (length ws) \<le> n \<longleftrightarrow> k \<le> n" "n < min k (length ws) \<longleftrightarrow> \<not> k \<le> n" "min k (length ws) \<le> length ws"
    by (auto simp: ws_def commit_writes_def)
  have pre: "log_wf ?st (crash_disk s t k) \<and>
      same_home ?st (recovered ?st (crash_disk s t k)) (if k \<le> n then disk s else content s)"
    using commit_prefix [OF pl cs(1-4) H cs(5) k(3) [unfolded ws_def]] unfolding d ws_def [symmetric] k by simp
  assume r: "reboots q sb (crash_disk s t k) e" and b: "booted q e u"
  from reboots_recovered [OF r sb pl] pre same_home_trans
  have "log_wf ?st e" "same_home ?st (recovered ?st e) (if k \<le> n then disk s else content s)" by blast+
  from final_recovery [OF b sb pl this]
  show "ensures (initlog ROOTDEV sb u) (\<lambda>_ w. content w = disk w \<and> hdr_n (disk w (head_of ?st)) = 0 \<and>
      same_home ?st (disk w) (if k \<le> n then disk s else content s))"
    by (rule ensures_mono) blast
qed

section \<open>Transactions\<close>

lemma log_find_spec:
  assumes "k \<le> n"
  shows "(\<exists>i. n - k \<le> i \<and> i < n \<and> blk i = bn \<and> log_find k n blk bn = i) \<or>
    (\<forall>i. n - k \<le> i \<longrightarrow> i < n \<longrightarrow> blk i \<noteq> bn) \<and> log_find k n blk bn = n"
  using assms
proof (induction k)
  case 0
  then show ?case by (auto simp: log_find.simps)
next
  case (Suc k)
  have le: "n - Suc k \<le> i \<longleftrightarrow> i = n - Suc k \<or> n - k \<le> i" for i using Suc.prems by auto
  show ?case
    using Suc by (auto simp: log_find.simps Let_def le)
qed

text \<open>\<open>log_write\<close> of a block already in the header changes nothing: the log absorbs it.\<close>

lemma log_write_ensures:
  assumes i: "bio_inv p s" and h: "vhold (bview_of p s) bn = Some b" and n: "lh_n s = int n" "n < LOGSIZE"
    "int n < log_size s - 1" and o: "1 \<le> outstanding s" and r: "vrefs (bview_of p s) bn + 1 < 2 ^ 32"
  shows "ensures (log_write b s) (\<lambda>_ t. bio_inv p t \<and> (\<forall>j < n. lh_block t j = lh_block s j) \<and>
    bview_of p t = (if bn \<in> lh_block s ` {..<n} then bview_of p s else v_pin bn (bview_of p s)) \<and>
    bio_rest p t = (if bn \<in> lh_block s ` {..<n} then bio_rest p s
      else bio_rest p (s\<lparr>lh_block := (lh_block s)(n := bn), lh_n := int (Suc n)\<rparr>)))"
proof -
  have hd: "held s = {}" "bcache_ok s" "hold p s bn = Some b"
    using i h by (simp_all add: bio_inv_def running_def bview_of_def)
  have bn: "blockno (bufs s b) = bn" using hold_idx(3) [OF hd(2,3)] by (simp add: is_buf_def)
  note nn = n(2,3) o
  show ?thesis
  proof (cases "bn \<in> lh_block s ` {..<n}")
    case True
    with log_find_spec [of n n "lh_block s" bn] obtain k
      where k: "k < n" "lh_block s k = bn" "log_find n n (lh_block s) bn = k" by auto
    then have "(lh_block s)(k := bn) = lh_block s" by auto
    moreover have "log_write b s = Ok () (s\<lparr>lh_block := (lh_block s)(k := bn)\<rparr>)"
      using k nn hd(1) bn n(1) by (simp add: log_write_def Let_def del: LOGSIZE_def)
    ultimately show ?thesis using True i by simp
  next
    case False
    then have "\<forall>j < n. lh_block s j \<noteq> bn" by auto
    with log_find_spec [of n n "lh_block s" bn] have k: "log_find n n (lh_block s) bn = n" by auto
    let ?t = "upd_buf b (\<lambda>q. q\<lparr>refcnt := refcnt q + 1\<rparr>) s"
    let ?u = "?t\<lparr>lh_block := (lh_block s)(n := bn), lh_n := int (Suc n)\<rparr>"
    have "bpin b s = Ok () ?t" using hd(1) by (simp add: bpin_def upd_buf_def)
    then have t: "bio_inv p ?t" "bview_of p ?t = v_pin bn (bview_of p s)" "bio_rest p ?t = bio_rest p s"
      using bpin_law [OF i h r] by simp_all
    have "log_write b s = Ok () ?u"
      using k nn hd(1) bn n(1) by (simp add: log_write_def Let_def bpin_def upd_buf_def add.commute del: LOGSIZE_def)
    moreover have "bio_rest p ?u = bio_rest p (s\<lparr>lh_block := (lh_block s)(n := bn), lh_n := int (Suc n)\<rparr>)"
      using t(3) by (cases s) (simp add: bio_rest_def upd_buf_def)
    ultimately show ?thesis using False t by simp
  qed
qed

text \<open>A state inside a transaction that has logged \<open>n\<close> blocks.\<close>

definition in_trans :: "nat \<Rightarrow> nat \<Rightarrow> 'a log_state_scheme \<Rightarrow> bool" where
  "in_trans p n s \<longleftrightarrow> (let v = bview_of p s; st = log_start s in
     bio_inv p s \<and> log_dev s = ROOTDEV \<and> lh_n s = int n \<and> n \<le> LOGSIZE \<and> log_place st \<and>
     distinct (map (lh_block s) [0..<n]) \<and>
     (\<forall>i < n. lh_block s i \<notin> log_area st \<and> 1 \<le> vrefs v (lh_block s i)) \<and>
     hdr_n (vdisk v (head_of st)) = 0 \<and>
     (\<forall>bn. bn \<notin> log_area st \<longrightarrow> bn \<notin> lh_block s ` {..<n} \<longrightarrow> vcontent v bn = vdisk v bn))"

lemma in_trans_can_commit:
  assumes "in_trans p n s" and "\<forall>bn. \<not> vlocked (bview_of p s) bn" and "\<forall>i < n. vslack (bview_of p s) (lh_block s i)"
  shows "can_commit p n s"
  using assms by (auto simp: in_trans_def can_commit_def Let_def)

text \<open>Changing a block inside a transaction: read it, modify it, log it, release it.\<close>

definition log_update :: "u32 \<Rightarrow> (bytes \<Rightarrow> bytes) \<Rightarrow> 'a log_state_scheme \<Rightarrow> (unit, 'a log_state_scheme) outcome" where
  "log_update bn f s =
     obind (bread ROOTDEV bn s) (\<lambda>b s.
     obind (log_write b (set_data b (f (get_data b s)) s)) (\<lambda>_ s. brelse b s))"

definition logged :: "nat \<Rightarrow> u32 \<Rightarrow> 'a log_state_scheme \<Rightarrow> bool" where
  "logged n bn s \<longleftrightarrow> bn \<in> lh_block s ` {..<n}"

lemma in_trans_update:
  assumes t: "in_trans p n s" and bn: "bn \<notin> log_area (log_start s)" and n: "n < LOGSIZE" and u: "bio_inv p u"
    "bview_of p u = (bview_of p s)\<lparr>vcontent := (vcontent (bview_of p s))(bn := d),
      vrefs := (vrefs (bview_of p s))(bn := vrefs (bview_of p s) bn + (if logged n bn s then 0 else 1))\<rparr>"
    "bio_rest p u = bio_rest p (if logged n bn s then s
      else s\<lparr>lh_block := (lh_block s)(n := bn), lh_n := int (Suc n)\<rparr>)"
  shows "in_trans p (if logged n bn s then n else Suc n) u"
proof (cases "logged n bn s")
  case True
  note f = rest_log_fields [OF u(3) [unfolded if_P [OF True]]]
  show ?thesis
    using t u(1) True bn unfolding in_trans_def Let_def u(2) f
    by (auto simp add: logged_def simp del: LOGSIZE_def)
next
  case False
  note f = rest_log_fields [OF u(3) [unfolded if_not_P [OF False]]]
  have "map ((lh_block s)(n := bn)) [0..<n] = map (lh_block s) [0..<n]" by simp
  then have "distinct (map ((lh_block s)(n := bn)) [0..<Suc n])"
    using t False by (auto simp: in_trans_def Let_def logged_def)
  then show ?thesis
    using t u(1) False bn n unfolding in_trans_def Let_def u(2) f
    by (auto simp add: logged_def less_Suc_eq simp del: LOGSIZE_def)
qed

lemma rest_lh:
  "bio_rest p t = bio_rest p s \<Longrightarrow>
    bio_rest p (t\<lparr>lh_block := bl, lh_n := x\<rparr>) = bio_rest p (s\<lparr>lh_block := bl, lh_n := x\<rparr>)"
  by (cases s; cases t; simp add: bio_rest_def)

lemma log_update_ensures:
  fixes s :: "'a log_state_scheme"
  assumes t: "in_trans p n s" and bn: "bn \<notin> log_area (log_start s)" and l: "\<not> vlocked (bview_of p s) bn"
    and r: "vroom (bview_of p s) bn" "vrefs (bview_of p s) bn + 2 < 2 ^ 32"
    and n: "n < LOGSIZE" "int n < log_size s - 1" and o: "1 \<le> outstanding s"
  shows "ensures (log_update bn f s) (\<lambda>_ u. in_trans p (if logged n bn s then n else Suc n) u \<and>
    bview_of p u = (bview_of p s)\<lparr>vcontent := (vcontent (bview_of p s))(bn := f (vcontent (bview_of p s) bn)),
      vrefs := (vrefs (bview_of p s))(bn := vrefs (bview_of p s) bn + (if logged n bn s then 0 else 1))\<rparr> \<and>
    bio_rest p u = bio_rest p (if logged n bn s then s
      else s\<lparr>lh_block := (lh_block s)(n := bn), lh_n := int (Suc n)\<rparr>))"
  unfolding log_update_def ensures_obind
proof (rule ensures_mono [OF bc.read_release [OF _ l r(1)]], use t in \<open>simp add: in_trans_def Let_def\<close>, elim conjE)
  fix b and s1 :: "'a log_state_scheme"
  let ?v = "bview_of p s" and ?a = "logged n bn s"
  let ?d = "f (vcontent ?v bn)" and ?s2 = "set_data b (f (get_data b s1)) s1"
  let ?s' = "if ?a then s else s\<lparr>lh_block := (lh_block s)(n := bn), lh_n := int (Suc n)\<rparr>"
  let ?w = "?v\<lparr>vcontent := (vcontent ?v)(bn := ?d), vrefs := (vrefs ?v)(bn := vrefs ?v bn + (if ?a then 0 else 1))\<rparr>"
  assume 1: "get_data b s1 = vcontent ?v bn" "bio_inv p s1" "vhold (bview_of p s1) bn = Some b"
    "bview_of p s1 = v_read bn b ?v" "bio_rest p s1 = bio_rest p s"
  have 2: "bio_inv p ?s2" "bview_of p ?s2 = v_set bn ?d (v_read bn b ?v)" "bio_rest p ?s2 = bio_rest p s"
    using set_data_law [OF 1(2,3)] 1 by simp_all
  note f2 = rest_log_fields [OF 2(3)]
  have tn: "lh_n s = int n" "bio_inv p s" using t by (simp_all add: in_trans_def Let_def)
  have lw: "ensures (log_write b ?s2) (\<lambda>_ u. bio_inv p u \<and>
      bview_of p u = (if ?a then bview_of p ?s2 else v_pin bn (bview_of p ?s2)) \<and> bio_rest p u = bio_rest p ?s')"
    by (rule ensures_mono [OF log_write_ensures [of p ?s2 bn b n]])
      (use 2(1) n o r tn in \<open>auto simp: 2(2,3) v_defs f2 logged_def rest_lh [OF 2(3)]\<close>)
  show "ensures (log_write b ?s2) (\<lambda>_ u. ensures (brelse b u) (\<lambda>_ u. in_trans p (if ?a then n else Suc n) u \<and>
      bview_of p u = ?w \<and> bio_rest p u = bio_rest p ?s'))"
  proof (rule ensures_mono [OF lw], elim conjE)
    fix s3
    assume 3: "bio_inv p s3" "bview_of p s3 = (if ?a then bview_of p ?s2 else v_pin bn (bview_of p ?s2))"
      "bio_rest p s3 = bio_rest p ?s'"
    have pin: "1 \<le> vrefs ?v bn" if ?a using t that by (auto simp: in_trans_def Let_def logged_def)
    have w: "v_release bn (bview_of p s3) = ?w"
      using free_law [OF tn(2) l] l unfolding 3(2) 2(2) by (auto simp: v_defs fun_upd_idem)
    have "ensures (brelse b s3) (\<lambda>_ u. bio_inv p u \<and> bview_of p u = ?w \<and> bio_rest p u = bio_rest p ?s')"
      using brelse_law [OF 3(1), of bn b] pin unfolding w 3(3) by (auto simp: 3(2) 2(2) v_defs)
    then show "ensures (brelse b s3) (\<lambda>_ u. in_trans p (if ?a then n else Suc n) u \<and>
        bview_of p u = ?w \<and> bio_rest p u = bio_rest p ?s')"
      by (rule ensures_mono) (use in_trans_update [OF t bn n(1)] in blast)
  qed
qed

section \<open>Reservation of log space\<close>

text \<open>The operations of the cache leave the log alone, whatever state they start from.\<close>

lemma lock_frames [frames]:
  "bio_state.more s = x \<Longrightarrow> keeps bio_state.more x (lk_acquire l s)"
  "bio_state.more s = x \<Longrightarrow> keeps bio_state.more x (lk_release l s)"
  by (simp_all add: lk_acquire_def lk_release_def)

lemma upd_frames [simp]:
  "bio_state.more (upd_proc i f s) = bio_state.more s" "bio_state.more (upd_buf i g s) = bio_state.more s"
  "bio_state.more (disk_rw b w s) = bio_state.more s" "bio_state.more (set_data b d s) = bio_state.more s"
  "bio_state.more (lru_front b s) = bio_state.more s"
  by (simp_all add: upd_proc_def upd_buf_def disk_rw_def set_data_def lru_front_def Let_def)

lemma myproc_frame [frames]: "(\<And>p. keeps g x (f p)) \<Longrightarrow> keeps g x (myproc s f)"
  by (simp add: myproc_def split: option.split)

lemma sleep_frame [frames]: "keeps g x (sleep c l s)"
  by (simp add: sleep_def keeps_def myproc_def obind_eq_Ok split: option.split)

lemma wakeup_loop_frame [frames]: "bio_state.more s = x \<Longrightarrow> keeps bio_state.more x (wakeup_loop n c s)"
proof (induction n arbitrary: s)
  case (Suc n)
  then show ?case unfolding wakeup_loop.simps by (intro frames) auto
qed simp

lemma bio_frames [frames]:
  assumes "bio_state.more s = x"
  shows "keeps bio_state.more x (wakeup c s)" "keeps bio_state.more x (acquiresleep l s)"
    "keeps bio_state.more x (releasesleep l s)" "keeps bio_state.more x (holdingsleep l s)"
  using assms unfolding wakeup_def acquiresleep_def releasesleep_def holdingsleep_def
  by (auto intro!: frames simp: wakeup_def)

lemma bget_frame [frames]: "bio_state.more s = x \<Longrightarrow> keeps bio_state.more x (bget d bn s)"
  unfolding bget_def by (auto intro!: frames split: option.split)

lemma cache_frames [frames]:
  assumes "bio_state.more s = x"
  shows "keeps bio_state.more x (bread d bn s)" "keeps bio_state.more x (bwrite b s)"
    "keeps bio_state.more x (brelse b s)" "keeps bio_state.more x (bpin b s)" "keeps bio_state.more x (bunpin b s)"
  using assms unfolding bread_def bwrite_def brelse_def bpin_def bunpin_def
  by (auto intro!: frames)

lemma loop_frames [frames]:
  "bio_state.more s = x \<Longrightarrow> keeps bio_state.more x (install_trans_loop k rc s)"
  "bio_state.more s = x \<Longrightarrow> keeps bio_state.more x (write_log_loop k s)"
  by (induction k arbitrary: s) (auto intro!: frames simp: install_trans_loop.simps write_log_loop.simps)

lemma log_frames [frames]:
  "bio_state.more s = x \<Longrightarrow> keeps bio_state.more x (install_trans rc s)"
  "bio_state.more s = x \<Longrightarrow> keeps bio_state.more x (write_log s)"
  "bio_state.more s = x \<Longrightarrow> keeps bio_state.more x (write_head s)"
  unfolding install_trans_def write_log_def write_head_def by (auto intro!: frames)

definition log_vars :: "'a log_state_scheme \<Rightarrow> int \<times> int \<times> bool \<times> int" where
  "log_vars s = (lh_n s, outstanding s, committing s, log_size s)"

lemma log_vars_more: "bio_state.more t = bio_state.more s \<Longrightarrow> log_vars t = log_vars s"
  by (cases s; cases t; simp add: log_vars_def)

lemma keeps_log_vars:
  assumes "keeps bio_state.more (bio_state.more s) (m :: ('b, 'a log_state_scheme) outcome)"
  shows "keeps log_vars (log_vars s) m"
  using assms log_vars_more unfolding keeps_def by blast

lemma sleep_not_Ok [simp]: "sleep c l s \<noteq> Ok a t"
  by (simp add: sleep_def myproc_def obind_eq_Ok split: option.split)

lemma begin_op_vars:
  assumes "begin_op s = Ok () t"
  shows "log_vars t = (lh_n s, outstanding s + 1, committing s, log_size s)"
    "lh_n s + (outstanding s + 1) * int MAXOPBLOCKS \<le> int LOGSIZE" "\<not> committing s"
  using assms by (auto simp: begin_op_def lk_acquire_def lk_release_def log_vars_def split: if_splits)

lemma commit_vars:
  assumes "commit s = Ok () t"
  shows "log_vars t = (if 0 < lh_n s then 0 else lh_n s, outstanding s, committing s, log_size s)"
proof (cases "0 < lh_n s")
  case True
  then obtain s1 s2 s3 where o: "write_log s = Ok () s1" "write_head s1 = Ok () s2"
    "install_trans False s2 = Ok () s3" "write_head (s3\<lparr>lh_n := 0\<rparr>) = Ok () t"
    using assms by (auto simp: commit_def obind_eq_Ok)
  have "log_vars s3 = log_vars s"
    using keepsD [OF keeps_log_vars [OF log_frames(2) [OF refl]] o(1)]
      keepsD [OF keeps_log_vars [OF log_frames(3) [OF refl]] o(2)]
      keepsD [OF keeps_log_vars [OF log_frames(1) [OF refl]] o(3)] by simp
  moreover have "log_vars t = log_vars (s3\<lparr>lh_n := 0\<rparr>)"
    by (rule keepsD [OF keeps_log_vars [OF log_frames(3) [OF refl]] o(4)])
  ultimately show ?thesis using True by (simp add: log_vars_def)
next
  case False
  then show ?thesis using assms by (simp add: commit_def log_vars_def)
qed

lemma lock_vars:
  "lk_acquire l s = Ok () t \<Longrightarrow> log_vars t = log_vars s" "lk_release l s = Ok () t \<Longrightarrow> log_vars t = log_vars s"
  "wakeup c s = Ok () t \<Longrightarrow> log_vars t = log_vars s"
  by (rule keepsD [OF keeps_log_vars [OF lock_frames(1) [OF refl]]] keepsD [OF keeps_log_vars [OF lock_frames(2) [OF refl]]]
      keepsD [OF keeps_log_vars [OF bio_frames(1) [OF refl]]]; assumption)+

lemma end_op_vars:
  assumes "end_op s = Ok () t"
  shows "log_vars t = (if outstanding s = 1 then (if 0 < lh_n s then 0 else lh_n s, 0, False, log_size s)
    else (lh_n s, outstanding s - 1, False, log_size s)) \<and> \<not> committing s"
proof -
  obtain s0 where 0: "lk_acquire LkLog s = Ok () s0" using assms by (auto simp: end_op_def obind_eq_Ok)
  note v0 = lock_vars(1) [OF 0]
  show ?thesis
  proof (cases "outstanding s = 1")
    case True
    then obtain s1 s2 s3 s4 where o: "\<not> committing s0"
      "lk_release LkLog (s0\<lparr>outstanding := 0, committing := True\<rparr>) = Ok () s1"
      "commit s1 = Ok () s2" "lk_acquire LkLog s2 = Ok () s3"
      "wakeup (Some ChLog) (s3\<lparr>committing := False\<rparr>) = Ok () s4" "lk_release LkLog s4 = Ok () t"
      using assms 0 v0 by (auto simp: end_op_def obind_eq_Ok Let_def log_vars_def split: if_splits)
    then show ?thesis
      using lock_vars(2) [OF o(2)] commit_vars [OF o(3)] lock_vars(1) [OF o(4)] lock_vars(3) [OF o(5)]
        lock_vars(2) [OF o(6)] v0 True by (simp add: log_vars_def)
  next
    case False
    then obtain s1 where o: "\<not> committing s0" "wakeup (Some ChLog) (s0\<lparr>outstanding := outstanding s0 - 1\<rparr>) = Ok () s1"
      "lk_release LkLog s1 = Ok () t"
      using assms 0 v0 by (auto simp: end_op_def obind_eq_Ok Let_def log_vars_def split: if_splits)
    then show ?thesis
      using lock_vars(3) [OF o(2)] lock_vars(2) [OF o(3)] v0 False by (simp add: log_vars_def)
  qed
qed

lemma log_write_vars:
  assumes "log_write b s = Ok () t"
  shows "log_vars t = log_vars s \<or> log_vars t = (lh_n s + 1, outstanding s, committing s, log_size s)"
  using assms
  by (auto simp: log_write_def bpin_def lk_acquire_def lk_release_def Let_def log_vars_def upd_buf_def split: if_splits)

text \<open>
  \<open>log_run u s\<close>: the state \<open>s\<close> is reached from an empty log by file-system calls that begin, log
  blocks and end in any order; \<open>u i\<close> is the number of blocks that the call \<open>i\<close>, which has begun and
  not ended, has added to the log.  A call adds at most MAXOPBLOCKS.  Other code does not touch
  the log.
\<close>

inductive log_run :: "(nat \<rightharpoonup> nat) \<Rightarrow> 'a log_state_scheme \<Rightarrow> bool" where
  empty: "log_vars s = (0, 0, False, z) \<Longrightarrow> log_run Map.empty s"
| begin_call: "log_run u s \<Longrightarrow> begin_op s = Ok () t \<Longrightarrow> u i = None \<Longrightarrow> log_run (u(i \<mapsto> 0)) t"
| write_call: "log_run u s \<Longrightarrow> log_write b s = Ok () t \<Longrightarrow> u i = Some k \<Longrightarrow>
    k + nat (lh_n t - lh_n s) \<le> MAXOPBLOCKS \<Longrightarrow> log_run (u(i \<mapsto> k + nat (lh_n t - lh_n s))) t"
| end_call: "log_run u s \<Longrightarrow> end_op s = Ok () t \<Longrightarrow> u i \<noteq> None \<Longrightarrow> log_run (u(i := None)) t"
| other: "log_run u s \<Longrightarrow> log_vars t = log_vars s \<Longrightarrow> log_run u t"

definition unused :: "(nat \<rightharpoonup> nat) \<Rightarrow> int" where
  "unused u = (\<Sum>i \<in> dom u. int MAXOPBLOCKS - int (the (u i)))"

lemma unused_upd:
  assumes "finite (dom u)"
  shows "u i = None \<Longrightarrow> unused (u(i \<mapsto> k)) = unused u + int MAXOPBLOCKS - int k"
    "u i = Some j \<Longrightarrow> unused (u(i \<mapsto> k)) = unused u + int j - int k"
    "u i = Some j \<Longrightarrow> unused (u(i := None)) = unused u - int MAXOPBLOCKS + int j"
proof -
  have e: "(\<Sum>x \<in> dom u - {i}. int MAXOPBLOCKS - int (the ((u(i := y)) x))) =
      (\<Sum>x \<in> dom u - {i}. int MAXOPBLOCKS - int (the (u x)))" for y
    by (rule sum.cong) auto
  have "dom u - {i} = dom u" if "u i = None" using that by auto
  then show "u i = None \<Longrightarrow> unused (u(i \<mapsto> k)) = unused u + int MAXOPBLOCKS - int k"
    using assms e [of "Some k"] by (auto simp: unused_def sum.insert_remove)
  assume u: "u i = Some j"
  note r = sum.remove [OF assms domI [of u, OF u], of "\<lambda>x. int MAXOPBLOCKS - int (the (u x))"]
  show "unused (u(i \<mapsto> k)) = unused u + int j - int k"
    using assms r e [of "Some k"] u by (simp add: unused_def sum.insert_remove)
  show "unused (u(i := None)) = unused u - int MAXOPBLOCKS + int j"
    using r e [of None] u by (simp add: unused_def)
qed

lemma unused_nonneg: "(\<And>i k. u i = Some k \<Longrightarrow> k \<le> MAXOPBLOCKS) \<Longrightarrow> 0 \<le> unused u"
  unfolding unused_def by (rule sum_nonneg) (auto simp del: MAXOPBLOCKS_def)

lemma log_run_inv:
  assumes "log_run u s"
  shows "finite (dom u) \<and> outstanding s = int (card (dom u)) \<and> \<not> committing s \<and> 0 \<le> lh_n s \<and>
    lh_n s + unused u \<le> int LOGSIZE \<and> (\<forall>i k. u i = Some k \<longrightarrow> k \<le> MAXOPBLOCKS)"
  using assms
proof induction
  case (empty s z)
  then show ?case by (simp add: log_vars_def unused_def)
next
  case (begin_call u s t i)
  have "unused u \<le> outstanding s * int MAXOPBLOCKS"
    using begin_call.IH sum_bounded_above [of "dom u" "\<lambda>i. int MAXOPBLOCKS - int (the (u i))" "int MAXOPBLOCKS"]
    by (simp add: unused_def)
  moreover define w where "w = u(i \<mapsto> 0)"
  moreover have "unused w = unused u + int MAXOPBLOCKS" "dom w = insert i (dom u)" "i \<notin> dom u"
    "\<forall>i k. w i = Some k \<longrightarrow> k \<le> MAXOPBLOCKS"
    using begin_call unused_upd(1) [of u i 0] unfolding w_def by auto
  ultimately show ?case
    using begin_call.IH begin_op_vars [OF begin_call(2)] unfolding w_def [symmetric] by (simp add: log_vars_def)
next
  case (write_call u s b t i k)
  have "lh_n t = lh_n s + int (nat (lh_n t - lh_n s))" using log_write_vars [OF write_call(2)] by (auto simp: log_vars_def)
  moreover define w where "w = u(i \<mapsto> k + nat (lh_n t - lh_n s))"
  moreover have "unused w = unused u - int (nat (lh_n t - lh_n s))" "dom w = dom u"
    "\<forall>i k. w i = Some k \<longrightarrow> k \<le> MAXOPBLOCKS"
    using write_call unused_upd(2) [of u i k "k + nat (lh_n t - lh_n s)"] unfolding w_def
    by (auto simp del: MAXOPBLOCKS_def)
  ultimately show ?case
    using write_call.IH log_write_vars [OF write_call(2)] unfolding w_def [symmetric]
    by (auto simp: log_vars_def simp del: MAXOPBLOCKS_def)
next
  case (end_call u s t i)
  then obtain k where k: "u i = Some k" "k \<le> MAXOPBLOCKS" by auto
  have f: "finite (dom u)" using end_call.IH by blast
  define w where "w = u(i := None)"
  have w: "unused w = unused u - int MAXOPBLOCKS + int k" "dom w = dom u - {i}"
    "\<forall>i k. w i = Some k \<longrightarrow> k \<le> MAXOPBLOCKS"
    using end_call.IH unused_upd(3) [OF f k(1)] unfolding w_def by (auto simp del: MAXOPBLOCKS_def)
  have c: "card (dom w) = card (dom u) - 1" "1 \<le> card (dom u)"
    using f k(1) unfolding w(2) by (auto simp: card_gt_0_iff Suc_le_eq domI)
  have "dom w = {}" if "card (dom u) = 1"
    using that k(1) unfolding w(2) by (metis card_1_singletonE Diff_cancel domI singletonD)
  then have z: "unused w = 0" if "card (dom u) = 1" using that by (simp add: unused_def)
  show ?case
    using end_call.IH end_op_vars [OF end_call(2)] w k(2) c z unfolding w_def [symmetric]
    by (auto simp: log_vars_def of_nat_diff simp del: MAXOPBLOCKS_def split: if_splits)
next
  case (other u s t)
  then show ?case by (simp add: log_vars_def)
qed

section \<open>Properties of transactions\<close>

text \<open>A zeroed machine whose super block puts the log at block 2.\<close>

definition log_zero :: "int \<Rightarrow> log_state" where
  "log_zero z = bio_zero (\<lambda>_ _. 0) (log_state.fields 2 z 0 False ROOTDEV 0 (\<lambda>_. 0))"

definition sb_example :: superblock where
  "sb_example = \<lparr>magic = 0x10203040, sb_size = 2000, nblocks = 1953, ninodes = 200, nlog = 31, logstart = 2,
     inodestart = 33, bmapstart = 46\<rparr>"

lemma log_zero_fields:
  "log_start (log_zero z) = 2" "log_size (log_zero z) = z" "outstanding (log_zero z) = 0"
  "committing (log_zero z) = False" "log_dev (log_zero z) = ROOTDEV" "lh_n (log_zero z) = 0" "held (log_zero z) = {}"
  by (simp_all add: log_zero_def bio_zero_def log_state.defs)

lemma binit_more: "bio_state.more (binit s) = bio_state.more s"
proof -
  have "bio_state.more (binit_loop n t) = bio_state.more t" for n and t :: "'a bio_state_scheme"
    by (induction n arbitrary: t) (simp_all add: Let_def initsleeplock_def lk_init_def)
  then show ?thesis by (simp add: binit_def lk_init_def)
qed

lemma log_example:
  obtains s :: log_state where "can_commit 0 1 s" "log_start s = sint (logstart sb_example)" "disk s 40 0 = 0" "content s 40 0 = 7"
proof -
  define s where "s = (binit (log_zero 31))\<lparr>outstanding := 1\<rparr>"
  have b: "booted 0 (\<lambda>_ _. 0) (binit (log_zero 31))" unfolding log_zero_def by (rule binit_zero)
  then have i: "bio_inv 0 s" and v: "bview_of 0 s = \<lparr>vcontent = (\<lambda>_ _. 0), vdisk = (\<lambda>_ _. 0), vrefs = (\<lambda>_. 0),
      vhold = (\<lambda>_. None), vlocked = (\<lambda>_. False), vwrites = []\<rparr>"
    by (simp_all add: s_def booted_def)
  have "log_vars (binit (log_zero 31)) = log_vars (log_zero 31)"
    by (rule log_vars_more [OF binit_more])
  moreover have "log_start (binit (log_zero 31)) = 2" "log_dev (binit (log_zero 31)) = ROOTDEV"
    using binit_more [of "log_zero 31"]
    by (cases "binit (log_zero 31)", simp add: log_zero_def bio_zero_def log_state.defs)+
  ultimately have f: "lh_n s = 0" "outstanding s = 1" "log_size s = 31" "log_start s = 2" "log_dev s = ROOTDEV"
    by (simp_all add: s_def log_vars_def log_zero_fields)
  have "slot_of 2 x \<noteq> 40" if "x < LOGSIZE" for x
    using slot_uint(1) [of 2 x] that by (auto simp: log_place_def)
  then have 40: "40 \<notin> log_area 2"
    by (auto simp: log_area_def head_of_def simp del: LOGSIZE_def)
  have "in_trans 0 0 s"
    by (simp add: in_trans_def Let_def i f v log_place_def hdr_n_def load32_zero)
  then have "ensures (log_update 40 (\<lambda>_ _. 7) s) (\<lambda>_ u. in_trans 0 1 u \<and>
      bview_of 0 u = (bview_of 0 s)\<lparr>vcontent := (\<lambda>_ _. 0)(40 := \<lambda>_. 7), vrefs := (\<lambda>_. 0)(40 := 1)\<rparr> \<and>
      bio_rest 0 u = bio_rest 0 (s\<lparr>lh_block := (lh_block s)(0 := 40), lh_n := 1\<rparr>))"
    using log_update_ensures [of 0 0 s 40 "\<lambda>_ _. 7"] 40 by (simp add: v f vroom_def logged_def)
  then obtain u where u: "in_trans 0 1 u"
    "bview_of 0 u = (bview_of 0 s)\<lparr>vcontent := (\<lambda>_ _. 0)(40 := \<lambda>_. 7), vrefs := (\<lambda>_. 0)(40 := 1)\<rparr>"
    "bio_rest 0 u = bio_rest 0 (s\<lparr>lh_block := (lh_block s)(0 := 40), lh_n := 1\<rparr>)"
    by (auto simp: ensures_iff_Ok)
  have "{bn. bn = (40::u32)} = {40}" by auto
  then have "vslack (bview_of 0 u) 40" by (simp add: vslack_def u(2) v)
  moreover have "lh_block u 0 = 40" "log_start u = 2" using rest_log_fields [OF u(3)] f by simp_all
  ultimately have "can_commit 0 1 u" by (intro in_trans_can_commit [OF u(1)]) (simp_all add: u(2) v)
  moreover have "disk u 40 0 = 0" "content u 40 0 = 7" using u(2) v by (simp_all add: bview_of_def)
  ultimately show thesis using that [of u] \<open>log_start u = 2\<close> by (simp add: sb_example_def)
qed

theorem commit_crash_atomic_witness:
  "\<exists>s :: log_state. can_commit 0 1 s \<and> disk s 40 0 = 0 \<and> content s 40 0 = 7 \<and>
    ensures (commit s) (\<lambda>_ t. \<forall>k e q u. reboots q sb_example (crash_disk s t k) e \<longrightarrow> booted q e (u :: log_state) \<longrightarrow>
      ensures (initlog ROOTDEV sb_example u) (\<lambda>_ w. content w = disk w \<and> hdr_n (disk w (head_of (log_start s))) = 0 \<and>
        same_home (log_start s) (disk w) (if k \<le> 1 then disk s else content s)))"
proof -
  obtain s :: log_state where s: "can_commit 0 1 s" "log_start s = sint (logstart sb_example)" "disk s 40 0 = 0" "content s 40 0 = 7"
    by (rule log_example)
  show ?thesis
    using commit_crash_atomic [OF s(1) zero_less_one s(2), where 'b = unit] s by (intro exI [of _ s]) blast
qed

text \<open>
  C14: The reservation of log space is sound when the log on disk is larger than LOGSIZE: however
  the calls begin, log blocks and end, a call that has added fewer than MAXOPBLOCKS blocks can
  log another one; \<open>log_write\<close> does not panic.
\<close>

theorem log_write_fits:
  assumes r: "log_run u s" and u: "u i = Some k" "k < MAXOPBLOCKS" and z: "int LOGSIZE < log_size s"
    and h: "LkLog \<notin> held s" "LkBcache \<notin> held s"
  shows "\<exists>t. log_write b s = Ok () t"
proof -
  note inv = log_run_inv [OF r]
  have "1 \<le> outstanding s" using inv u(1) by (auto simp: card_gt_0_iff Suc_le_eq domI)
  moreover have "0 \<le> unused (u(i := None))" by (rule unused_nonneg) (use inv in \<open>auto split: if_splits\<close>)
  then have "int MAXOPBLOCKS - int k \<le> unused u" using inv u(1) unused_upd(3) [of u i k] by simp
  then have "lh_n s < int LOGSIZE" "lh_n s < log_size s - 1" using inv u(2) z by linarith+
  ultimately show ?thesis
    using h by (simp add: log_write_def Let_def bpin_def upd_buf_def del: LOGSIZE_def)
qed

theorem log_write_fits_witness:
  "\<exists>t u. begin_op (log_zero 31) = Ok () t \<and> log_write 0 t = Ok () u"
proof -
  obtain t where t: "begin_op (log_zero 31) = Ok () t" "held t = {}"
    by (simp add: begin_op_def log_zero_fields)
  have "log_run Map.empty (log_zero 31)"
    by (rule log_run.empty [where z = 31]) (simp add: log_vars_def log_zero_fields)
  from log_run.begin_call [OF this t(1), of 0] have r: "log_run [0 \<mapsto> 0] t" by simp
  have "log_size t = 31" using begin_op_vars [OF t(1)] by (simp add: log_vars_def log_zero_fields)
  with log_write_fits [OF r, of 0 0 0] t show ?thesis by simp
qed

end
