(* ===== verification/Ring.thy ===== *)
theory Ring
  imports Prelude
begin

text \<open>
  Ring buffers with free-running counters, as the kernel uses them for the UART's output, the
  console's input and pipes: the element with counter value \<open>c\<close> is in slot \<open>c mod N\<close>, the buffer is
  empty when the counters agree and full when they are \<open>N\<close> apart, and the counters wrap around at
  the width of their type.  That is sound when \<open>N\<close> divides the number of values of the type, which is
  what the locale assumes.
\<close>

definition ring_queue :: "nat \<Rightarrow> (nat \<Rightarrow> 'b) \<Rightarrow> 'w::len word \<Rightarrow> 'w word \<Rightarrow> 'b list" where
  "ring_queue N d r w = map (\<lambda>i. d (unat (r + word_of_nat i) mod N)) [0..<unat (w - r)]"

locale ring =
  fixes N :: nat and width :: "'w::len itself"
  assumes N_pos: "0 < N" and N_dvd: "N dvd 2 ^ LENGTH('w)" and N_less: "N < 2 ^ LENGTH('w)"
begin

lemma slot_eq:
  fixes a b :: "'w word"
  assumes "unat (a - b) < N" and "unat a mod N = unat b mod N"
  shows "a = b"
proof -
  obtain k where k: "2 ^ LENGTH('w) = N * k" using N_dvd by (elim dvdE)
  have "unat a = (unat (a - b) + unat b) mod 2 ^ LENGTH('w)"
    using unat_word_ariths(1) [of "a - b" b] by simp
  then have "unat a mod N = (unat (a - b) + unat b) mod N"
    unfolding k by (simp add: mod_mult2_eq)
  then have "(unat (a - b) + unat b) mod N = (0 + unat b) mod N" using assms(2) by simp
  then have "N dvd unat (a - b)"
    by (simp add: mod_eq_dvd_iff_nat)
  then show ?thesis using assms(1) by (auto dest: dvd_imp_le simp: unat_eq_0)
qed

lemma length_queue [simp]: "length (ring_queue N d r w) = unat (w - r)"
  by (simp add: ring_queue_def)

lemma queue_empty: "ring_queue N d r w = [] \<longleftrightarrow> w = (r :: 'w word)"
  by (auto simp: ring_queue_def unat_eq_0)

lemma full_iff:
  fixes r w :: "'w word"
  shows "w = r + word_of_nat N \<longleftrightarrow> unat (w - r) = N"
proof -
  have "unat (word_of_nat N :: 'w word) = N" using N_less by (simp add: unat_of_nat)
  moreover have "w = r + word_of_nat N \<longleftrightarrow> w - r = word_of_nat N" by (auto simp: algebra_simps)
  ultimately show ?thesis by (simp add: word_unat_eq_iff)
qed

lemma room_iff:
  fixes r w :: "'w word"
  assumes "unat (w - r) \<le> N"
  shows "w \<noteq> r + word_of_nat N \<longleftrightarrow> unat (w - r) < N"
  using assms full_iff by auto

lemma counter_Suc:
  fixes r w :: "'w word"
  assumes "unat (w - r) < N"
  shows "unat (w + 1 - r) = Suc (unat (w - r))"
proof -
  have "unat (w - r) + unat (1 :: 'w word) < 2 ^ LENGTH('w)"
    using assms N_less by simp
  then have "unat (w - r + 1) = unat (w - r) + 1" by (simp add: unat_add_nowrap)
  then show ?thesis by (simp add: algebra_simps)
qed

lemma put:
  fixes r w :: "'w word"
  assumes "unat (w - r) < N"
  shows "ring_queue N (d(unat w mod N := x)) r (w + 1) = ring_queue N d r w @ [x]"
proof -
  have "unat (r + word_of_nat i) mod N \<noteq> unat w mod N" if i: "i < unat (w - r)" for i
  proof
    assume eq: "unat (r + word_of_nat i) mod N = unat w mod N"
    have u: "unat (word_of_nat i :: 'w word) = i"
      using less_trans [OF i unsigned_less [of "w - r"]] by (simp add: unat_of_nat)
    then have "word_of_nat i \<le> w - r"
      using i by (simp add: word_le_nat_alt)
    then have "unat (w - r - word_of_nat i) = unat (w - r) - i"
      by (simp add: unat_sub u)
    then have "unat (w - (r + word_of_nat i)) = unat (w - r) - i" by (simp add: algebra_simps)
    then show False using slot_eq [of w "r + word_of_nat i"] eq i assms by auto
  qed
  moreover have "r + word_of_nat (unat (w - r)) = w" by simp
  ultimately show ?thesis
    by (simp add: ring_queue_def counter_Suc [OF assms])
qed

lemma get:
  fixes r w :: "'w word"
  assumes "w \<noteq> r"
  shows "ring_queue N d r w = d (unat r mod N) # ring_queue N d (r + 1) w"
proof -
  have "unat (w - r) = Suc (unat (w - (r + 1)))"
  proof -
    have "w - r \<noteq> 0" using assms by simp
    then have "unat (w - r - 1) = unat (w - r) - 1" "0 < unat (w - r)"
      by (simp_all add: unat_minus_one unat_gt_0)
    then show ?thesis by (simp add: algebra_simps)
  qed
  then show ?thesis
    by (simp add: ring_queue_def upt_rec [of 0] map_Suc_upt [symmetric] ac_simps del: upt_Suc)
qed

lemma unput:
  fixes r w :: "'w word"
  assumes "w \<noteq> r"
  shows "ring_queue N d r (w - 1) = butlast (ring_queue N d r w)"
    "last (ring_queue N d r w) = d (unat (w - 1) mod N)"
proof -
  have "w - r \<noteq> 0" using assms by simp
  then have "unat (w - r - 1) = unat (w - r) - 1" "0 < unat (w - r)"
    by (simp_all add: unat_minus_one unat_gt_0)
  then have n: "unat (w - r) = Suc (unat (w - 1 - r))" by (simp add: algebra_simps)
  show "ring_queue N d r (w - 1) = butlast (ring_queue N d r w)"
    by (simp add: ring_queue_def n)
  show "last (ring_queue N d r w) = d (unat (w - 1) mod N)"
    by (simp add: ring_queue_def n)
qed

end

end
