(* ===== verification/Uart.thy ===== *)
theory Uart
  imports Log Ring
begin

text \<open>
  The UART driver (kernel/uart.c).  The 16550 device is the last part of the state: the bytes it
  has sent, the bytes that wait in its receive register, its control registers, and \<open>uart_room\<close>, the
  number of bytes the transmitter takes before it reports busy; every sequence of status reads a
  call can see is one value of \<open>uart_room\<close>.  A loop that waits for the device alone ends in \<open>Spin\<close>.
\<close>

record uart_state = log_state +
  uart_tx_buf :: "nat \<Rightarrow> u8"
  uart_tx_w :: u64
  uart_tx_r :: u64
  panicked :: bool
  uart_room :: nat
  uart_out :: "u8 list"
  uart_in :: "u8 list"
  uart_reg :: "nat \<Rightarrow> u8"

definition RHR :: nat where [simp]: "RHR = 0"
definition THR :: nat where [simp]: "THR = 0"
definition IER :: nat where [simp]: "IER = 1"
definition FCR :: nat where [simp]: "FCR = 2"
definition ISR :: nat where [simp]: "ISR = 2"
definition LCR :: nat where [simp]: "LCR = 3"
definition LSR :: nat where [simp]: "LSR = 5"
definition LCR_EIGHT_BITS :: u8 where [simp]: "LCR_EIGHT_BITS = 3"
definition LCR_BAUD_LATCH :: u8 where [simp]: "LCR_BAUD_LATCH = 128"
definition LSR_RX_READY :: u8 where [simp]: "LSR_RX_READY = 1"
definition LSR_TX_IDLE :: u8 where [simp]: "LSR_TX_IDLE = 32"
definition UART_TX_BUF_SIZE :: nat where [simp]: "UART_TX_BUF_SIZE = 32"

text \<open>
  The device behind \<open>ReadReg\<close> and \<open>WriteReg\<close>.  While the baud latch is set, registers 0 and 1 are
  the divisor and not data or interrupt registers.
\<close>

definition ReadReg :: "nat \<Rightarrow> 'a uart_state_scheme \<Rightarrow> u8 \<times> 'a uart_state_scheme" where
  "ReadReg r s =
     (if r = LSR then ((if uart_in s \<noteq> [] then LSR_RX_READY else 0) OR (if uart_room s > 0 then LSR_TX_IDLE else 0), s)
      else if r = RHR \<and> uart_in s \<noteq> [] then (hd (uart_in s), s\<lparr>uart_in := tl (uart_in s)\<rparr>)
      else (uart_reg s r, s))"

definition WriteReg :: "nat \<Rightarrow> u8 \<Rightarrow> 'a uart_state_scheme \<Rightarrow> 'a uart_state_scheme" where
  "WriteReg r v s =
     (if r = THR \<and> uart_reg s LCR AND LCR_BAUD_LATCH = 0
      then s\<lparr>uart_out := uart_out s @ [v], uart_room := uart_room s - 1\<rparr>
      else s\<lparr>uart_reg := (uart_reg s)(r := v)\<rparr>)"

definition uartinit :: "'a uart_state_scheme \<Rightarrow> 'a uart_state_scheme" where
  "uartinit s =
     (let s = WriteReg IER 0 s;
          s = WriteReg LCR LCR_BAUD_LATCH s;
          s = WriteReg 0 3 s;
          s = WriteReg 1 0 s;
          s = WriteReg LCR LCR_EIGHT_BITS s;
          s = WriteReg FCR (1 OR 6) s;
          s = WriteReg IER (2 OR 1) s
      in lk_init LkUart s)"

text \<open>
  Every turn of the loop of \<open>uartstart\<close> sends one byte, so the loop ends after at most \<open>uart_room\<close>
  turns; the first argument counts them.
\<close>

fun uartstart_loop :: "nat \<Rightarrow> 'a uart_state_scheme \<Rightarrow> (unit, 'a uart_state_scheme) outcome" where
  "uartstart_loop n s =
     (if uart_tx_w s = uart_tx_r s then Ok () (snd (ReadReg ISR s))
      else if fst (ReadReg LSR s) AND LSR_TX_IDLE = 0 then Ok () s
      else case n of 0 \<Rightarrow> Spin
        | Suc m \<Rightarrow>
            let c = uart_tx_buf s (unat (uart_tx_r s) mod UART_TX_BUF_SIZE);
                s = s\<lparr>uart_tx_r := uart_tx_r s + 1\<rparr> in
            obind (wakeup (Some ChUart) s) (\<lambda>_ s. uartstart_loop m (WriteReg THR c s)))"

definition uartstart :: "'a uart_state_scheme \<Rightarrow> (unit, 'a uart_state_scheme) outcome" where
  "uartstart s = uartstart_loop (uart_room s) s"

definition uartputc :: "u8 \<Rightarrow> 'a uart_state_scheme \<Rightarrow> (unit, 'a uart_state_scheme) outcome" where
  "uartputc c s =
     obind (lk_acquire LkUart s) (\<lambda>_ s.
       if panicked s then Spin
       else if uart_tx_w s = uart_tx_r s + word_of_nat UART_TX_BUF_SIZE then sleep ChUart LkUart s
       else obind (uartstart (s\<lparr>uart_tx_buf := (uart_tx_buf s)(unat (uart_tx_w s) mod UART_TX_BUF_SIZE := c),
           uart_tx_w := uart_tx_w s + 1\<rparr>)) (\<lambda>_ s.
         lk_release LkUart s))"

definition uartputc_sync :: "u8 \<Rightarrow> 'a uart_state_scheme \<Rightarrow> (unit, 'a uart_state_scheme) outcome" where
  "uartputc_sync c s =
     (if panicked s then Spin
      else if fst (ReadReg LSR s) AND LSR_TX_IDLE = 0 then Spin
      else Ok () (WriteReg THR c s))"

definition uartgetc :: "'a uart_state_scheme \<Rightarrow> u8 option \<times> 'a uart_state_scheme" where
  "uartgetc s =
     (if fst (ReadReg LSR s) AND 1 \<noteq> 0 then let (c, s) = ReadReg RHR s in (Some c, s) else (None, s))"

definition BACKSPACE :: int where [simp]: "BACKSPACE = 0x100"

definition consputc :: "int \<Rightarrow> 'a uart_state_scheme \<Rightarrow> (unit, 'a uart_state_scheme) outcome" where
  "consputc c s =
     (if c = BACKSPACE then
        obind (uartputc_sync 8 s) (\<lambda>_ s. obind (uartputc_sync 32 s) (\<lambda>_ s. uartputc_sync 8 s))
      else uartputc_sync (word_of_int c) s)"

section \<open>Output in order\<close>

interpretation uring: ring UART_TX_BUF_SIZE "TYPE(64)"
  by unfold_locales simp_all

declare UART_TX_BUF_SIZE_def [simp del] uartstart_loop.simps [simp del]

definition txq :: "'a uart_state_scheme \<Rightarrow> u8 list" where
  "txq s = ring_queue UART_TX_BUF_SIZE (uart_tx_buf s) (uart_tx_r s) (uart_tx_w s)"

definition uart_ok :: "'a uart_state_scheme \<Rightarrow> bool" where
  "uart_ok s \<longleftrightarrow> length (txq s) \<le> UART_TX_BUF_SIZE \<and> uart_reg s LCR AND LCR_BAUD_LATCH = 0"

lemma tx_idle: "fst (ReadReg 5 s) AND 32 = 0 \<longleftrightarrow> uart_room s = 0"
  by (simp add: ReadReg_def)

lemma woken_idem [simp]: "woken ch c (woken ch c ps) = woken ch c ps"
  by (simp add: woken_def fun_eq_iff)

text \<open>\<open>k\<close> bytes have gone from the buffer to the device.\<close>

definition sent_out :: "nat \<Rightarrow> 'a uart_state_scheme \<Rightarrow> 'a uart_state_scheme" where
  "sent_out k s = s\<lparr>uart_tx_r := uart_tx_r s + word_of_nat k, uart_out := uart_out s @ take k (txq s),
     uart_room := uart_room s - k, procs := (if k = 0 then procs s else woken (Some ChUart) (cur s) (procs s))\<rparr>"

lemma sent_out_0 [simp]: "sent_out 0 s = s"
  by (simp add: sent_out_def)

lemma uartstart_loop_eq:
  assumes "no_proc_lock s" and "uart_reg s LCR AND LCR_BAUD_LATCH = 0" and "uart_room s \<le> n"
  shows "uartstart_loop n s = Ok () (sent_out (min (uart_room s) (length (txq s))) s)"
  using assms
proof (induction n arbitrary: s)
  case 0
  then show ?case
    by (subst uartstart_loop.simps) (simp add: tx_idle ReadReg_def txq_def)
next
  case (Suc n)
  let ?k = "min (uart_room s) (length (txq s))"
  show ?case
  proof (cases "uart_tx_w s = uart_tx_r s \<or> uart_room s = 0")
    case True
    then have "?k = 0" by (auto simp: txq_def ring_queue_def)
    then show ?thesis
      using True by (subst uartstart_loop.simps) (auto simp: tx_idle ReadReg_def)
  next
    case False
    let ?c = "uart_tx_buf s (unat (uart_tx_r s) mod UART_TX_BUF_SIZE)"
    define s1 where "s1 = s\<lparr>uart_tx_r := uart_tx_r s + 1, procs := woken (Some ChUart) (cur s) (procs s),
       uart_out := uart_out s @ [?c], uart_room := uart_room s - 1\<rparr>"
    have q: "txq s = ?c # txq s1"
      using uring.get [of "uart_tx_w s" "uart_tx_r s" "uart_tx_buf s"] False by (simp add: txq_def s1_def)
    have "uartstart_loop (Suc n) s = uartstart_loop n s1"
      using False Suc.prems
      by (subst uartstart_loop.simps)
        (simp add: tx_idle wakeup_eq no_proc_lock_def WriteReg_def s1_def Let_def)
    also have "\<dots> = Ok () (sent_out (min (uart_room s1) (length (txq s1))) s1)"
      by (rule Suc.IH) (use Suc.prems False in \<open>auto simp: s1_def no_proc_lock_def\<close>)
    also have "sent_out (min (uart_room s1) (length (txq s1))) s1 = sent_out ?k s"
    proof -
      have "uart_room s = Suc (uart_room s1)" using False by (simp add: s1_def)
      then have k: "?k = Suc (min (uart_room s1) (length (txq s1)))" by (simp add: q)
      show ?thesis unfolding k by (simp add: sent_out_def q) (simp add: s1_def)
    qed
    finally show ?thesis .
  qed
qed

lemma txq_sent_out:
  assumes "uart_ok s" and "k \<le> length (txq s)"
  shows "txq (sent_out k s) = drop k (txq s)"
  using assms(2)
proof (induction k)
  case (Suc k)
  let ?r = "uart_tx_r s + word_of_nat k" and ?w = "uart_tx_w s"
  have q: "txq (sent_out j s) = ring_queue UART_TX_BUF_SIZE (uart_tx_buf s) (uart_tx_r s + word_of_nat j) ?w" for j
    by (simp add: txq_def sent_out_def)
  have ih: "txq (sent_out k s) = drop k (txq s)" using Suc by simp
  then have "txq (sent_out k s) \<noteq> []" using Suc.prems by simp
  then have "?w \<noteq> ?r" unfolding q by (simp add: uring.queue_empty)
  then have "txq (sent_out k s) = hd (txq (sent_out k s)) # txq (sent_out (Suc k) s)"
    using uring.get [of ?w ?r "uart_tx_buf s"] unfolding q by (simp add: ac_simps)
  then have "txq (sent_out (Suc k) s) = tl (drop k (txq s))" by (metis ih list.sel(3))
  then show ?case by (simp add: drop_Suc tl_drop)
qed simp

lemma uartstart_eq:
  assumes "uart_ok s" and "no_proc_lock s"
  shows "uartstart s = Ok () (sent_out (min (uart_room s) (length (txq s))) s)"
  unfolding uartstart_def by (rule uartstart_loop_eq) (use assms in \<open>simp_all add: uart_ok_def\<close>)

lemma uartstart_stream:
  assumes "uart_ok s" and "no_proc_lock s"
  shows "ensures (uartstart s) (\<lambda>_ t. uart_out t @ txq t = uart_out s @ txq s \<and> uart_ok t \<and> held t = held s)"
proof -
  let ?k = "min (uart_room s) (length (txq s))"
  have q: "txq (sent_out ?k s) = drop ?k (txq s)" by (rule txq_sent_out [OF assms(1)]) simp
  have "uart_out (sent_out ?k s) = uart_out s @ take ?k (txq s)" "uart_reg (sent_out ?k s) = uart_reg s"
    "held (sent_out ?k s) = held s" by (simp_all add: sent_out_def)
  then show ?thesis
    unfolding uartstart_eq [OF assms] using assms(1) q by (auto simp: uart_ok_def)
qed

lemma lk_release_stream:
  "uart_out (t\<lparr>held := H\<rparr>) = uart_out t" "txq (t\<lparr>held := H\<rparr>) = txq t" "uart_ok (t\<lparr>held := H\<rparr>) = uart_ok t"
  by (simp_all add: txq_def uart_ok_def)

text \<open>The zeroed kernel data up to the UART, with the UART set up and two bytes in the buffer.\<close>

definition uart_zero :: uart_state where
  "uart_zero = log_state.extend (log_zero 31) (uart_state.fields (\<lambda>_. 0) 0 0 False 0 [] [] (\<lambda>_. 0))"

definition uart_example :: uart_state where
  "uart_example = uart_zero\<lparr>uart_tx_buf := (\<lambda>i. if i = 31 then 104 else 105), uart_tx_r := 31, uart_tx_w := 33, uart_room := 1,
     procs := (\<lambda>_. zero_proc\<lparr>state := SLEEPING, chan := Some ChUart\<rparr>)\<rparr>"

lemma uart_example_fields [simp]:
  "held uart_example = {}" "cur uart_example = Some 0" "uart_out uart_example = []" "uart_room uart_example = 1"
  "panicked uart_example = False" "uart_reg uart_example = (\<lambda>_. 0)" "txq uart_example = [104, 105]"
  "procs uart_example i = zero_proc\<lparr>state := SLEEPING, chan := Some ChUart\<rparr>"
  by (simp_all add: uart_example_def uart_zero_def log_zero_def bio_zero_def log_state.defs uart_state.defs
      txq_def ring_queue_def UART_TX_BUF_SIZE_def upt_rec)

text \<open>
  C13: what user programs write to the console reaches the device in order, nothing lost and nothing twice:
  \<open>uartputc\<close> with room in the buffer adds its byte at the end of the stream made of the bytes
  sent and the bytes waiting, and \<open>uartstart\<close> (the output half of the interrupt handler) moves bytes
  along that stream only.
\<close>

theorem uart_output_in_order:
  assumes "uart_ok s" and "no_proc_lock s" and "LkUart \<notin> held s" and "\<not> panicked s"
    and "length (txq s) < UART_TX_BUF_SIZE"
  shows "ensures (uartputc c s) (\<lambda>_ t. uart_out t @ txq t = uart_out s @ txq s @ [c] \<and> uart_ok t \<and> held t = held s) \<and>
    ensures (uartstart s) (\<lambda>_ t. uart_out t @ txq t = uart_out s @ txq s \<and> uart_ok t)"
proof
  show "ensures (uartstart s) (\<lambda>_ t. uart_out t @ txq t = uart_out s @ txq s \<and> uart_ok t)"
    using uartstart_stream [OF assms(1,2)] by (auto elim!: ensures_mono)
  let ?s = "s\<lparr>held := insert LkUart (held s), uart_tx_buf := (uart_tx_buf s)(unat (uart_tx_w s) mod UART_TX_BUF_SIZE := c),
     uart_tx_w := uart_tx_w s + 1\<rparr>"
  have r: "unat (uart_tx_w s - uart_tx_r s) < UART_TX_BUF_SIZE" using assms(5) by (simp add: txq_def)
  have q: "txq ?s = txq s @ [c]" using uring.put [OF r, of "uart_tx_buf s" c] by (simp add: txq_def)
  have "ensures (uartstart ?s) (\<lambda>_ t. uart_out t @ txq t = uart_out ?s @ txq ?s \<and> uart_ok t \<and> held t = held ?s)"
    by (rule uartstart_stream) (use assms q in \<open>auto simp: uart_ok_def no_proc_lock_def\<close>)
  moreover have "uart_tx_w s \<noteq> uart_tx_r s + word_of_nat UART_TX_BUF_SIZE"
    using uring.room_iff [of "uart_tx_w s" "uart_tx_r s"] r by simp
  ultimately show "ensures (uartputc c s) (\<lambda>_ t. uart_out t @ txq t = uart_out s @ txq s @ [c] \<and> uart_ok t \<and> held t = held s)"
    using assms(3,4) q unfolding uartputc_def
    by (auto simp: lk_release_stream elim!: ensures_mono)
qed

theorem uart_output_in_order_witness:
  "ensures (uartputc 106 uart_example) (\<lambda>_ t. uart_out t @ txq t = [104, 105, 106])"
  using uart_output_in_order [of uart_example 106]
  by (auto simp: uart_ok_def no_proc_lock_def UART_TX_BUF_SIZE_def elim!: ensures_mono)

text \<open>
  C25: every output interrupt makes progress: \<open>uartstart\<close> hands over as many bytes as the device has room
  for, the oldest first, and when it hands over any it makes every process runnable that sleeps for
  space in the buffer.
\<close>

theorem uartstart_progress:
  assumes "uart_ok s" and "no_proc_lock s" and "0 < uart_room s" and "txq s \<noteq> []"
  shows "ensures (uartstart s) (\<lambda>_ t.
    uart_out t = uart_out s @ take (uart_room s) (txq s) \<and> txq t = drop (uart_room s) (txq s) \<and>
    (\<forall>i < NPROC. Some i \<noteq> cur s \<and> state (procs s i) = SLEEPING \<and> chan (procs s i) = Some ChUart \<longrightarrow>
       state (procs t i) = RUNNABLE))"
proof -
  have "min (uart_room s) (length (txq s)) \<noteq> 0" using assms(3,4) by simp
  then show ?thesis
    using assms(1) uartstart_eq [OF assms(1,2)] txq_sent_out [OF assms(1), of "min (uart_room s) (length (txq s))"]
    by (auto simp: sent_out_def woken_def min_def)
qed

theorem uartstart_progress_witness:
  "ensures (uartstart uart_example) (\<lambda>_ t. uart_out t = [104] \<and> txq t = [105] \<and> state (procs t 5) = RUNNABLE)"
  using uartstart_progress [of uart_example]
  by (auto simp: uart_ok_def no_proc_lock_def UART_TX_BUF_SIZE_def NPROC_def zero_proc_def elim!: ensures_mono)

end
