(* ===== verification/Printf.thy ===== *)
theory Printf
  imports Uart
begin

text \<open>
  Kernel printing (kernel/printf.c, and \<open>procdump\<close> of kernel/proc.c).  A C string is the list of its
  bytes before the NUL.  The variable arguments are a list of values of the type \<open>va_arg\<close> asks for;
  asking for a missing argument or for one of another type is undefined behaviour, and so is a
  write past the end of the array \<open>buf\<close> of \<open>printint\<close>.
\<close>

record pr_state = uart_state +
  pr_locking :: bool

definition digit :: "nat \<Rightarrow> u8" where
  "digit d = (if d < 10 then word_of_nat (48 + d) else word_of_nat (97 + (d - 10)))"

text \<open>The do-while loop of \<open>printint\<close> over \<open>char buf[16]\<close>.\<close>

definition PRINTINT_BUF :: nat where [simp]: "PRINTINT_BUF = 16"

function printint_digits :: "nat \<Rightarrow> nat \<Rightarrow> u8 list \<Rightarrow> u8 list option" where
  "printint_digits base x buf =
     (if PRINTINT_BUF \<le> length buf then None
      else let buf = buf @ [digit (x mod base)] in
        if x div base = 0 then Some buf else printint_digits base (x div base) buf)"
  by pat_completeness auto
termination
  by (relation "measure (\<lambda>(base, x, buf). PRINTINT_BUF - length buf)") auto

fun putchars :: "u8 list \<Rightarrow> 'a uart_state_scheme \<Rightarrow> (unit, 'a uart_state_scheme) outcome" where
  "putchars [] s = Ok () s"
| "putchars (c # cs) s = obind (consputc (uint c) s) (\<lambda>_ s. putchars cs s)"

text \<open>The characters \<open>printint\<close> prints; \<open>xx\<close> is the value of the \<open>long long\<close>, and -(2^63) has no negation.\<close>

definition printint_chars :: "int \<Rightarrow> nat \<Rightarrow> bool \<Rightarrow> u8 list option" where
  "printint_chars xx base sign =
     (let neg = sign \<and> xx < 0 in
      if neg \<and> xx = - (2 ^ 63) then None
      else let x = (if neg then nat (- xx) else nat (xx mod 2 ^ 64)) in
        case printint_digits base x [] of None \<Rightarrow> None
        | Some buf \<Rightarrow>
            if neg then (if PRINTINT_BUF \<le> length buf then None else Some (rev (buf @ [45]))) else Some (rev buf))"

definition printint :: "int \<Rightarrow> nat \<Rightarrow> bool \<Rightarrow> 'a uart_state_scheme \<Rightarrow> (unit, 'a uart_state_scheme) outcome" where
  "printint xx base sign s =
     (case printint_chars xx base sign of None \<Rightarrow> Undef | Some cs \<Rightarrow> putchars cs s)"

fun printptr_loop :: "nat \<Rightarrow> u64 \<Rightarrow> u8 list" where
  "printptr_loop 0 x = []"
| "printptr_loop (Suc n) x = digit (unat (drop_bit 60 x)) # printptr_loop n (push_bit 4 x)"

definition printptr :: "u64 \<Rightarrow> 'a uart_state_scheme \<Rightarrow> (unit, 'a uart_state_scheme) outcome" where
  "printptr x s = putchars (48 # 120 # printptr_loop 16 x) s"

text \<open>
  One conversion: \<open>c0\<close> with the characters after it, and the arguments.  The result is what remains
  of both, or \<open>None\<close> for the \<open>break\<close> at the end of the format.
\<close>

definition printf_conv :: "u8 list \<Rightarrow> printf_arg list \<Rightarrow> 'a uart_state_scheme
    \<Rightarrow> ((u8 list \<times> printf_arg list) option, 'a uart_state_scheme) outcome" where
  "printf_conv fmt as s =
     (let c0 = nth0 fmt 0; c1 = (if c0 \<noteq> 0 then nth0 fmt 1 else 0); c2 = (if c1 \<noteq> 0 then nth0 fmt 2 else 0);
          int_arg = (\<lambda>base sign skip.
            case va_int as of None \<Rightarrow> Undef
            | Some (x, as) \<Rightarrow> obind (printint (sint x) base sign s) (\<lambda>_ s. Ok (Some (drop skip fmt, as)) s));
          long_arg = (\<lambda>base sign skip.
            case va_long as of None \<Rightarrow> Undef
            | Some (x, as) \<Rightarrow> obind (printint (sint x) base sign s) (\<lambda>_ s. Ok (Some (drop skip fmt, as)) s))
      in if c0 = 100 then int_arg 10 True 1
      else if c0 = 108 \<and> c1 = 100 then long_arg 10 True 2
      else if c0 = 108 \<and> c1 = 108 \<and> c2 = 100 then long_arg 10 True 3
      else if c0 = 117 then int_arg 10 False 1
      else if c0 = 108 \<and> c1 = 117 then long_arg 10 False 2
      else if c0 = 108 \<and> c1 = 108 \<and> c2 = 117 then long_arg 10 False 3
      else if c0 = 120 then int_arg 16 False 1
      else if c0 = 108 \<and> c1 = 120 then long_arg 16 False 2
      else if c0 = 108 \<and> c1 = 108 \<and> c2 = 120 then long_arg 16 False 3
      else if c0 = 112 then
        (case va_long as of None \<Rightarrow> Undef
         | Some (x, as) \<Rightarrow> obind (printptr x s) (\<lambda>_ s. Ok (Some (drop 1 fmt, as)) s))
      else if c0 = 115 then
        (case va_str as of None \<Rightarrow> Undef
         | Some (p, as) \<Rightarrow>
             obind (putchars (case p of None \<Rightarrow> str ''(null)'' | Some cs \<Rightarrow> cs) s) (\<lambda>_ s. Ok (Some (drop 1 fmt, as)) s))
      else if c0 = 37 then obind (consputc 37 s) (\<lambda>_ s. Ok (Some (drop 1 fmt, as)) s)
      else if c0 = 0 then Ok None s
      else obind (consputc 37 s) (\<lambda>_ s. obind (consputc (uint c0) s) (\<lambda>_ s. Ok (Some (drop 1 fmt, as)) s)))"

text \<open>The loop over the format; each turn consumes at least one character of it.\<close>

fun printf_loop :: "nat \<Rightarrow> u8 list \<Rightarrow> printf_arg list \<Rightarrow> 'a uart_state_scheme \<Rightarrow> (unit, 'a uart_state_scheme) outcome" where
  "printf_loop 0 fmt as s = Ok () s"
| "printf_loop (Suc n) fmt as s =
     (case fmt of [] \<Rightarrow> Ok () s
      | cx # fmt \<Rightarrow>
          if cx \<noteq> 37 then obind (consputc (uint cx) s) (\<lambda>_ s. printf_loop n fmt as s)
          else obind (printf_conv fmt as s) (\<lambda>r s.
            case r of None \<Rightarrow> Ok () s | Some (fmt, as) \<Rightarrow> printf_loop n fmt as s))"

definition printf :: "u8 list \<Rightarrow> printf_arg list \<Rightarrow> 'a pr_state_scheme \<Rightarrow> (unit, 'a pr_state_scheme) outcome" where
  "printf fmt as s =
     (let locking = pr_locking s in
      obind (if locking then lk_acquire LkPr s else Ok () s) (\<lambda>_ s.
      obind (printf_loop (length fmt) fmt as s) (\<lambda>_ s.
      if locking then lk_release LkPr s else Ok () s)))"

text \<open>What \<open>panic\<close> does before it loops for ever; elsewhere a panic is the outcome \<open>Panic\<close>.\<close>

definition panic :: "u8 list \<Rightarrow> 'a pr_state_scheme \<Rightarrow> (unit, 'a pr_state_scheme) outcome" where
  "panic msg s =
     obind (printf (str ''panic: '') [] (s\<lparr>pr_locking := False\<rparr>)) (\<lambda>_ s.
     obind (printf (str ''%s'' @ [10]) [AStr (Some msg)] s) (\<lambda>_ s. Ok () (s\<lparr>panicked := True\<rparr>)))"

definition printfinit :: "'a pr_state_scheme \<Rightarrow> 'a pr_state_scheme" where
  "printfinit s = (lk_init LkPr s)\<lparr>pr_locking := True\<rparr>"

fun state_name :: "procstate \<Rightarrow> u8 list" where
  "state_name UNUSED = str ''unused''"
| "state_name USED = str ''used''"
| "state_name SLEEPING = str ''sleep ''"
| "state_name RUNNABLE = str ''runble''"
| "state_name RUNNING = str ''run   ''"
| "state_name ZOMBIE = str ''zombie''"

fun procdump_loop :: "nat \<Rightarrow> 'a pr_state_scheme \<Rightarrow> (unit, 'a pr_state_scheme) outcome" where
  "procdump_loop 0 s = Ok () s"
| "procdump_loop (Suc n) s =
     (let p = procs s (NPROC - Suc n) in
      if state p = UNUSED then procdump_loop n s
      else obind (printf (str ''%d %s %s'')
          [AInt (word_of_int (pid p)), AStr (Some (state_name (state p))), AStr (Some (pname p))] s) (\<lambda>_ s.
        obind (printf [10] [] s) (\<lambda>_ s. procdump_loop n s)))"

definition procdump :: "'a pr_state_scheme \<Rightarrow> (unit, 'a pr_state_scheme) outcome" where
  "procdump s = obind (printf [10] [] s) (\<lambda>_ s. procdump_loop NPROC s)"

section \<open>Numerals\<close>

declare printint_digits.simps [simp del]

text \<open>The digits of a number, the lowest first, and the value of a numeral with an optional sign.\<close>

function digs :: "nat \<Rightarrow> nat \<Rightarrow> u8 list" where
  "digs base x = digit (x mod base) # (if x div base = 0 \<or> base < 2 then [] else digs base (x div base))"
  by pat_completeness auto
termination
  by (relation "measure snd") (auto intro!: div_less_dividend simp: not_less Suc_le_eq div_greater_zero_iff)

declare digs.simps [simp del]

definition undigit :: "u8 \<Rightarrow> nat" where
  "undigit c = (if c < 58 then unat c - 48 else unat c - 87)"

definition num_value :: "nat \<Rightarrow> u8 list \<Rightarrow> int" where
  "num_value base cs =
     (let val = (\<lambda>ds. int (foldl (\<lambda>a c. undigit c + base * a) 0 ds)) in
      if cs \<noteq> [] \<and> hd cs = 45 then - val (tl cs) else val cs)"

lemma printint_digits_eq:
  assumes "2 \<le> base"
  shows "printint_digits base x buf =
    (if length buf < PRINTINT_BUF \<and> x < base ^ (PRINTINT_BUF - length buf) then Some (buf @ digs base x) else None)"
  using assms
proof (induction base x buf rule: printint_digits.induct)
  case (1 base x buf)
  show ?case
  proof (cases "PRINTINT_BUF \<le> length buf")
    case True
    then show ?thesis by (subst printint_digits.simps) simp
  next
    case False
    then obtain k where k: "PRINTINT_BUF - length buf = Suc k" by (metis Suc_diff_Suc not_le)
    then have k': "15 - length buf = k" by simp
    have lt: "x div base < base ^ k \<longleftrightarrow> x < base ^ Suc k"
      using "1.prems" by (simp add: div_less_iff_less_mult mult.commute)
    show ?thesis
    proof (cases "x div base = 0")
      case True
      then have "x < base ^ Suc k" using "1.prems" lt by simp
      then show ?thesis
        using False True k by (subst printint_digits.simps) (simp add: digs.simps [of base x])
    next
      case ne: False
      have "printint_digits base x buf = printint_digits base (x div base) (buf @ [digit (x mod base)])"
        using False ne by (subst printint_digits.simps) (simp add: Let_def)
      also have "\<dots> = (if x div base < base ^ k \<and> Suc (length buf) < PRINTINT_BUF
          then Some (buf @ digit (x mod base) # digs base (x div base)) else None)"
        using "1.IH" [OF False refl ne "1.prems"] by (simp add: k')
      also have "Suc (length buf) < PRINTINT_BUF" if "x div base < base ^ k"
        using that ne k by (cases k) auto
      then have "(if x div base < base ^ k \<and> Suc (length buf) < PRINTINT_BUF
          then Some (buf @ digit (x mod base) # digs base (x div base)) else None) =
        (if x < base ^ Suc k then Some (buf @ digs base x) else None)"
        using lt ne "1.prems" by (auto simp: digs.simps [of base x])
      finally show ?thesis using False k by simp
    qed
  qed
qed

lemma undigit_digit: "d < 16 \<Longrightarrow> undigit (digit d) = d"
proof -
  assume "d < 16"
  then have "d \<in> set [0..<16]" by simp
  then show ?thesis by (auto simp: upt_rec undigit_def digit_def)
qed

lemma foldr_digs:
  assumes "2 \<le> base" and "base \<le> 16"
  shows "foldr (\<lambda>c a. undigit c + base * a) (digs base x) 0 = x"
  using assms
proof (induction base x rule: digs.induct)
  case (1 base x)
  have d: "undigit (digit (x mod base)) = x mod base"
    by (rule undigit_digit) (use "1.prems" mod_less_divisor [of base x] in linarith)
  show ?case
    using "1" d by (subst digs.simps) (auto simp: div_eq_0_iff)
qed

lemma digs_digits: "2 \<le> base \<Longrightarrow> base \<le> 16 \<Longrightarrow> c \<in> set (digs base x) \<Longrightarrow> c \<noteq> 45"
proof (induction base x rule: digs.induct)
  case (1 base x)
  have "x mod base < 16" using "1.prems" mod_less_divisor [of base x] by linarith
  then have "x mod base \<in> set [0..<16]" by simp
  then have "digit (x mod base) \<noteq> 45" by (auto simp: upt_rec digit_def)
  moreover have "c = digit (x mod base) \<or> x div base \<noteq> 0 \<and> c \<in> set (digs base (x div base))"
    using "1.prems"(3) by (subst (asm) digs.simps) (auto split: if_splits)
  ultimately show ?case using "1.IH" "1.prems"(1,2) by auto
qed

lemma num_value_digs:
  assumes "2 \<le> base" and "base \<le> 16"
  shows "num_value base (rev (digs base x)) = int x" "num_value base (45 # rev (digs base x)) = - int x"
proof -
  have f: "foldl (\<lambda>a c. undigit c + base * a) 0 (rev (digs base x)) = x"
    using foldr_digs [OF assms, of x] by (simp add: foldl_conv_foldr)
  have "rev (digs base x) \<noteq> []" by (subst digs.simps) simp
  then have "hd (rev (digs base x)) \<in> set (digs base x)" by (metis hd_in_set set_rev)
  then show "num_value base (rev (digs base x)) = int x"
    using digs_digits [OF assms] f by (auto simp: num_value_def)
  show "num_value base (45 # rev (digs base x)) = - int x" using f by (simp add: num_value_def)
qed

lemma digs_length: "2 \<le> base \<Longrightarrow> x < base ^ n \<Longrightarrow> 0 < n \<Longrightarrow> length (digs base x) \<le> n"
proof (induction n arbitrary: x)
  case (Suc n)
  show ?case
  proof (cases "x div base = 0")
    case True
    then show ?thesis by (subst digs.simps) simp
  next
    case False
    have lt: "x div base < base ^ n" using Suc.prems by (simp add: div_less_iff_less_mult mult.commute)
    then have "0 < n" using False by (cases n) auto
    then show ?thesis using Suc.IH [OF Suc.prems(1) lt] Suc.prems(1) False by (subst digs.simps) simp
  qed
qed simp

lemma digs_long: "2 \<le> base \<Longrightarrow> base ^ n \<le> x \<Longrightarrow> n < length (digs base x)"
proof (induction n arbitrary: x)
  case 0
  then show ?case by (subst digs.simps) simp
next
  case (Suc n)
  have "base ^ n \<le> x div base" using Suc.prems by (simp add: less_eq_div_iff_mult_less_eq mult.commute)
  moreover have "0 < base ^ n" using Suc.prems(1) by simp
  ultimately have "n < length (digs base (x div base))" "0 < x div base" using Suc.IH Suc.prems(1) by (blast, linarith)
  then show ?case using Suc.prems(1) by (subst digs.simps) simp
qed

text \<open>The transmitter takes at least \<open>n\<close> bytes without a wait.\<close>

definition sends :: "nat \<Rightarrow> 'a uart_state_scheme \<Rightarrow> bool" where
  "sends n s \<longleftrightarrow> \<not> panicked s \<and> uart_reg s LCR AND LCR_BAUD_LATCH = 0 \<and> n \<le> uart_room s"

lemma putchars_eq:
  "sends (length cs) s \<Longrightarrow>
    putchars cs s = Ok () (s\<lparr>uart_out := uart_out s @ cs, uart_room := uart_room s - length cs\<rparr>)"
proof (induction cs arbitrary: s)
  case (Cons c cs)
  let ?s = "s\<lparr>uart_out := uart_out s @ [c], uart_room := uart_room s - 1\<rparr>"
  have "uint c < 256" using uint_lt2p [of c] by simp
  then have "consputc (uint c) s = Ok () ?s"
    using Cons.prems by (auto simp: consputc_def uartputc_sync_def WriteReg_def tx_idle sends_def)
  moreover have "sends (length cs) ?s" using Cons.prems by (auto simp: sends_def)
  ultimately show ?case using Cons.IH [of ?s] by simp
qed simp

lemma printint_chars_value:
  assumes "2 \<le> base" and "base \<le> 16" and "- (2 ^ 63) < xx" and "xx < 2 ^ 63"
    and "0 \<le> xx \<and> xx < int base ^ 16 \<or> sign \<and> xx < 0 \<and> - xx < int base ^ 15"
  shows "\<exists>cs. printint_chars xx base sign = Some cs \<and> length cs \<le> 16 \<and> num_value base cs = xx"
proof (cases "xx < 0")
  case False
  have x: "nat (xx mod 2 ^ 64) = nat xx" using False assms(4) by simp
  have "nat xx < base ^ 16" using False assms(5) by (simp add: nat_less_iff)
  then have "printint_chars xx base sign = Some (rev (digs base (nat xx)))"
    using False assms(1) x by (simp add: printint_chars_def Let_def printint_digits_eq)
  then show ?thesis
    using num_value_digs(1) [OF assms(1,2), of "nat xx"] False digs_length [OF assms(1), of "nat xx" 16] \<open>nat xx < base ^ 16\<close> by simp
next
  case True
  then have s: "sign" "nat (- xx) < base ^ 15" using assms(5) by (auto simp: nat_less_iff)
  then have "nat (- xx) < base ^ 16" using power_increasing [of 15 16 base] assms(1) by linarith
  then have "printint_chars xx base sign = Some (45 # rev (digs base (nat (- xx))))"
    using True s assms(1,3) digs_length [OF assms(1) s(2)] by (simp add: printint_chars_def Let_def printint_digits_eq)
  then show ?thesis
    using num_value_digs(2) [OF assms(1,2), of "nat (- xx)"] True digs_length [OF assms(1) s(2)] by simp
qed

text \<open>
  C28: \<open>printint\<close> prints its argument when the numeral fits the buffer: for a base from 2 to 16 and an argument that is
  not negative and below \<open>base ^ 16\<close>, or negative, printed with its sign and above \<open>- base ^ 15\<close>, the
  bytes that reach the transmitter are at most 16 and their value is the argument.  Nothing else changes.
\<close>

theorem printint_value:
  assumes "2 \<le> base" and "base \<le> 16" and "- (2 ^ 63) < xx" and "xx < 2 ^ 63"
    and "0 \<le> xx \<and> xx < int base ^ 16 \<or> sign \<and> xx < 0 \<and> - xx < int base ^ 15" and "sends 16 s"
  shows "ensures (printint xx base sign s) (\<lambda>_ t. \<exists>cs. length cs \<le> 16 \<and> num_value base cs = xx \<and>
    t = s\<lparr>uart_out := uart_out s @ cs, uart_room := uart_room s - length cs\<rparr>)"
proof -
  obtain cs where cs: "printint_chars xx base sign = Some cs" "length cs \<le> 16" "num_value base cs = xx"
    using printint_chars_value [OF assms(1-5)] by blast
  moreover have "sends (length cs) s" using assms(6) cs(2) by (simp add: sends_def)
  ultimately show ?thesis by (auto simp: printint_def putchars_eq)
qed

theorem printint_value_witness:
  "ensures (printint (- 4095) 16 True (uart_zero\<lparr>uart_room := 16\<rparr>))
     (\<lambda>_ t. num_value 16 (uart_out t) = - 4095)"
proof -
  have z: "sends 16 (uart_zero\<lparr>uart_room := 16\<rparr>)" "uart_out uart_zero = []"
    by (simp_all add: sends_def uart_zero_def log_zero_def bio_zero_def log_state.defs uart_state.defs)
  show ?thesis
    by (rule ensures_mono [OF printint_value [of 16 "- 4095" True, OF _ _ _ _ _ z(1)]]) (auto simp: z(2))
qed

text \<open>
  C32: the buffer of \<open>printint\<close> is too small for 64-bit values: in base 10 every value of \<open>10^16\<close> or more (17 digits),
  every negative value printed with its sign of \<open>-10^15\<close> or less (16 digits and the sign), and every negative
  \<open>int\<close> printed with \<open>%u\<close> (which \<open>printf\<close> passes on as a negative \<open>long long\<close>) makes it write past the end.
\<close>

theorem printint_overflow:
  "(10 ^ 16 \<le> xx mod 2 ^ 64 \<and> \<not> (sign \<and> xx < 0) \<longrightarrow> printint xx 10 sign s = Undef) \<and>
   (10 ^ 15 \<le> - xx \<longrightarrow> printint xx 10 True s = Undef) \<and>
   (- (2 ^ 31) \<le> xx \<and> xx < 0 \<longrightarrow> printint xx 10 False s = Undef)"
proof (intro conjI impI)
  assume h: "10 ^ 16 \<le> xx mod 2 ^ 64 \<and> \<not> (sign \<and> xx < 0)"
  then have "\<not> nat (xx mod 2 ^ 64) < 10 ^ 16" by (simp add: nat_less_iff)
  then have "printint_chars xx 10 sign = None"
    using h by (auto simp: printint_chars_def Let_def printint_digits_eq)
  then show "printint xx 10 sign s = Undef" by (simp add: printint_def)
next
  assume h: "10 ^ 15 \<le> - xx"
  then have "10 ^ 15 \<le> nat (- xx)" "xx < 0" by simp_all
  then have "printint_chars xx 10 True = None"
    using digs_long [of 10 15 "nat (- xx)"] by (auto simp: printint_chars_def Let_def printint_digits_eq)
  then show "printint xx 10 True s = Undef" by (simp add: printint_def)
next
  assume h: "- (2 ^ 31) \<le> xx \<and> xx < 0"
  then have "(xx + 2 ^ 64) mod 2 ^ 64 = xx + 2 ^ 64" by (intro mod_pos_pos_trivial) simp_all
  then have "xx mod 2 ^ 64 = xx + 2 ^ 64" by (simp only: mod_add_self2)
  then have "\<not> nat (xx mod 2 ^ 64) < 10 ^ 16" using h by (simp add: nat_less_iff)
  then have "printint_chars xx 10 False = None"
    by (simp add: printint_chars_def Let_def printint_digits_eq)
  then show "printint xx 10 False s = Undef" by (simp add: printint_def)
qed

theorem printint_overflow_witness:
  "printint (2 ^ 63 - 1) 10 True uart_zero = Undef \<and> printint (- (10 ^ 15)) 10 True uart_zero = Undef \<and>
   printint (- 1) 10 False uart_zero = Undef"
  using printint_overflow [of "2 ^ 63 - 1" True uart_zero] printint_overflow [of "- (10 ^ 15)" True uart_zero]
    printint_overflow [of "- 1" False uart_zero] by simp

end
