(* ===== verification/Fs.thy ===== *)
theory Fs
  imports Printf Cstring
begin

text \<open>
  The file system below file descriptors (kernel/fs.c, kernel/fs.h, kernel/file.h): the block
  allocator, inodes and their table, file contents, directories and path names.  A
  \<open>struct inode *\<close> is an index of the inode table and a null pointer is \<open>None\<close>.  A C string in kernel
  memory is the list of its bytes before the NUL; a block is its bytes; \<open>readi\<close> returns, besides
  its C result, the bytes it stores when the destination is kernel memory.
\<close>

section \<open>On-disk format and in-memory state\<close>

definition FSMAGIC :: u32 where "FSMAGIC = 0x10203040"
definition NDIRECT :: nat where [simp]: "NDIRECT = 12"
definition NINDIRECT :: nat where [simp]: "NINDIRECT = BSIZE div 4"
definition MAXFILE :: nat where [simp]: "MAXFILE = NDIRECT + NINDIRECT"
definition IPB :: nat where [simp]: "IPB = BSIZE div 64"
definition BPB :: nat where [simp]: "BPB = BSIZE * 8"
definition ROOTINO :: u32 where "ROOTINO = 1"
definition NINODE :: nat where [simp]: "NINODE = 50"

record dinode =
  di_type :: u16
  di_major :: u16
  di_minor :: u16
  di_nlink :: u16
  di_size :: u32
  di_addrs :: "nat \<Rightarrow> u32"

text \<open>\<open>struct dinode\<close> number \<open>k\<close> of a block: 64 bytes, the addresses from byte 12.\<close>

definition get_dinode :: "bytes \<Rightarrow> nat \<Rightarrow> dinode" where
  "get_dinode d k = \<lparr>di_type = load16 d (64 * k), di_major = load16 d (64 * k + 2), di_minor = load16 d (64 * k + 4),
     di_nlink = load16 d (64 * k + 6), di_size = load32 d (64 * k + 8),
     di_addrs = (\<lambda>i. if i < NDIRECT + 1 then load32 d (64 * k + 12 + 4 * i) else 0)\<rparr>"

fun put_addrs :: "nat \<Rightarrow> (nat \<Rightarrow> u32) \<Rightarrow> nat \<Rightarrow> bytes \<Rightarrow> bytes" where
  "put_addrs 0 a p d = d"
| "put_addrs (Suc n) a p d = store32 (put_addrs n a p d) (p + 4 * n) (a n)"

definition put_dinode :: "dinode \<Rightarrow> nat \<Rightarrow> bytes \<Rightarrow> bytes" where
  "put_dinode di k d =
     put_addrs (NDIRECT + 1) (di_addrs di) (64 * k + 12)
       (store32 (store16 (store16 (store16 (store16 d (64 * k) (di_type di)) (64 * k + 2) (di_major di))
         (64 * k + 4) (di_minor di)) (64 * k + 6) (di_nlink di)) (64 * k + 8) (di_size di))"

record inode =
  idev :: u32
  inum :: u32
  iref :: int
  ivalid :: bool
  itype :: u16
  major :: u16
  minor :: u16
  nlink :: u16
  isize :: u32
  addrs :: "nat \<Rightarrow> u32"

record fs_state = pr_state +
  sb :: superblock
  inodes :: "nat \<Rightarrow> inode"

definition upd_inode :: "nat \<Rightarrow> (inode \<Rightarrow> inode) \<Rightarrow> 'a fs_state_scheme \<Rightarrow> 'a fs_state_scheme" where
  "upd_inode i f s = s\<lparr>inodes := (inodes s)(i := f (inodes s i))\<rparr>"

definition IBLOCK :: "u32 \<Rightarrow> superblock \<Rightarrow> u32" where
  "IBLOCK i b = i div 16 + inodestart b"

definition BBLOCK :: "u32 \<Rightarrow> superblock \<Rightarrow> u32" where
  "BBLOCK n b = n div 8192 + bmapstart b"

section \<open>Blocks\<close>

definition get_superblock :: "bytes \<Rightarrow> superblock" where
  "get_superblock d = \<lparr>magic = load32 d 0, sb_size = load32 d 4, nblocks = load32 d 8, ninodes = load32 d 12,
     nlog = load32 d 16, logstart = load32 d 20, inodestart = load32 d 24, bmapstart = load32 d 28\<rparr>"

definition readsb :: "u32 \<Rightarrow> 'a fs_state_scheme \<Rightarrow> (unit, 'a fs_state_scheme) outcome" where
  "readsb d s =
     obind (bread d 1 s) (\<lambda>bp s.
     brelse bp (s\<lparr>sb := get_superblock (get_data bp s)\<rparr>))"

definition fsinit :: "u32 \<Rightarrow> 'a fs_state_scheme \<Rightarrow> (unit, 'a fs_state_scheme) outcome" where
  "fsinit d s =
     obind (readsb d s) (\<lambda>_ s.
       if magic (sb s) \<noteq> FSMAGIC then Panic ''invalid file system'' else initlog d (sb s) s)"

definition bzero :: "u32 \<Rightarrow> u32 \<Rightarrow> 'a fs_state_scheme \<Rightarrow> (unit, 'a fs_state_scheme) outcome" where
  "bzero d bno s =
     obind (bread d bno s) (\<lambda>bp s.
     obind (log_write bp (set_data bp (\<lambda>_. 0) s)) (\<lambda>_ s. brelse bp s))"

definition bit_mask :: "nat \<Rightarrow> u8" where
  "bit_mask bi = push_bit (bi mod 8) 1"

text \<open>The inner loop of \<open>balloc\<close>: the first clear bit among the last \<open>k\<close> of the \<open>lim\<close> bits.\<close>

fun balloc_scan :: "nat \<Rightarrow> nat \<Rightarrow> bytes \<Rightarrow> nat option" where
  "balloc_scan 0 lim d = None"
| "balloc_scan (Suc k) lim d =
     (let bi = lim - Suc k in
      if d (bi div 8) AND bit_mask bi = 0 then Some bi else balloc_scan k lim d)"

definition balloc_none :: "'a fs_state_scheme \<Rightarrow> (u32, 'a fs_state_scheme) outcome" where
  "balloc_none s = obind (printf (str ''balloc: out of blocks'' @ [10]) [] s) (\<lambda>_ s. Ok 0 s)"

fun balloc_loop :: "nat \<Rightarrow> nat \<Rightarrow> u32 \<Rightarrow> 'a fs_state_scheme \<Rightarrow> (u32, 'a fs_state_scheme) outcome" where
  "balloc_loop 0 b d s = balloc_none s"
| "balloc_loop (Suc k) b d s =
     (if b < unat (sb_size (sb s)) then
        obind (bread d (BBLOCK (word_of_nat b) (sb s)) s) (\<lambda>bp s.
          let lim = min BPB (unat (sb_size (sb s)) - b); dt = get_data bp s in
          case balloc_scan lim lim dt of
            Some bi \<Rightarrow>
              obind (log_write bp (set_data bp (dt(bi div 8 := dt (bi div 8) OR bit_mask bi)) s)) (\<lambda>_ s.
              obind (brelse bp s) (\<lambda>_ s.
              obind (bzero d (word_of_nat (b + bi)) s) (\<lambda>_ s. Ok (word_of_nat (b + bi)) s)))
          | None \<Rightarrow> obind (brelse bp s) (\<lambda>_ s. balloc_loop k (b + BPB) d s))
      else balloc_none s)"

definition balloc :: "u32 \<Rightarrow> 'a fs_state_scheme \<Rightarrow> (u32, 'a fs_state_scheme) outcome" where
  "balloc d s = balloc_loop (Suc (unat (sb_size (sb s)) div BPB)) 0 d s"

definition bfree :: "u32 \<Rightarrow> u32 \<Rightarrow> 'a fs_state_scheme \<Rightarrow> (unit, 'a fs_state_scheme) outcome" where
  "bfree d b s =
     obind (bread d (BBLOCK b (sb s)) s) (\<lambda>bp s.
       let bi = unat b mod BPB; m = bit_mask bi; dt = get_data bp s in
       if dt (bi div 8) AND m = 0 then Panic ''freeing free block''
       else obind (log_write bp (set_data bp (dt(bi div 8 := dt (bi div 8) AND NOT m)) s)) (\<lambda>_ s. brelse bp s))"

section \<open>Inodes\<close>

fun iinit_loop :: "nat \<Rightarrow> 'a fs_state_scheme \<Rightarrow> 'a fs_state_scheme" where
  "iinit_loop 0 s = s"
| "iinit_loop (Suc n) s = iinit_loop n (initsleeplock (SlInode (NINODE - Suc n)) s)"

definition iinit :: "'a fs_state_scheme \<Rightarrow> 'a fs_state_scheme" where
  "iinit s = iinit_loop NINODE (lk_init LkItable s)"

text \<open>The scan of \<open>iget\<close>: an entry for the inode, or else the first unused entry.\<close>

fun iget_scan :: "nat \<Rightarrow> u32 \<Rightarrow> u32 \<Rightarrow> nat option \<Rightarrow> (nat \<Rightarrow> inode) \<Rightarrow> nat + nat option" where
  "iget_scan 0 d i emp t = Inr emp"
| "iget_scan (Suc n) d i emp t =
     (let ip = NINODE - Suc n in
      if iref (t ip) > 0 \<and> idev (t ip) = d \<and> inum (t ip) = i then Inl ip
      else iget_scan n d i (if emp = None \<and> iref (t ip) = 0 then Some ip else emp) t)"

definition iget :: "u32 \<Rightarrow> u32 \<Rightarrow> 'a fs_state_scheme \<Rightarrow> (nat, 'a fs_state_scheme) outcome" where
  "iget d i s =
     obind (lk_acquire LkItable s) (\<lambda>_ s.
       case iget_scan NINODE d i None (inodes s) of
         Inl ip \<Rightarrow> obind (lk_release LkItable (upd_inode ip (\<lambda>q. q\<lparr>iref := iref q + 1\<rparr>) s)) (\<lambda>_ s. Ok ip s)
       | Inr None \<Rightarrow> Panic ''iget: no inodes''
       | Inr (Some ip) \<Rightarrow>
           obind (lk_release LkItable
             (upd_inode ip (\<lambda>q. q\<lparr>idev := d, inum := i, iref := 1, ivalid := False\<rparr>) s)) (\<lambda>_ s. Ok ip s))"

fun ialloc_loop :: "nat \<Rightarrow> u32 \<Rightarrow> u32 \<Rightarrow> u16 \<Rightarrow> 'a fs_state_scheme \<Rightarrow> (nat option, 'a fs_state_scheme) outcome" where
  "ialloc_loop 0 i d ty s = obind (printf (str ''ialloc: no inodes'' @ [10]) [] s) (\<lambda>_ s. Ok None s)"
| "ialloc_loop (Suc k) i d ty s =
     obind (bread d (IBLOCK i (sb s)) s) (\<lambda>bp s.
       let dt = get_data bp s; j = unat i mod IPB in
       if di_type (get_dinode dt j) = 0 then
         obind (log_write bp (set_data bp (store16 (write_bytes dt (64 * j) (replicate 64 0)) (64 * j) ty) s)) (\<lambda>_ s.
         obind (brelse bp s) (\<lambda>_ s.
         obind (iget d i s) (\<lambda>ip s. Ok (Some ip) s)))
       else obind (brelse bp s) (\<lambda>_ s. ialloc_loop k (i + 1) d ty s))"

definition ialloc :: "u32 \<Rightarrow> u16 \<Rightarrow> 'a fs_state_scheme \<Rightarrow> (nat option, 'a fs_state_scheme) outcome" where
  "ialloc d ty s = ialloc_loop (unat (ninodes (sb s)) - 1) 1 d ty s"

definition dinode_of :: "inode \<Rightarrow> dinode" where
  "dinode_of ip = \<lparr>di_type = itype ip, di_major = major ip, di_minor = minor ip, di_nlink = nlink ip,
     di_size = isize ip, di_addrs = addrs ip\<rparr>"

definition iupdate :: "nat \<Rightarrow> 'a fs_state_scheme \<Rightarrow> (unit, 'a fs_state_scheme) outcome" where
  "iupdate ip s =
     obind (bread (idev (inodes s ip)) (IBLOCK (inum (inodes s ip)) (sb s)) s) (\<lambda>bp s.
     obind (log_write bp (set_data bp (put_dinode (dinode_of (inodes s ip))
       (unat (inum (inodes s ip)) mod IPB) (get_data bp s)) s)) (\<lambda>_ s. brelse bp s))"

definition idup :: "nat \<Rightarrow> 'a fs_state_scheme \<Rightarrow> (nat, 'a fs_state_scheme) outcome" where
  "idup ip s =
     obind (lk_acquire LkItable s) (\<lambda>_ s.
     obind (lk_release LkItable (upd_inode ip (\<lambda>q. q\<lparr>iref := iref q + 1\<rparr>) s)) (\<lambda>_ s. Ok ip s))"

definition load_inode :: "dinode \<Rightarrow> inode \<Rightarrow> inode" where
  "load_inode di ip = ip\<lparr>itype := di_type di, major := di_major di, minor := di_minor di, nlink := di_nlink di,
     isize := di_size di, addrs := di_addrs di\<rparr>"

definition ilock :: "nat option \<Rightarrow> 'a fs_state_scheme \<Rightarrow> (unit, 'a fs_state_scheme) outcome" where
  "ilock p s =
     (case p of None \<Rightarrow> Panic ''ilock''
      | Some ip \<Rightarrow>
          if iref (inodes s ip) < 1 then Panic ''ilock''
          else obind (acquiresleep (SlInode ip) s) (\<lambda>_ s.
            if \<not> ivalid (inodes s ip) then
              obind (bread (idev (inodes s ip)) (IBLOCK (inum (inodes s ip)) (sb s)) s) (\<lambda>bp s.
              obind (brelse bp (upd_inode ip
                (load_inode (get_dinode (get_data bp s) (unat (inum (inodes s ip)) mod IPB))) s)) (\<lambda>_ s.
                let s = upd_inode ip (\<lambda>q. q\<lparr>ivalid := True\<rparr>) s in
                if itype (inodes s ip) = 0 then Panic ''ilock: no type'' else Ok () s))
            else Ok () s))"

definition iunlock :: "nat option \<Rightarrow> 'a fs_state_scheme \<Rightarrow> (unit, 'a fs_state_scheme) outcome" where
  "iunlock p s =
     (case p of None \<Rightarrow> Panic ''iunlock''
      | Some ip \<Rightarrow>
          obind (holdingsleep (SlInode ip) s) (\<lambda>h s.
            if \<not> h \<or> iref (inodes s ip) < 1 then Panic ''iunlock'' else releasesleep (SlInode ip) s))"

section \<open>File contents\<close>

fun itrunc_direct :: "nat \<Rightarrow> nat \<Rightarrow> 'a fs_state_scheme \<Rightarrow> (unit, 'a fs_state_scheme) outcome" where
  "itrunc_direct 0 ip s = Ok () s"
| "itrunc_direct (Suc n) ip s =
     (let i = NDIRECT - Suc n; a = addrs (inodes s ip) i in
      if a \<noteq> 0 then
        obind (bfree (idev (inodes s ip)) a s) (\<lambda>_ s.
        itrunc_direct n ip (upd_inode ip (\<lambda>q. q\<lparr>addrs := (addrs q)(i := 0)\<rparr>) s))
      else itrunc_direct n ip s)"

text \<open>\<open>a\<close> points into the buffer of the indirect block, which the loop does not change.\<close>

fun itrunc_indirect :: "nat \<Rightarrow> nat \<Rightarrow> nat \<Rightarrow> 'a fs_state_scheme \<Rightarrow> (unit, 'a fs_state_scheme) outcome" where
  "itrunc_indirect 0 bp ip s = Ok () s"
| "itrunc_indirect (Suc n) bp ip s =
     (let j = NINDIRECT - Suc n; a = load32 (get_data bp s) (4 * j) in
      if a \<noteq> 0 then obind (bfree (idev (inodes s ip)) a s) (\<lambda>_ s. itrunc_indirect n bp ip s)
      else itrunc_indirect n bp ip s)"

definition itrunc :: "nat \<Rightarrow> 'a fs_state_scheme \<Rightarrow> (unit, 'a fs_state_scheme) outcome" where
  "itrunc ip s =
     obind (itrunc_direct NDIRECT ip s) (\<lambda>_ s.
     obind
       (if addrs (inodes s ip) NDIRECT \<noteq> 0 then
          obind (bread (idev (inodes s ip)) (addrs (inodes s ip) NDIRECT) s) (\<lambda>bp s.
          obind (itrunc_indirect NINDIRECT bp ip s) (\<lambda>_ s.
          obind (brelse bp s) (\<lambda>_ s.
          obind (bfree (idev (inodes s ip)) (addrs (inodes s ip) NDIRECT) s) (\<lambda>_ s.
          Ok () (upd_inode ip (\<lambda>q. q\<lparr>addrs := (addrs q)(NDIRECT := 0)\<rparr>) s)))))
        else Ok () s) (\<lambda>_ s.
     iupdate ip (upd_inode ip (\<lambda>q. q\<lparr>isize := 0\<rparr>) s)))"

definition iput :: "nat \<Rightarrow> 'a fs_state_scheme \<Rightarrow> (unit, 'a fs_state_scheme) outcome" where
  "iput ip s =
     obind (lk_acquire LkItable s) (\<lambda>_ s.
     obind
       (if iref (inodes s ip) = 1 \<and> ivalid (inodes s ip) \<and> nlink (inodes s ip) = 0 then
          obind (acquiresleep (SlInode ip) s) (\<lambda>_ s.
          obind (lk_release LkItable s) (\<lambda>_ s.
          obind (itrunc ip s) (\<lambda>_ s.
          obind (iupdate ip (upd_inode ip (\<lambda>q. q\<lparr>itype := 0\<rparr>) s)) (\<lambda>_ s.
          obind (releasesleep (SlInode ip) (upd_inode ip (\<lambda>q. q\<lparr>ivalid := False\<rparr>) s)) (\<lambda>_ s.
          lk_acquire LkItable s)))))
        else Ok () s) (\<lambda>_ s.
     lk_release LkItable (upd_inode ip (\<lambda>q. q\<lparr>iref := iref q - 1\<rparr>) s)))"

definition iunlockput :: "nat \<Rightarrow> 'a fs_state_scheme \<Rightarrow> (unit, 'a fs_state_scheme) outcome" where
  "iunlockput ip s = obind (iunlock (Some ip) s) (\<lambda>_ s. iput ip s)"

definition bmap_slot :: "nat \<Rightarrow> nat \<Rightarrow> 'a fs_state_scheme \<Rightarrow> (u32, 'a fs_state_scheme) outcome" where
  "bmap_slot ip k s =
     (let addr = addrs (inodes s ip) k in
      if addr = 0 then
        obind (balloc (idev (inodes s ip)) s) (\<lambda>addr s.
          if addr = 0 then Ok 0 s
          else Ok addr (upd_inode ip (\<lambda>q. q\<lparr>addrs := (addrs q)(k := addr)\<rparr>) s))
      else Ok addr s)"

definition bmap :: "nat \<Rightarrow> nat \<Rightarrow> 'a fs_state_scheme \<Rightarrow> (u32, 'a fs_state_scheme) outcome" where
  "bmap ip bn s =
     (if bn < NDIRECT then bmap_slot ip bn s
      else let bn = bn - NDIRECT in
        if bn < NINDIRECT then
          obind (bmap_slot ip NDIRECT s) (\<lambda>addr s.
            if addr = 0 then Ok 0 s
            else obind (bread (idev (inodes s ip)) addr s) (\<lambda>bp s.
              let addr = load32 (get_data bp s) (4 * bn) in
              obind
                (if addr = 0 then
                   obind (balloc (idev (inodes s ip)) s) (\<lambda>addr s.
                     if addr \<noteq> 0 then
                       obind (log_write bp (set_data bp (store32 (get_data bp s) (4 * bn) addr) s)) (\<lambda>_ s. Ok addr s)
                     else Ok addr s)
                 else Ok addr s) (\<lambda>addr s.
              obind (brelse bp s) (\<lambda>_ s. Ok addr s))))
        else Panic ''bmap: out of range'')"

definition stati :: "nat \<Rightarrow> 'a fs_state_scheme \<Rightarrow> stat" where
  "stati ip s = (let q = inodes s ip in
     \<lparr>st_dev = idev q, st_ino = inum q, st_type = itype q, st_nlink = nlink q, st_size = ucast (isize q)\<rparr>)"

text \<open>A \<open>uint\<close> returned as an \<open>int\<close>.\<close>

definition ret_uint :: "nat \<Rightarrow> int" where
  "ret_uint n = sint (word_of_nat n :: u32)"

text \<open>
  The loops of \<open>readi\<close> and \<open>writei\<close> with \<open>left\<close> = \<open>n - tot\<close> bytes to go.  The check \<open>off + n < off\<close> before
  them excludes that \<open>off\<close> wraps.
\<close>

function readi_loop :: "nat \<Rightarrow> nat \<Rightarrow> bool \<Rightarrow> u64 \<Rightarrow> nat \<Rightarrow> nat \<Rightarrow> 'a fs_state_scheme
    \<Rightarrow> (int \<times> u8 list, 'a fs_state_scheme) outcome" where
  "readi_loop left ip user_dst dst tot off s =
     (if left = 0 then Ok (ret_uint tot, []) s
      else obind (bmap ip (off div BSIZE) s) (\<lambda>addr s.
        if addr = 0 then Ok (ret_uint tot, []) s
        else obind (bread (idev (inodes s ip)) addr s) (\<lambda>bp s.
          let m = min left (BSIZE - off mod BSIZE) in
          obind (either_copyout user_dst dst (read_bytes (get_data bp s) (off mod BSIZE) m) s) (\<lambda>(r, bs) s.
            if r = -1 then obind (brelse bp s) (\<lambda>_ s. Ok (-1, bs) s)
            else obind (brelse bp s) (\<lambda>_ s.
              obind (readi_loop (left - m) ip user_dst (dst + word_of_nat m) (tot + m) (off + m) s) (\<lambda>(r, bs') s.
              Ok (r, bs @ bs') s))))))"
  by pat_completeness auto
termination
  by (relation "measure (\<lambda>(left, ip, u, dst, tot, off, s). left)") auto

definition readi :: "nat \<Rightarrow> bool \<Rightarrow> u64 \<Rightarrow> u32 \<Rightarrow> u32 \<Rightarrow> 'a fs_state_scheme
    \<Rightarrow> (int \<times> u8 list, 'a fs_state_scheme) outcome" where
  "readi ip user_dst dst off n s =
     (let sz = isize (inodes s ip) in
      if off > sz \<or> off + n < off then Ok (0, []) s
      else let n = (if off + n > sz then sz - off else n) in
        readi_loop (unat n) ip user_dst dst 0 (unat off) s)"

text \<open>The loop of \<open>writei\<close> returns \<open>tot\<close> and \<open>off\<close>.  A copy that fails may have stored some bytes.\<close>

function writei_loop :: "nat \<Rightarrow> nat \<Rightarrow> bool \<Rightarrow> u64 \<Rightarrow> u8 list \<Rightarrow> nat \<Rightarrow> nat \<Rightarrow> 'a fs_state_scheme
    \<Rightarrow> (nat \<times> nat, 'a fs_state_scheme) outcome" where
  "writei_loop left ip user_src src kbuf tot off s =
     (if left = 0 then Ok (tot, off) s
      else obind (bmap ip (off div BSIZE) s) (\<lambda>addr s.
        if addr = 0 then Ok (tot, off) s
        else obind (bread (idev (inodes s ip)) addr s) (\<lambda>bp s.
          let m = min left (BSIZE - off mod BSIZE) in
          obind (either_copyin user_src src kbuf m s) (\<lambda>(r, bs) s.
            let s = set_data bp (write_bytes (get_data bp s) (off mod BSIZE) bs) s in
            if r = -1 then obind (brelse bp s) (\<lambda>_ s. Ok (tot, off) s)
            else obind (log_write bp s) (\<lambda>_ s.
              obind (brelse bp s) (\<lambda>_ s.
              writei_loop (left - m) ip user_src (src + word_of_nat m) (drop m kbuf) (tot + m) (off + m) s))))))"
  by pat_completeness auto
termination
  by (relation "measure (\<lambda>(left, ip, u, src, k, tot, off, s). left)") auto

definition writei :: "nat \<Rightarrow> bool \<Rightarrow> u64 \<Rightarrow> u8 list \<Rightarrow> u32 \<Rightarrow> u32 \<Rightarrow> 'a fs_state_scheme
    \<Rightarrow> (int, 'a fs_state_scheme) outcome" where
  "writei ip user_src src kbuf off n s =
     (if off > isize (inodes s ip) \<or> off + n < off then Ok (-1) s
      else if unat (off + n) > MAXFILE * BSIZE then Ok (-1) s
      else obind (writei_loop (unat n) ip user_src src kbuf 0 (unat off) s) (\<lambda>(tot, off) s.
        let s = (if off > unat (isize (inodes s ip))
                 then upd_inode ip (\<lambda>q. q\<lparr>isize := word_of_nat off\<rparr>) s else s) in
        obind (iupdate ip s) (\<lambda>_ s. Ok (ret_uint tot) s)))"

section \<open>Directories\<close>

text \<open>Two kernel strings in one memory, the first at address 0, the second at 4096.\<close>

definition two_objects :: "u8 list \<Rightarrow> u8 list \<Rightarrow> bytes" where
  "two_objects x y = write_bytes (write_bytes (\<lambda>_. 0) 0 (take 4096 x)) 4096 y"

definition namecmp :: "u8 list \<Rightarrow> u8 list \<Rightarrow> int" where
  "namecmp x y = strncmp (two_objects x y) 0 4096 DIRSIZ"

record dirent =
  de_inum :: u16
  de_name :: "u8 list"

definition DIRENT_SIZE :: nat where [simp]: "DIRENT_SIZE = 16"

definition get_dirent :: "u8 list \<Rightarrow> dirent" where
  "get_dirent bs = \<lparr>de_inum = le_word (take 2 bs), de_name = take DIRSIZ (drop 2 bs)\<rparr>"

definition put_dirent :: "dirent \<Rightarrow> u8 list" where
  "put_dirent de = le_bytes 2 (de_inum de) @ de_name de"

text \<open>
  The loop runs at most once per entry of the directory; \<open>k\<close> counts the entries still to come.
  The result is the inode found and the offset of its entry.
\<close>

fun dirlookup_loop :: "nat \<Rightarrow> nat \<Rightarrow> u8 list \<Rightarrow> u32 \<Rightarrow> 'a fs_state_scheme
    \<Rightarrow> ((nat \<times> u32) option, 'a fs_state_scheme) outcome" where
  "dirlookup_loop 0 dp name off s = Ok None s"
| "dirlookup_loop (Suc k) dp name off s =
     (if off < isize (inodes s dp) then
        obind (readi dp False 0 off 16 s) (\<lambda>(r, bs) s.
          if r \<noteq> 16 then Panic ''dirlookup read''
          else let de = get_dirent bs in
            if de_inum de = 0 then dirlookup_loop k dp name (off + 16) s
            else if namecmp name (de_name de) = 0 then
              obind (iget (idev (inodes s dp)) (ucast (de_inum de)) s) (\<lambda>ip s. Ok (Some (ip, off)) s)
            else dirlookup_loop k dp name (off + 16) s)
      else Ok None s)"

definition dir_entries :: "nat \<Rightarrow> 'a fs_state_scheme \<Rightarrow> nat" where
  "dir_entries dp s = (unat (isize (inodes s dp)) + 15) div 16"

definition dirlookup :: "nat \<Rightarrow> u8 list \<Rightarrow> 'a fs_state_scheme \<Rightarrow> ((nat \<times> u32) option, 'a fs_state_scheme) outcome" where
  "dirlookup dp name s =
     (if itype (inodes s dp) \<noteq> T_DIR then Panic ''dirlookup not DIR''
      else dirlookup_loop (dir_entries dp s) dp name 0 s)"

fun dirlink_loop :: "nat \<Rightarrow> nat \<Rightarrow> u32 \<Rightarrow> 'a fs_state_scheme \<Rightarrow> (u32, 'a fs_state_scheme) outcome" where
  "dirlink_loop 0 dp off s = Ok off s"
| "dirlink_loop (Suc k) dp off s =
     (if off < isize (inodes s dp) then
        obind (readi dp False 0 off 16 s) (\<lambda>(r, bs) s.
          if r \<noteq> 16 then Panic ''dirlink read''
          else if de_inum (get_dirent bs) = 0 then Ok off s
          else dirlink_loop k dp (off + 16) s)
      else Ok off s)"

definition copy_name :: "u8 list \<Rightarrow> u8 list" where
  "copy_name name = read_bytes (strncpy (two_objects [] name) 0 4096 (int DIRSIZ)) 0 DIRSIZ"

definition dirlink :: "nat \<Rightarrow> u8 list \<Rightarrow> u32 \<Rightarrow> 'a fs_state_scheme \<Rightarrow> (int, 'a fs_state_scheme) outcome" where
  "dirlink dp name i s =
     obind (dirlookup dp name s) (\<lambda>r s.
       case r of
         Some (ip, _) \<Rightarrow> obind (iput ip s) (\<lambda>_ s. Ok (-1) s)
       | None \<Rightarrow>
           obind (dirlink_loop (dir_entries dp s) dp 0 s) (\<lambda>off s.
           obind (writei dp False 0 (put_dirent \<lparr>de_inum = ucast i, de_name = copy_name name\<rparr>) off 16 s) (\<lambda>r s.
             if r \<noteq> 16 then Ok (-1) s else Ok 0 s)))"

section \<open>Paths\<close>

definition SLASH :: u8 where [simp]: "SLASH = 47"

definition skipelem :: "u8 list \<Rightarrow> (u8 list \<times> u8 list) option" where
  "skipelem path =
     (let path = dropWhile (\<lambda>c. c = SLASH) path in
      if path = [] then None
      else let elem = takeWhile (\<lambda>c. c \<noteq> SLASH) path;
               path = dropWhile (\<lambda>c. c \<noteq> SLASH) path;
               name = (if length elem \<ge> DIRSIZ then take DIRSIZ elem else elem) in
        Some (dropWhile (\<lambda>c. c = SLASH) path, name))"

lemma skipelem_shorter: "skipelem path = Some (rest, name) \<Longrightarrow> length rest < length path"
proof -
  assume a: "skipelem path = Some (rest, name)"
  let ?p = "dropWhile (\<lambda>c. c = SLASH) path"
  have p: "?p \<noteq> []" using a by (auto simp: skipelem_def Let_def split: if_splits)
  from hd_dropWhile [OF this] have "hd ?p \<noteq> SLASH" by simp
  with p have "length (dropWhile (\<lambda>c. c \<noteq> SLASH) ?p) < length ?p"
    by (cases ?p) (auto intro: le_imp_less_Suc length_dropWhile_le)
  moreover have "length rest \<le> length (dropWhile (\<lambda>c. c \<noteq> SLASH) ?p)"
    using a p length_dropWhile_le by (simp add: skipelem_def Let_def del: SLASH_def dropWhile_eq_Nil_conv) blast
  ultimately show ?thesis
    using length_dropWhile_le [of "\<lambda>c. c = SLASH" path] by linarith
qed

text \<open>The loop of \<open>namex\<close>: the inode reached, and the last name copied.\<close>

function namex_loop :: "u8 list \<Rightarrow> bool \<Rightarrow> nat \<Rightarrow> u8 list \<Rightarrow> 'a fs_state_scheme
    \<Rightarrow> (nat option \<times> u8 list, 'a fs_state_scheme) outcome" where
  "namex_loop path nameiparent ip name s =
     (case skipelem path of
        None \<Rightarrow>
          if nameiparent then obind (iput ip s) (\<lambda>_ s. Ok (None, name) s) else Ok (Some ip, name) s
      | Some (path, name) \<Rightarrow>
          obind (ilock (Some ip) s) (\<lambda>_ s.
            if itype (inodes s ip) \<noteq> T_DIR then obind (iunlockput ip s) (\<lambda>_ s. Ok (None, name) s)
            else if nameiparent \<and> path = [] then obind (iunlock (Some ip) s) (\<lambda>_ s. Ok (Some ip, name) s)
            else obind (dirlookup ip name s) (\<lambda>r s.
              case r of
                None \<Rightarrow> obind (iunlockput ip s) (\<lambda>_ s. Ok (None, name) s)
              | Some (next, _) \<Rightarrow>
                  obind (iunlockput ip s) (\<lambda>_ s. namex_loop path nameiparent next name s))))"
  by pat_completeness auto
termination
  by (relation "measure (\<lambda>(path, np, ip, name, s). length path)") (auto simp: skipelem_shorter)

definition namex :: "u8 list \<Rightarrow> bool \<Rightarrow> 'a fs_state_scheme \<Rightarrow> (nat option \<times> u8 list, 'a fs_state_scheme) outcome" where
  "namex path nameiparent s =
     obind
       (if path \<noteq> [] \<and> hd path = SLASH then iget ROOTDEV ROOTINO s
        else myproc s (\<lambda>p. case cwd (procs s p) of None \<Rightarrow> Undef | Some d \<Rightarrow> idup d s)) (\<lambda>ip s.
     namex_loop path nameiparent ip [] s)"

definition namei :: "u8 list \<Rightarrow> 'a fs_state_scheme \<Rightarrow> (nat option, 'a fs_state_scheme) outcome" where
  "namei path s = obind (namex path False s) (\<lambda>(ip, _) s. Ok ip s)"

definition nameiparent :: "u8 list \<Rightarrow> 'a fs_state_scheme \<Rightarrow> (nat option \<times> u8 list, 'a fs_state_scheme) outcome" where
  "nameiparent path s = namex path True s"

section \<open>The inode of a block\<close>

text \<open>Writing one inode of a block of the inode table and reading it back; the other inodes of the block are unchanged.\<close>

lemma put_addrs_outside:
  "x < p \<or> p + 4 * n \<le> x \<Longrightarrow> put_addrs n a p d x = d x"
  by (induction n) auto

lemma load32_put_addrs: "i < n \<Longrightarrow> load32 (put_addrs n a p d) (p + 4 * i) = a i"
proof (induction n)
  case (Suc n)
  then show ?case
  proof (cases "i = n")
    case False
    with Suc.prems have "i < n" by simp
    with Suc.IH show ?thesis by (simp add: load32_store32_disjoint)
  qed simp
qed simp

lemma load16_put_addrs: "a + 2 \<le> p \<Longrightarrow> load16 (put_addrs n w p d) a = load16 d a"
  and load32_put_addrs_before: "a + 4 \<le> p \<Longrightarrow> load32 (put_addrs n w p d) a = load32 d a"
  by (auto intro!: load16_cong load32_cong put_addrs_outside)

lemma get_put_dinode:
  "get_dinode (put_dinode di k d) k = di\<lparr>di_addrs := (\<lambda>i. if i < NDIRECT + 1 then di_addrs di i else 0)\<rparr>"
  by (cases di)
    (simp add: get_dinode_def put_dinode_def load16_put_addrs load32_put_addrs load32_put_addrs_before
      load16_store32_disjoint load16_store16_disjoint fun_eq_iff del: put_addrs.simps)

lemma put_dinode_outside: "x < 64 * k \<or> 64 * k + 64 \<le> x \<Longrightarrow> put_dinode di k d x = d x"
  by (auto simp: put_dinode_def put_addrs_outside simp del: put_addrs.simps)

lemma get_dinode_cong:
  "(\<And>x. 64 * k \<le> x \<Longrightarrow> x < 64 * k + 64 \<Longrightarrow> d x = d' x) \<Longrightarrow> get_dinode d k = get_dinode d' k"
  by (auto simp: get_dinode_def fun_eq_iff intro!: load16_cong load32_cong)

lemma get_put_dinode_other: "j \<noteq> k \<Longrightarrow> get_dinode (put_dinode di k d) j = get_dinode d j"
  by (rule get_dinode_cong, rule put_dinode_outside) linarith

end
