(* ===== verification/Console.thy ===== *)
theory Console
  imports Fs
begin

text \<open>
  The console (kernel/console.c) and the UART interrupt (\<open>uartintr\<close> of kernel/uart.c): the line
  editor that fills the input buffer, and the reads and writes of user processes.  A call that
  sleeps in the middle returns \<open>Blocked\<close> with what it has done so far, and goes on from there when
  the process is woken.
\<close>

section \<open>Calls that sleep with work done\<close>

datatype 'p call = Done int | Blocked 'p

text \<open>A sleep in the middle of a call that keeps \<open>x\<close> for its return.\<close>

fun suspend :: "'p \<Rightarrow> ('b, 's) outcome \<Rightarrow> ('p call, 's) outcome" where
  "suspend x (Sleep c s) = Ok (Blocked x) s"
| "suspend x (Panic e) = Panic e"
| "suspend x (Gone s) = Gone s"
| "suspend x Spin = Spin"
| "suspend x Undef = Undef"
| "suspend x (Ok a s) = Undef"

section \<open>The console\<close>

definition INPUT_BUF_SIZE :: nat where [simp]: "INPUT_BUF_SIZE = 128"

record cons_state = fs_state +
  cons_buf :: "nat \<Rightarrow> u8"
  cons_r :: u32
  cons_w :: u32
  cons_e :: u32

text \<open>
  \<open>consolewrite\<close> from byte \<open>i\<close> on; \<open>c\<close> is the byte already fetched when the call goes on after a
  sleep in \<open>uartputc\<close>.
\<close>

function consolewrite_from :: "nat \<Rightarrow> nat \<Rightarrow> u8 option \<Rightarrow> bool \<Rightarrow> u64 \<Rightarrow> u8 list \<Rightarrow> 'a cons_state_scheme
    \<Rightarrow> ((nat \<times> u8) call, 'a cons_state_scheme) outcome" where
  "consolewrite_from n i fetched user_src src kbuf s =
     (if i < n then
        obind (case fetched of Some c \<Rightarrow> Ok (0, [c]) s
          | None \<Rightarrow> either_copyin user_src (src + word_of_nat i) (drop i kbuf) 1 s) (\<lambda>(r, bs) s.
          if r = -1 \<or> bs = [] then Ok (Done (int i)) s
          else case uartputc (hd bs) s of
            Ok _ s \<Rightarrow> consolewrite_from n (Suc i) None user_src src kbuf s
          | m \<Rightarrow> suspend (i, hd bs) m)
      else Ok (Done (int i)) s)"
  by pat_completeness auto
termination
  by (relation "measure (\<lambda>(n, i, f, u, src, k, s). n - i)") auto

definition consolewrite :: "bool \<Rightarrow> u64 \<Rightarrow> u8 list \<Rightarrow> int \<Rightarrow> 'a cons_state_scheme
    \<Rightarrow> ((nat \<times> u8) call, 'a cons_state_scheme) outcome" where
  "consolewrite user_src src kbuf n s = consolewrite_from (nat n) 0 None user_src src kbuf s"

definition CTRL_D :: u8 where [simp]: "CTRL_D = 4"
definition NEWLINE :: u8 where [simp]: "NEWLINE = 10"

text \<open>
  The loop of \<open>consoleread\<close> with \<open>cons.lock\<close> held, \<open>n\<close> bytes still wanted of \<open>target\<close>.  What it keeps
  over a sleep is \<open>n\<close>, \<open>dst\<close> and the bytes stored at a kernel destination; the result is the C
  result and those bytes.
\<close>

function consoleread_loop :: "nat \<Rightarrow> nat \<Rightarrow> bool \<Rightarrow> u64 \<Rightarrow> u8 list \<Rightarrow> 'a cons_state_scheme
    \<Rightarrow> ((nat \<times> u64 \<times> u8 list) call \<times> u8 list, 'a cons_state_scheme) outcome" where
  "consoleread_loop n target user_dst dst out s =
     (if n = 0 then obind (lk_release LkCons s) (\<lambda>_ s. Ok (Done (int (target - n)), out) s)
      else if cons_r s = cons_w s then
        myproc s (\<lambda>p. obind (is_killed p s) (\<lambda>k s.
          if k then obind (lk_release LkCons s) (\<lambda>_ s. Ok (Done (-1), out) s)
          else obind (suspend (n, dst, out) (sleep ChCons LkCons s :: (unit, _) outcome)) (\<lambda>r s. Ok (r, out) s)))
      else
        let c = cons_buf s (unat (cons_r s) mod INPUT_BUF_SIZE); s = s\<lparr>cons_r := cons_r s + 1\<rparr> in
        if c = CTRL_D then
          obind (lk_release LkCons (if n < target then s\<lparr>cons_r := cons_r s - 1\<rparr> else s)) (\<lambda>_ s.
          Ok (Done (int (target - n)), out) s)
        else obind (either_copyout user_dst dst [c] s) (\<lambda>(r, bs) s.
          if r = -1 then obind (lk_release LkCons s) (\<lambda>_ s. Ok (Done (int (target - n)), out) s)
          else if c = NEWLINE then
            obind (lk_release LkCons s) (\<lambda>_ s. Ok (Done (int (target - (n - 1))), out @ bs) s)
          else consoleread_loop (n - 1) target user_dst (dst + 1) (out @ bs) s))"
  by pat_completeness auto
termination
  by (relation "measure (\<lambda>(n, t, u, dst, out, s). n)") auto

definition consoleread :: "bool \<Rightarrow> u64 \<Rightarrow> int \<Rightarrow> 'a cons_state_scheme
    \<Rightarrow> ((nat \<times> u64 \<times> u8 list) call \<times> u8 list, 'a cons_state_scheme) outcome" where
  "consoleread user_dst dst n s =
     obind (lk_acquire LkCons s) (\<lambda>_ s. consoleread_loop (nat n) (nat n) user_dst dst [] s)"

text \<open>The loop of control-U: every turn moves the edit index one back towards the write index.\<close>

function kill_line :: "nat \<Rightarrow> 'a cons_state_scheme \<Rightarrow> (unit, 'a cons_state_scheme) outcome" where
  "kill_line n s =
     (if cons_e s \<noteq> cons_w s \<and> cons_buf s (unat (cons_e s - 1) mod INPUT_BUF_SIZE) \<noteq> NEWLINE then
        case n of 0 \<Rightarrow> Spin
        | Suc m \<Rightarrow> obind (consputc BACKSPACE (s\<lparr>cons_e := cons_e s - 1\<rparr>)) (\<lambda>_ s. kill_line m s)
      else Ok () s)"
  by pat_completeness auto
termination
  by (relation "measure fst") auto

definition consoleintr :: "u8 \<Rightarrow> 'a cons_state_scheme \<Rightarrow> (unit, 'a cons_state_scheme) outcome" where
  "consoleintr c s =
     obind (lk_acquire LkCons s) (\<lambda>_ s.
     obind
       (if c = 16 then procdump s
        else if c = 21 then kill_line (unat (cons_e s - cons_w s)) s
        else if c = 8 \<or> c = 127 then
          (if cons_e s \<noteq> cons_w s then consputc BACKSPACE (s\<lparr>cons_e := cons_e s - 1\<rparr>) else Ok () s)
        else if c \<noteq> 0 \<and> unat (cons_e s - cons_r s) < INPUT_BUF_SIZE then
          (let c = (if c = 13 then NEWLINE else c) in
           obind (consputc (uint c) s) (\<lambda>_ s.
             let s = s\<lparr>cons_buf := (cons_buf s)(unat (cons_e s) mod INPUT_BUF_SIZE := c), cons_e := cons_e s + 1\<rparr> in
             if c = NEWLINE \<or> c = CTRL_D \<or> unat (cons_e s - cons_r s) = INPUT_BUF_SIZE
             then wakeup (Some ChCons) (s\<lparr>cons_w := cons_e s\<rparr>)
             else Ok () s))
        else Ok () s) (\<lambda>_ s.
     lk_release LkCons s))"

fun uartintr_loop :: "nat \<Rightarrow> 'a cons_state_scheme \<Rightarrow> (unit, 'a cons_state_scheme) outcome" where
  "uartintr_loop n s =
     (case uartgetc s of
        (None, s) \<Rightarrow> Ok () s
      | (Some c, s) \<Rightarrow> (case n of 0 \<Rightarrow> Spin | Suc m \<Rightarrow> obind (consoleintr c s) (\<lambda>_ s. uartintr_loop m s)))"

definition uartintr :: "'a cons_state_scheme \<Rightarrow> (unit, 'a cons_state_scheme) outcome" where
  "uartintr s =
     obind (uartintr_loop (length (uart_in s)) s) (\<lambda>_ s.
     obind (lk_acquire LkUart s) (\<lambda>_ s.
     obind (uartstart s) (\<lambda>_ s. lk_release LkUart s)))"

section \<open>Line editing\<close>

interpretation cring: ring INPUT_BUF_SIZE "TYPE(32)"
  by unfold_locales simp_all

declare INPUT_BUF_SIZE_def [simp del] kill_line.simps [simp del]

text \<open>The input that \<open>consoleread\<close> may hand out, and the line that is still being edited.\<close>

definition cons_input :: "'a cons_state_scheme \<Rightarrow> u8 list" where
  "cons_input s = ring_queue INPUT_BUF_SIZE (cons_buf s) (cons_r s) (cons_e s)"

definition cons_ready :: "'a cons_state_scheme \<Rightarrow> u8 list" where
  "cons_ready s = take (unat (cons_w s - cons_r s)) (cons_input s)"

definition cons_edit :: "'a cons_state_scheme \<Rightarrow> u8 list" where
  "cons_edit s = drop (unat (cons_w s - cons_r s)) (cons_input s)"

definition cons_ok :: "'a cons_state_scheme \<Rightarrow> bool" where
  "cons_ok s \<longleftrightarrow> unat (cons_w s - cons_r s) \<le> unat (cons_e s - cons_r s) \<and>
     unat (cons_e s - cons_r s) \<le> INPUT_BUF_SIZE \<and> NEWLINE \<notin> set (cons_edit s)"

text \<open>The line editor the console promises, on the pair of ready input and edited line.\<close>

definition edit_step :: "u8 \<Rightarrow> u8 list \<times> u8 list \<Rightarrow> u8 list \<times> u8 list" where
  "edit_step c = (\<lambda>(ready, edit).
     if c = 21 then (ready, [])
     else if c = 8 \<or> c = 127 then (ready, butlast edit)
     else if c = 0 \<or> c = 16 \<or> length (ready @ edit) \<ge> INPUT_BUF_SIZE then (ready, edit)
     else let c = (if c = 13 then NEWLINE else c); edit = edit @ [c] in
       if c = NEWLINE \<or> c = CTRL_D \<or> length (ready @ edit) = INPUT_BUF_SIZE then (ready @ edit, [])
       else (ready, edit))"

definition cons_abs :: "'a cons_state_scheme \<Rightarrow> u8 list \<times> u8 list" where
  "cons_abs s = (cons_ready s, cons_edit s)"

lemma cons_abs_cong:
  "cons_buf t = cons_buf s \<Longrightarrow> cons_r t = cons_r s \<Longrightarrow> cons_w t = cons_w s \<Longrightarrow> cons_e t = cons_e s \<Longrightarrow>
    cons_abs t = cons_abs s \<and> cons_ok t = cons_ok s"
  by (simp add: cons_abs_def cons_ready_def cons_edit_def cons_ok_def cons_input_def)

text \<open>The device takes \<open>n\<close> more bytes and prints what it is given.\<close>

definition can_echo :: "nat \<Rightarrow> 'a uart_state_scheme \<Rightarrow> bool" where
  "can_echo n s \<longleftrightarrow> n \<le> uart_room s \<and> \<not> panicked s \<and> uart_reg s LCR AND LCR_BAUD_LATCH = 0"

lemma consputc_eq:
  assumes "can_echo 3 s"
  shows "\<exists>out k. k \<le> 3 \<and> consputc c s = Ok () (s\<lparr>uart_out := out, uart_room := uart_room s - k\<rparr>)"
proof -
  have p: "uartputc_sync v t = Ok () (t\<lparr>uart_out := uart_out t @ [v], uart_room := uart_room t - 1\<rparr>)"
    if "can_echo 1 t" for v and t :: "'a uart_state_scheme"
    using that by (simp add: can_echo_def uartputc_sync_def tx_idle WriteReg_def)
  obtain r where r: "uart_room s = 3 + r" using assms le_Suc_ex by (auto simp: can_echo_def)
  show ?thesis
  proof (cases "c = BACKSPACE")
    case True
    have "consputc c s = Ok () (s\<lparr>uart_out := uart_out s @ [8, 32, 8], uart_room := uart_room s - 3\<rparr>)"
      using assms True r by (simp add: consputc_def p can_echo_def)
    then show ?thesis by blast
  next
    case False
    then have "consputc c s = Ok () (s\<lparr>uart_out := uart_out s @ [word_of_int c], uart_room := uart_room s - 1\<rparr>)"
      using assms by (simp add: consputc_def p can_echo_def)
    then show ?thesis by (metis one_le_numeral)
  qed
qed

lemma backspace_edit:
  assumes "cons_e s \<noteq> cons_w s" and "cons_ok s"
  defines "t \<equiv> s\<lparr>cons_e := cons_e s - 1\<rparr>"
  shows "cons_ready t = cons_ready s" "cons_edit t = butlast (cons_edit s)" "cons_ok t"
    "cons_buf s (unat (cons_e s - 1) mod INPUT_BUF_SIZE) \<noteq> NEWLINE"
proof -
  let ?k = "unat (cons_w s - cons_r s)" and ?n = "unat (cons_e s - cons_r s)"
  have k: "?k \<le> ?n" "?n \<le> INPUT_BUF_SIZE" "NEWLINE \<notin> set (cons_edit s)" using assms(2) by (simp_all add: cons_ok_def)
  have "?k \<noteq> ?n"
  proof
    assume "?k = ?n"
    then have "cons_w s - cons_r s = cons_e s - cons_r s" by (simp add: word_unat_eq_iff)
    then show False using assms(1) by simp
  qed
  then have lt: "?k < ?n" using k by simp
  then have ne: "cons_e s \<noteq> cons_r s" by auto
  note un = cring.unput [OF ne, of "cons_buf s"]
  have in_t: "cons_input t = butlast (cons_input s)" by (simp add: cons_input_def t_def un)
  have len: "length (cons_input s) = ?n" by (simp add: cons_input_def)
  have n1: "unat (cons_e s - 1 - cons_r s) = ?n - 1"
    using arg_cong [OF in_t, of length] len by (simp add: cons_input_def t_def)
  show rd: "cons_ready t = cons_ready s"
    using lt len by (simp add: cons_ready_def in_t) (simp add: t_def take_butlast)
  show ed: "cons_edit t = butlast (cons_edit s)"
    by (simp add: cons_edit_def in_t drop_butlast) (simp add: t_def)
  have "cons_edit s \<noteq> []" using lt len by (simp add: cons_edit_def)
  then have "last (cons_edit s) \<in> set (cons_edit s)" by simp
  then have "last (cons_edit s) \<noteq> NEWLINE" using k(3) by metis
  moreover have "last (cons_edit s) = cons_buf s (unat (cons_e s - 1) mod INPUT_BUF_SIZE)"
    using un(2) lt len by (simp add: cons_edit_def last_drop) (simp add: cons_input_def)
  ultimately show "cons_buf s (unat (cons_e s - 1) mod INPUT_BUF_SIZE) \<noteq> NEWLINE" by simp
  have "NEWLINE \<notin> set (cons_edit t)" using k(3) by (auto simp: ed dest: in_set_butlastD)
  then show "cons_ok t"
    using lt k(2) n1 by (simp add: cons_ok_def) (auto simp: t_def)
qed

lemma kill_line_ensures:
  assumes "can_echo (3 * n) s" and "unat (cons_e s - cons_w s) \<le> n" and "cons_ok s"
  shows "ensures (kill_line n s) (\<lambda>_ t. cons_abs t = (cons_ready s, []) \<and> cons_ok t \<and>
    held t = held s)"
  using assms
proof (induction n arbitrary: s)
  case 0
  then have "cons_e s = cons_w s" by (simp add: unat_eq_0)
  then have "kill_line 0 s = Ok () s" by (subst kill_line.simps) simp
  moreover have "cons_edit s = []" using \<open>cons_e s = cons_w s\<close> by (simp add: cons_edit_def cons_input_def)
  ultimately show ?case using 0 by (simp add: cons_abs_def)
next
  case (Suc n)
  show ?case
  proof (cases "cons_e s = cons_w s")
    case True
    then have "kill_line (Suc n) s = Ok () s" by (subst kill_line.simps) simp
    moreover have "cons_edit s = []" using True by (simp add: cons_edit_def cons_input_def)
    ultimately show ?thesis using Suc by (simp add: cons_abs_def)
  next
    case False
    note bs = backspace_edit [OF False Suc.prems(3)]
    let ?s = "s\<lparr>cons_e := cons_e s - 1\<rparr>"
    have "can_echo 3 ?s" using Suc.prems(1) by (simp add: can_echo_def)
    then obtain out k where o: "k \<le> 3" "consputc BACKSPACE ?s = Ok () (?s\<lparr>uart_out := out, uart_room := uart_room ?s - k\<rparr>)"
      using consputc_eq by blast
    let ?t = "?s\<lparr>uart_out := out, uart_room := uart_room ?s - k\<rparr>"
    have t: "cons_abs ?t = cons_abs ?s" "cons_ok ?t = cons_ok ?s" using cons_abs_cong [of ?t ?s] by simp_all
    have "cons_buf s (unat (cons_e s - 1) mod INPUT_BUF_SIZE) \<noteq> NEWLINE" by (rule bs)
    then have eq: "kill_line (Suc n) s = kill_line n ?t"
      using False o(2) by (subst kill_line.simps) simp
    have "ensures (kill_line n ?t) (\<lambda>_ u. cons_abs u = (cons_ready ?t, []) \<and> cons_ok u \<and> held u = held ?t)"
    proof (rule Suc.IH)
      show "can_echo (3 * n) ?t" using Suc.prems(1) o(1) by (auto simp: can_echo_def)
      have "unat (cons_e s - cons_w s - 1) = unat (cons_e s - cons_w s) - 1"
        using False by (simp add: unat_minus_one)
      then show "unat (cons_e ?t - cons_w ?t) \<le> n" using Suc.prems(2) by (simp add: algebra_simps)
      show "cons_ok ?t" using t bs by simp
    qed
    then show ?thesis unfolding eq using t(1) bs by (simp add: cons_abs_def)
  qed
qed

text \<open>Storing a byte at the edit index.\<close>

lemma put_edit:
  assumes "cons_ok s" and "unat (cons_e s - cons_r s) < INPUT_BUF_SIZE" and "c \<noteq> NEWLINE \<or> cons_w t = cons_e t"
    and "cons_buf t = (cons_buf s)(unat (cons_e s) mod INPUT_BUF_SIZE := c)" and "cons_e t = cons_e s + 1"
    and "cons_r t = cons_r s" and "cons_w t = cons_w s \<or> cons_w t = cons_e t"
  shows "cons_abs t = (if cons_w t = cons_e t then (cons_ready s @ cons_edit s @ [c], []) else (cons_ready s, cons_edit s @ [c]))"
    "cons_ok t" "length (cons_ready s @ cons_edit s) = unat (cons_e s - cons_r s)"
    "unat (cons_e t - cons_r t) = Suc (unat (cons_e s - cons_r s))"
proof -
  let ?k = "unat (cons_w s - cons_r s)" and ?n = "unat (cons_e s - cons_r s)"
  have in_t: "cons_input t = cons_input s @ [c]"
    using cring.put [OF assms(2), of "cons_buf s" c] assms(4-6) by (simp add: cons_input_def)
  have len: "length (cons_input s) = ?n" by (simp add: cons_input_def)
  show n1: "unat (cons_e t - cons_r t) = Suc ?n" using cring.counter_Suc [OF assms(2)] assms(5,6) by simp
  have k: "?k \<le> ?n" using assms(1) by (simp add: cons_ok_def)
  show "length (cons_ready s @ cons_edit s) = ?n" by (simp add: cons_ready_def cons_edit_def len)
  have ne: "cons_w s \<noteq> cons_e t" using n1 k assms(6) by (metis Suc_n_not_le_n)
  show abs: "cons_abs t = (if cons_w t = cons_e t then (cons_ready s @ cons_edit s @ [c], []) else (cons_ready s, cons_edit s @ [c]))"
    using assms(7) ne len n1 k
    by (auto simp: cons_abs_def cons_ready_def cons_edit_def in_t assms(6))
  have "NEWLINE \<notin> set (cons_edit t)"
    using abs assms(1,3) by (auto simp: cons_abs_def cons_ok_def split: if_splits)
  then show "cons_ok t"
    using assms(2,7) n1 k by (auto simp: cons_ok_def assms(6))
qed

lemma cons_abs_held [simp]: "cons_abs (s\<lparr>held := H\<rparr>) = cons_abs s" "cons_ok (s\<lparr>held := H\<rparr>) = cons_ok s"
  using cons_abs_cong [of "s\<lparr>held := H\<rparr>" s] by simp_all

lemma release_cons:
  assumes "ensures m (\<lambda>_ t. cons_abs t = X \<and> cons_ok t \<and> held t = insert LkCons H)" and "LkCons \<notin> H"
  shows "ensures (obind m (\<lambda>_ t. lk_release LkCons t)) (\<lambda>_ t. cons_abs t = X \<and> cons_ok t \<and> held t = H)"
  using assms by (auto simp: lk_release_def elim!: ensures_mono)

lemma edit_length: "cons_ok s \<Longrightarrow> unat (cons_e s - cons_w s) \<le> INPUT_BUF_SIZE"
proof -
  assume ok: "cons_ok s"
  have "cons_e s - cons_w s = (cons_e s - cons_r s) - (cons_w s - cons_r s)" by simp
  moreover have "cons_w s - cons_r s \<le> cons_e s - cons_r s" using ok by (simp add: cons_ok_def word_le_nat_alt)
  ultimately have "unat (cons_e s - cons_w s) = unat (cons_e s - cons_r s) - unat (cons_w s - cons_r s)"
    by (simp only: unat_sub)
  then show ?thesis using ok by (auto simp: cons_ok_def)
qed

lemma consoleintr_store:
  assumes ok: "cons_ok s" and np: "no_proc_lock s" and echo: "can_echo 3 s"
    and room: "unat (cons_e s - cons_r s) < INPUT_BUF_SIZE"
  shows "ensures (obind (consputc (uint c) s) (\<lambda>_ s.
      let s = s\<lparr>cons_buf := (cons_buf s)(unat (cons_e s) mod INPUT_BUF_SIZE := c), cons_e := cons_e s + 1\<rparr> in
      if c = NEWLINE \<or> c = CTRL_D \<or> unat (cons_e s - cons_r s) = INPUT_BUF_SIZE
      then wakeup (Some ChCons) (s\<lparr>cons_w := cons_e s\<rparr>) else Ok () s))
    (\<lambda>_ t. cons_abs t = (let edit = cons_edit s @ [c] in
         if c = NEWLINE \<or> c = CTRL_D \<or> length (cons_ready s @ edit) = INPUT_BUF_SIZE
         then (cons_ready s @ edit, []) else (cons_ready s, edit)) \<and> cons_ok t \<and> held t = held s)"
proof -
  obtain out k where cp: "consputc (uint c) s = Ok () (s\<lparr>uart_out := out, uart_room := uart_room s - k\<rparr>)"
    using consputc_eq [OF echo] by blast
  let ?s = "s\<lparr>uart_out := out, uart_room := uart_room s - k,
    cons_buf := (cons_buf s)(unat (cons_e s) mod INPUT_BUF_SIZE := c), cons_e := cons_e s + 1\<rparr>"
  let ?d = "c = NEWLINE \<or> c = CTRL_D \<or> unat (cons_e ?s - cons_r ?s) = INPUT_BUF_SIZE"
  define t where "t = (if ?d then ?s\<lparr>cons_w := cons_e ?s, procs := woken (Some ChCons) (cur s) (procs s)\<rparr> else ?s)"
  have eq: "obind (consputc (uint c) s) (\<lambda>_ s.
      let s = s\<lparr>cons_buf := (cons_buf s)(unat (cons_e s) mod INPUT_BUF_SIZE := c), cons_e := cons_e s + 1\<rparr> in
      if c = NEWLINE \<or> c = CTRL_D \<or> unat (cons_e s - cons_r s) = INPUT_BUF_SIZE
      then wakeup (Some ChCons) (s\<lparr>cons_w := cons_e s\<rparr>) else Ok () s) = Ok () t"
    using np by (simp add: cp t_def Let_def wakeup_eq no_proc_lock_def)
  have ne: "cons_w s \<noteq> cons_e s + 1"
  proof
    assume "cons_w s = cons_e s + 1"
    then show False using cring.counter_Suc [OF room] ok by (simp add: cons_ok_def)
  qed
  have ft: "cons_buf t = (cons_buf s)(unat (cons_e s) mod INPUT_BUF_SIZE := c)" "cons_e t = cons_e s + 1"
    "cons_r t = cons_r s" "cons_w t = (if ?d then cons_e t else cons_w s)" "held t = held s"
    by (simp_all add: t_def)
  have nl: "c \<noteq> NEWLINE \<or> cons_w t = cons_e t" using ft(4) by auto
  have wt: "cons_w t = cons_w s \<or> cons_w t = cons_e t" using ft(4) by auto
  note pe = put_edit [OF ok room nl ft(1,2,3) wt]
  have d: "?d \<longleftrightarrow> cons_w t = cons_e t" using ft(2,4) ne by auto
  have "?d \<longleftrightarrow> c = NEWLINE \<or> c = CTRL_D \<or> length (cons_ready s @ cons_edit s @ [c]) = INPUT_BUF_SIZE"
    using pe(3,4) ft by simp
  then show ?thesis
    unfolding eq using pe(1,2) ft(5) d by (simp add: Let_def)
qed

text \<open>The zeroed kernel data up to the console, and the same with a device that takes output.\<close>

definition zero_inode :: inode where
  "zero_inode = \<lparr>idev = 0, inum = 0, iref = 0, ivalid = False, itype = 0, major = 0, minor = 0, nlink = 0, isize = 0,
     addrs = (\<lambda>_. 0)\<rparr>"

definition cons_zero :: cons_state where
  "cons_zero = fs_state.extend (pr_state.extend (uart_state.extend uart_zero (pr_state.fields True))
       (fs_state.fields sb_example (\<lambda>_. zero_inode)))
     (cons_state.fields (\<lambda>_. 0) 0 0 0)"

lemmas cons_zero_defs = cons_zero_def uart_zero_def log_zero_def bio_zero_def log_state.defs uart_state.defs pr_state.defs
  fs_state.defs cons_state.defs

definition cons_example :: cons_state where
  "cons_example = cons_zero\<lparr>uart_room := 384, cons_buf := (\<lambda>_. 98), cons_w := 1, cons_e := 2\<rparr>"

lemma cons_example_abs: "cons_abs cons_example = ([98], [98])" "held cons_example = {}" "can_echo 384 cons_example"
  by (simp_all add: cons_abs_def cons_ready_def cons_edit_def cons_input_def ring_queue_def cons_example_def can_echo_def
      cons_zero_defs upt_rec)

lemma cons_example_ok: "cons_ok cons_example"
  using cons_example_abs(1) by (simp add: cons_ok_def cons_abs_def INPUT_BUF_SIZE_def) (simp add: cons_example_def cons_zero_defs)

text \<open>
  C12: \<open>consoleintr\<close> implements a line editor: with room at the device for the echo it returns, and it takes
  the pair of ready input and edited line to the pair the editor prescribes: control-U drops the
  edited line, backspace and delete its last byte, carriage return counts as newline, and a newline,
  a control-D or a full buffer hands the edited line to \<open>consoleread\<close>.  Input beyond 128 bytes
  is dropped, and the invariant of the three indices is kept.
\<close>

theorem consoleintr_edits:
  assumes "cons_ok s" and "no_proc_lock s" and "LkCons \<notin> held s" and "can_echo 384 s" and "c \<noteq> 16"
  shows "ensures (consoleintr c s) (\<lambda>_ t. cons_abs t = edit_step c (cons_abs s) \<and> cons_ok t \<and> held t = held s)"
proof -
  let ?s = "s\<lparr>held := insert LkCons (held s)\<rparr>"
  have ok: "cons_ok ?s" and np: "no_proc_lock ?s" and echo: "can_echo 3 ?s"
    using assms by (simp_all add: no_proc_lock_def can_echo_def)
  have ab: "cons_ready ?s = cons_ready s" "cons_edit ?s = cons_edit s"
    using cons_abs_held(1) [of "insert LkCons (held s)" s] by (simp_all add: cons_abs_def)
  have len: "length (cons_ready s @ cons_edit s) = unat (cons_e s - cons_r s)"
    by (simp add: cons_ready_def cons_edit_def cons_input_def)
  consider (kill) "c = 21" | (del) "c = 8 \<or> c = 127" | (full) "c = 0 \<or> \<not> unat (cons_e s - cons_r s) < INPUT_BUF_SIZE"
      "c \<noteq> 21" "c \<noteq> 8" "c \<noteq> 127"
    | (store) "c \<noteq> 0" "unat (cons_e s - cons_r s) < INPUT_BUF_SIZE" "c \<noteq> 21" "c \<noteq> 8" "c \<noteq> 127"
    by blast
  then show ?thesis
  proof cases
    case kill
    have "can_echo (3 * unat (cons_e s - cons_w s)) ?s"
      using assms(4) edit_length [OF assms(1)] by (simp add: can_echo_def INPUT_BUF_SIZE_def)
    then have "ensures (kill_line (unat (cons_e s - cons_w s)) ?s) (\<lambda>_ t. cons_abs t = edit_step c (cons_abs s) \<and>
        cons_ok t \<and> held t = insert LkCons (held s))"
      using kill_line_ensures [OF _ _ ok] ab kill by (simp add: edit_step_def cons_abs_def)
    from release_cons [OF this assms(3)] show ?thesis
      using assms(3) kill by (simp add: consoleintr_def)
  next
    case del
    then have e: "edit_step c (cons_abs s) = (cons_ready s, butlast (cons_edit s))"
      by (auto simp: edit_step_def cons_abs_def)
    show ?thesis
    proof (cases "cons_e s = cons_w s")
      case True
      then have "cons_edit s = []" by (simp add: cons_edit_def cons_input_def)
      then show ?thesis
        using True del assms e by (auto simp: consoleintr_def cons_abs_def)
    next
      case False
      note b = backspace_edit [of ?s]
      let ?b = "?s\<lparr>cons_e := cons_e s - 1\<rparr>"
      have "can_echo 3 ?b" using echo by (simp add: can_echo_def)
      then obtain out k where "consputc BACKSPACE ?b = Ok () (?b\<lparr>uart_out := out, uart_room := uart_room ?b - k\<rparr>)"
        using consputc_eq by blast
      moreover have "cons_abs (?b\<lparr>uart_out := out, uart_room := uart_room ?b - k\<rparr>) = cons_abs ?b \<and>
          cons_ok (?b\<lparr>uart_out := out, uart_room := uart_room ?b - k\<rparr>) = cons_ok ?b"
        by (rule cons_abs_cong) simp_all
      ultimately have "ensures (consputc BACKSPACE ?b) (\<lambda>_ t. cons_abs t = edit_step c (cons_abs s) \<and>
          cons_ok t \<and> held t = insert LkCons (held s))"
        using b ok False e ab by (simp add: cons_abs_def)
      from release_cons [OF this assms(3)] show ?thesis
        using assms(3) del False by (auto simp: consoleintr_def)
    qed
  next
    case full
    then have "edit_step c (cons_abs s) = cons_abs s"
      using len by (auto simp: edit_step_def cons_abs_def)
    then show ?thesis using full assms by (auto simp: consoleintr_def)
  next
    case store
    let ?c = "if c = 13 then NEWLINE else c"
    have "edit_step c (cons_abs s) = (let edit = cons_edit s @ [?c] in
        if ?c = NEWLINE \<or> ?c = CTRL_D \<or> length (cons_ready s @ edit) = INPUT_BUF_SIZE
        then (cons_ready s @ edit, []) else (cons_ready s, edit))"
      using store assms(5) len by (simp add: edit_step_def cons_abs_def Let_def)
    moreover have room: "unat (cons_e ?s - cons_r ?s) < INPUT_BUF_SIZE" and hd: "held ?s = insert LkCons (held s)"
      using store by simp_all
    ultimately show ?thesis
      using release_cons [OF consoleintr_store [OF ok np echo room, of ?c, unfolded ab hd] assms(3)] store assms(3,5)
      by (simp add: consoleintr_def Let_def)
  qed
qed

theorem consoleintr_edits_witness:
  "ensures (consoleintr 13 cons_example) (\<lambda>_ t. cons_abs t = ([98, 98, 10], []))"
  using consoleintr_edits [OF cons_example_ok, of 13] cons_example_abs
  by (auto simp: no_proc_lock_def edit_step_def INPUT_BUF_SIZE_def elim!: ensures_mono)

end
