(* ===== verification/Pipe.thy ===== *)
theory Pipe
  imports Console Ring
begin

text \<open>
  Pipes (kernel/pipe.c; \<open>pipealloc\<close>, which allocates the file structures, is in the theory \<open>File\<close>).
  A \<open>struct pipe\<close> fills a page from \<open>kalloc\<close>; the state maps the address of the page to the pipe.
  \<open>piperead\<close> sleeps before it has read anything and starts over when woken; \<open>pipewrite\<close> sleeps with
  \<open>i\<close> bytes written and goes on from there.
\<close>

definition PIPESIZE :: nat where [simp]: "PIPESIZE = 512"

record pipe =
  pdata :: "nat \<Rightarrow> u8"
  nread :: u32
  nwrite :: u32
  readopen :: bool
  writeopen :: bool

record pipe_state = cons_state +
  pipes :: "u64 \<Rightarrow> pipe"

definition upd_pipe :: "u64 \<Rightarrow> (pipe \<Rightarrow> pipe) \<Rightarrow> 'a pipe_state_scheme \<Rightarrow> 'a pipe_state_scheme" where
  "upd_pipe pi f s = s\<lparr>pipes := (pipes s)(pi := f (pipes s pi))\<rparr>"

definition pipeclose :: "u64 \<Rightarrow> bool \<Rightarrow> 'a pipe_state_scheme \<Rightarrow> (unit, 'a pipe_state_scheme) outcome" where
  "pipeclose pi writable s =
     obind (lk_acquire (LkPipe pi) s) (\<lambda>_ s.
     obind
       (if writable then wakeup (Some (ChPipeRead pi)) (upd_pipe pi (\<lambda>q. q\<lparr>writeopen := False\<rparr>) s)
        else wakeup (Some (ChPipeWrite pi)) (upd_pipe pi (\<lambda>q. q\<lparr>readopen := False\<rparr>) s)) (\<lambda>_ s.
     if \<not> readopen (pipes s pi) \<and> \<not> writeopen (pipes s pi)
     then obind (lk_release (LkPipe pi) s) (\<lambda>_ s. kfree pi s)
     else lk_release (LkPipe pi) s))"

text \<open>The loop of \<open>pipewrite\<close> with \<open>pi->lock\<close> held, \<open>left\<close> = \<open>n - i\<close> bytes to go.\<close>

fun pipewrite_loop :: "nat \<Rightarrow> nat \<Rightarrow> u64 \<Rightarrow> u64 \<Rightarrow> nat \<Rightarrow> 'a pipe_state_scheme
    \<Rightarrow> (nat call, 'a pipe_state_scheme) outcome" where
  "pipewrite_loop 0 i pi addr pr s =
     obind (wakeup (Some (ChPipeRead pi)) s) (\<lambda>_ s.
     obind (lk_release (LkPipe pi) s) (\<lambda>_ s. Ok (Done (int i)) s))"
| "pipewrite_loop (Suc left) i pi addr pr s =
     obind (if \<not> readopen (pipes s pi) then Ok True s else is_killed pr s) (\<lambda>stop s.
       if stop then obind (lk_release (LkPipe pi) s) (\<lambda>_ s. Ok (Done (-1)) s)
       else if nwrite (pipes s pi) = nread (pipes s pi) + word_of_nat PIPESIZE then
         obind (wakeup (Some (ChPipeRead pi)) s) (\<lambda>_ s.
         suspend i (sleep (ChPipeWrite pi) (LkPipe pi) s :: (unit, _) outcome))
       else obind (copyin (pagetable (procs s pr)) (addr + word_of_nat i) 1 s) (\<lambda>(r, bs) s.
         if r = -1 \<or> bs = [] then pipewrite_loop 0 i pi addr pr s
         else pipewrite_loop left (Suc i) pi addr pr
           (upd_pipe pi (\<lambda>q. q\<lparr>pdata := (pdata q)(unat (nwrite q) mod PIPESIZE := hd bs),
              nwrite := nwrite q + 1\<rparr>) s)))"

definition pipewrite_from :: "nat \<Rightarrow> u64 \<Rightarrow> u64 \<Rightarrow> int \<Rightarrow> 'a pipe_state_scheme
    \<Rightarrow> (nat call, 'a pipe_state_scheme) outcome" where
  "pipewrite_from i pi addr n s = myproc s (\<lambda>pr. pipewrite_loop (nat n - i) i pi addr pr s)"

definition pipewrite :: "u64 \<Rightarrow> u64 \<Rightarrow> int \<Rightarrow> 'a pipe_state_scheme \<Rightarrow> (nat call, 'a pipe_state_scheme) outcome" where
  "pipewrite pi addr n s = obind (lk_acquire (LkPipe pi) s) (\<lambda>_ s. pipewrite_from 0 pi addr n s)"

fun piperead_copy :: "nat \<Rightarrow> nat \<Rightarrow> u64 \<Rightarrow> u64 \<Rightarrow> nat \<Rightarrow> 'a pipe_state_scheme
    \<Rightarrow> (nat, 'a pipe_state_scheme) outcome" where
  "piperead_copy 0 i pi addr pr s = Ok i s"
| "piperead_copy (Suc left) i pi addr pr s =
     (let q = pipes s pi in
      if nread q = nwrite q then Ok i s
      else let ch = pdata q (unat (nread q) mod PIPESIZE);
               s = upd_pipe pi (\<lambda>q. q\<lparr>nread := nread q + 1\<rparr>) s in
        obind (copyout (pagetable (procs s pr)) (addr + word_of_nat i) [ch] s) (\<lambda>r s.
          if r = -1 then Ok i s else piperead_copy left (Suc i) pi addr pr s))"

definition piperead :: "u64 \<Rightarrow> u64 \<Rightarrow> int \<Rightarrow> 'a pipe_state_scheme \<Rightarrow> (int, 'a pipe_state_scheme) outcome" where
  "piperead pi addr n s = myproc s (\<lambda>pr.
     obind (lk_acquire (LkPipe pi) s) (\<lambda>_ s.
       if nread (pipes s pi) = nwrite (pipes s pi) \<and> writeopen (pipes s pi) then
         obind (is_killed pr s) (\<lambda>k s.
           if k then obind (lk_release (LkPipe pi) s) (\<lambda>_ s. Ok (-1) s)
           else sleep (ChPipeRead pi) (LkPipe pi) s)
       else obind (piperead_copy (nat n) 0 pi addr pr s) (\<lambda>i s.
         obind (wakeup (Some (ChPipeWrite pi)) s) (\<lambda>_ s.
         obind (lk_release (LkPipe pi) s) (\<lambda>_ s. Ok (int i) s)))))"

section \<open>Pipes as queues of bytes\<close>

interpretation pring: ring PIPESIZE "TYPE(32)"
  by unfold_locales simp_all

definition pqueue :: "pipe \<Rightarrow> u8 list" where
  "pqueue q = ring_queue PIPESIZE (pdata q) (nread q) (nwrite q)"

definition pipe_ok :: "pipe \<Rightarrow> bool" where
  "pipe_ok q \<longleftrightarrow> length (pqueue q) \<le> PIPESIZE"

declare PIPESIZE_def [simp del]

lemma upd_pipe_simps [simp]:
  "held (upd_pipe pi f s) = held s" "cur (upd_pipe pi f s) = cur s" "mem (upd_pipe pi f s) = mem s"
  "procs (upd_pipe pi f s) = procs s"
  "pipes (upd_pipe pi f s) a = (if a = pi then f (pipes s pi) else pipes s a)"
  by (simp_all add: upd_pipe_def)

lemma is_killed_eq:
  "LkProc p \<notin> held s \<Longrightarrow> is_killed p s = Ok (killed (procs s p)) s"
  by (simp add: is_killed_def insert_Diff_if)

text \<open>What \<open>pipewrite\<close> does to the pipe: \<open>xs\<close> is appended to the queue.\<close>

definition sent :: "pipe \<Rightarrow> u8 list \<Rightarrow> pipe \<Rightarrow> bool" where
  "sent q xs q' \<longleftrightarrow> pqueue q' = pqueue q @ xs \<and> pipe_ok q' \<and> nread q' = nread q \<and>
     readopen q' = readopen q \<and> writeopen q' = writeopen q"

lemma sent_put:
  fixes c :: u8
  assumes "pipe_ok q" and "nwrite q \<noteq> nread q + word_of_nat PIPESIZE"
  defines "q' \<equiv> q\<lparr>pdata := (pdata q)(unat (nwrite q) mod PIPESIZE := c), nwrite := nwrite q + 1\<rparr>"
  shows "sent q [c] q'" "length (pqueue q) < PIPESIZE"
proof -
  have r: "unat (nwrite q - nread q) < PIPESIZE"
    using assms(1,2) pring.room_iff [of "nwrite q" "nread q"] by (simp add: pipe_ok_def pqueue_def)
  then show "length (pqueue q) < PIPESIZE" by (simp add: pqueue_def)
  show "sent q [c] q'"
    using pring.put [OF r, of "pdata q" c] pring.counter_Suc [OF r] r
    by (simp add: sent_def q'_def pqueue_def pipe_ok_def)
qed

lemma sent_trans: "sent q xs q1 \<Longrightarrow> sent q1 ys q2 \<Longrightarrow> sent q (xs @ ys) q2"
  by (simp add: sent_def)

text \<open>The process table when the writer \<open>pr\<close> has left the CPU on a full pipe.\<close>

definition write_blocked :: "u64 \<Rightarrow> nat \<Rightarrow> (nat \<Rightarrow> proc) \<Rightarrow> nat \<Rightarrow> proc" where
  "write_blocked pi pr ps = (ps(pr := (ps pr)\<lparr>chan := Some (ChPipeWrite pi), state := SLEEPING\<rparr>))"

definition wrote :: "nat \<Rightarrow> nat \<Rightarrow> u64 \<Rightarrow> nat \<Rightarrow> u8 list \<Rightarrow> 'a pipe_state_scheme \<Rightarrow> nat call \<Rightarrow> 'a pipe_state_scheme \<Rightarrow> bool" where
  "wrote n i pi pr bs s r t \<longleftrightarrow>
     (let room = PIPESIZE - length (pqueue (pipes s pi));
          k = min (length bs) room;
          full = (room < n \<and> room \<le> length bs);
          ps = woken (Some (ChPipeRead pi)) (cur s) (procs s) in
      \<exists>q. sent (pipes s pi) (take k bs) q \<and>
        r = (if full then Blocked (i + k) else Done (int (i + k))) \<and>
        t = s\<lparr>pipes := (pipes s)(pi := q), held := {},
              procs := (if full then write_blocked pi pr ps else ps),
              cur := (if full then None else cur s)\<rparr>)"

lemma wrote_Cons:
  assumes w: "wrote n (Suc i) pi pr bs s1 r t" and sent: "sent (pipes s pi) [c] (pipes s1 pi)"
    and room: "length (pqueue (pipes s pi)) < PIPESIZE" and s1: "s1 = s\<lparr>pipes := (pipes s)(pi := pipes s1 pi)\<rparr>"
  shows "wrote (Suc n) i pi pr (c # bs) s r t"
proof -
  let ?room = "PIPESIZE - length (pqueue (pipes s pi))" and ?room1 = "PIPESIZE - length (pqueue (pipes s1 pi))"
  have r: "?room = Suc ?room1" using room sent by (simp add: sent_def)
  have e: "procs s1 = procs s" "cur s1 = cur s" "(pipes s1)(pi := q) = (pipes s)(pi := q)" for q
    by (subst s1; simp)+
  have up: "s1\<lparr>pipes := P, held := H, procs := R, cur := C\<rparr> = s\<lparr>pipes := P, held := H, procs := R, cur := C\<rparr>" for P H R C
    by (subst s1) simp
  from w obtain q where q: "sent (pipes s1 pi) (take (min (length bs) ?room1) bs) q"
    and "r = (if ?room1 < n \<and> ?room1 \<le> length bs then Blocked (Suc i + min (length bs) ?room1)
       else Done (int (Suc i + min (length bs) ?room1)))"
    and "t = s1\<lparr>pipes := (pipes s1)(pi := q), held := {},
       procs := (if ?room1 < n \<and> ?room1 \<le> length bs
         then write_blocked pi pr (woken (Some (ChPipeRead pi)) (cur s1) (procs s1))
         else woken (Some (ChPipeRead pi)) (cur s1) (procs s1)),
       cur := (if ?room1 < n \<and> ?room1 \<le> length bs then None else cur s1)\<rparr>"
    unfolding wrote_def Let_def by blast
  then show ?thesis
    unfolding wrote_def Let_def r up e using sent_trans [OF sent q] by (intro exI [of _ q]) simp
qed

lemma pipewrite_loop_wrote:
  assumes "held s = {LkPipe pi}" and "cur s = Some pr" and "uvm_ok (mem s) (pagetable (procs s pr))"
    and "pipe_ok (pipes s pi)" and "readopen (pipes s pi)" and "\<not> killed (procs s pr)"
  shows "ensures (pipewrite_loop n i pi addr pr s)
    (wrote n i pi pr (uprefix (mem s) (pagetable (procs s pr)) (addr + word_of_nat i) n) s)"
  using assms
proof (induction n arbitrary: i s)
  case 0
  then show ?case
    by (auto simp: wrote_def Let_def wakeup_eq no_proc_lock_def sent_def fun_upd_idem)
next
  case (Suc n)
  let ?q = "pipes s pi" and ?m = "mem s" and ?pt = "pagetable (procs s pr)" and ?a = "addr + word_of_nat i"
  have nk: "is_killed pr s = Ok False s" using Suc.prems by (simp add: is_killed_eq)
  show ?case
  proof (cases "nwrite ?q = nread ?q + word_of_nat PIPESIZE")
    case True
    then have l: "length (pqueue ?q) = PIPESIZE"
      using pring.full_iff [of "nwrite ?q" "nread ?q"] by (simp add: pqueue_def)
    show ?thesis
      using True Suc.prems nk l
      by (auto simp: wrote_def Let_def wakeup_eq no_proc_lock_def sleep_eq sent_def write_blocked_def upd_proc_def
          woken_def fun_upd_idem)
  next
    case False
    note put = sent_put [OF Suc.prems(4) False]
    show ?thesis
    proof (cases "ubyte 0 ?m ?pt ?a")
      case None
      show ?thesis
        using Suc.prems nk False None put(2) copyin_uprefix [OF Suc.prems(3), of ?a 1]
        by (auto simp: wrote_def Let_def wakeup_eq no_proc_lock_def sent_def fun_upd_idem)
    next
      case (Some c)
      define s1 where "s1 = upd_pipe pi (\<lambda>q. q\<lparr>pdata := (pdata q)(unat (nwrite q) mod PIPESIZE := c), nwrite := nwrite q + 1\<rparr>) s"
      define bs where "bs = uprefix ?m ?pt (addr + word_of_nat (Suc i)) n"
      have u: "uprefix ?m ?pt ?a (Suc n) = c # bs" "uprefix ?m ?pt ?a 1 = [c]"
        using Some by (simp_all add: bs_def ac_simps)
      have sent: "sent ?q [c] (pipes s1 pi)" using put(1) [of c] by (simp add: s1_def)
      have "ensures (pipewrite_loop n (Suc i) pi addr pr s1) (wrote n (Suc i) pi pr bs s1)"
        using Suc.IH [of s1 "Suc i"] Suc.prems sent by (simp add: bs_def s1_def sent_def)
      moreover have "pipewrite_loop (Suc n) i pi addr pr s = pipewrite_loop n (Suc i) pi addr pr s1"
        using Suc.prems nk False copyin_uprefix [OF Suc.prems(3), of ?a 1] u(2) by (simp add: s1_def)
      moreover have "wrote (Suc n) i pi pr (c # bs) s r t" if w: "wrote n (Suc i) pi pr bs s1 r t" for r t
        by (rule wrote_Cons [OF w sent put(2)]) (simp_all add: s1_def upd_pipe_def)
      ultimately show ?thesis unfolding u(1) by (simp add: ensures_mono)
    qed
  qed
qed

text \<open>What \<open>piperead\<close> does to the pipe: the first \<open>n\<close> bytes of the queue are gone.\<close>

definition taken :: "pipe \<Rightarrow> nat \<Rightarrow> pipe \<Rightarrow> bool" where
  "taken q n q' \<longleftrightarrow> pqueue q' = drop n (pqueue q) \<and> nwrite q' = nwrite q \<and>
     readopen q' = readopen q \<and> writeopen q' = writeopen q"

lemma taken_get:
  assumes "nread q \<noteq> nwrite q"
  shows "pqueue q = pdata q (unat (nread q) mod PIPESIZE) # pqueue (q\<lparr>nread := nread q + 1\<rparr>)"
    "taken q 1 (q\<lparr>nread := nread q + 1\<rparr>)"
  using pring.get [of "nwrite q" "nread q" "pdata q"] assms by (auto simp: pqueue_def taken_def)

lemma taken_trans: "taken q a q1 \<Longrightarrow> taken q1 b q2 \<Longrightarrow> taken q (a + b) q2"
  by (simp add: taken_def add.commute)

lemma taken_0 [simp]: "taken q 0 q"
  by (simp add: taken_def)

text \<open>
  \<open>n\<close> bytes wanted at \<open>va\<close>: \<open>r\<close> of them are copied, and \<open>c\<close> bytes leave the queue, one more than \<open>r\<close> when the
  copy stops at an address the user cannot write.
\<close>

definition got :: "nat \<Rightarrow> u64 \<Rightarrow> u64 \<Rightarrow> u64 \<Rightarrow> 'a pipe_state_scheme \<Rightarrow> nat \<Rightarrow> 'a pipe_state_scheme \<Rightarrow> bool" where
  "got n pi pt va s r t \<longleftrightarrow>
     (let Q = pqueue (pipes s pi); w = wlen (mem s) pt va n in
      r = min (length Q) w \<and>
      (\<exists>q m. t = s\<lparr>pipes := (pipes s)(pi := q), mem := m\<rparr> \<and>
         taken (pipes s pi) (if w < n \<and> w < length Q then Suc w else r) q \<and>
         stored (mem s) m pt va (take r Q) r))"

lemma got_Suc:
  assumes g: "got n pi pt (va + 1) s1 r t" and q: "nread (pipes s pi) \<noteq> nwrite (pipes s pi)"
    and s1: "s1 = s\<lparr>pipes := (pipes s)(pi := (pipes s pi)\<lparr>nread := nread (pipes s pi) + 1\<rparr>), mem := m1\<rparr>"
    and m1: "stored (mem s) m1 pt va [hd (pqueue (pipes s pi))] 1" and n: "n < 2 ^ 63"
    and w: "wlen (mem s) pt va (Suc n) = Suc (wlen (mem s) pt (va + 1) n)"
  shows "got (Suc n) pi pt va s (Suc r) t"
proof -
  let ?q = "pipes s pi" and ?q1 = "pipes s1 pi"
  define Q1 where "Q1 = pqueue ?q1"
  define w1 where "w1 = wlen (mem s) pt (va + 1) n"
  have e: "?q1 = ?q\<lparr>nread := nread ?q + 1\<rparr>" "mem s1 = m1" by (simp_all add: s1)
  define ch where "ch = pdata ?q (unat (nread ?q) mod PIPESIZE)"
  have Q: "pqueue ?q = ch # Q1" using taken_get(1) [OF q] e by (simp add: Q1_def ch_def)
  have w1': "wlen m1 pt (va + 1) n = w1" by (simp add: w1_def stored_wlen [OF m1])
  from g obtain q' m where r: "r = min (length Q1) w1"
    and t: "t = s1\<lparr>pipes := (pipes s1)(pi := q'), mem := m\<rparr>"
    and tk: "taken ?q1 (if w1 < n \<and> w1 < length Q1 then Suc w1 else r) q'"
    and st: "stored m1 m pt (va + 1) (take r Q1) r"
    unfolding got_def Let_def Q1_def [symmetric] e(2) w1' by blast
  have "r \<le> n" using wlen_le [of "mem s" pt "va + 1" n] r by (simp add: w1_def)
  moreover have "r \<le> length Q1" by (simp add: r)
  ultimately have "stored (mem s) m pt va (ch # take r Q1) (1 + r)"
    using m1 st Q n by (intro stored_trans) auto
  moreover have "taken ?q (1 + (if w1 < n \<and> w1 < length Q1 then Suc w1 else r)) q'"
    by (rule taken_trans [OF _ tk]) (use taken_get(2) [OF q] e in simp)
  moreover have "t = s\<lparr>pipes := (pipes s)(pi := q'), mem := m\<rparr>" by (simp add: t s1)
  ultimately show ?thesis
    unfolding got_def Let_def Q w w1_def [symmetric] using r by (auto intro!: exI [of _ q'] exI [of _ m])
qed

lemma piperead_copy_got:
  assumes "uvm_ok (mem s) (pagetable (procs s pr))" and "n < 2 ^ 63"
  shows "ensures (piperead_copy n i pi addr pr s) (\<lambda>k t. \<exists>r. k = i + r \<and>
    got n pi (pagetable (procs s pr)) (addr + word_of_nat i) s r t)"
  using assms
proof (induction n arbitrary: i s)
  case 0
  then show ?case by (auto simp: got_def intro!: exI [of _ "pipes s pi"] exI [of _ "mem s"])
next
  case (Suc n)
  let ?q = "pipes s pi" and ?pt = "pagetable (procs s pr)" and ?a = "addr + word_of_nat i"
  show ?case
  proof (cases "nread ?q = nwrite ?q")
    case True
    then have "pqueue ?q = []" by (simp add: pqueue_def ring_queue_def)
    then show ?thesis
      using True Suc.prems
      by (auto simp: got_def intro!: exI [of _ "pipes s pi"] exI [of _ "mem s"])
  next
    case False
    define s1 where "s1 = upd_pipe pi (\<lambda>q. q\<lparr>nread := nread q + 1\<rparr>) s"
    define ch where "ch = pdata ?q (unat (nread ?q) mod PIPESIZE)"
    have s1: "mem s1 = mem s" "procs s1 = procs s" by (simp_all add: s1_def)
    have hd: "hd (pqueue ?q) = ch" "pqueue ?q \<noteq> []" using taken_get(1) [OF False] by (simp_all add: ch_def)
    have co: "ensures (copyout ?pt ?a [ch] s1) (\<lambda>r t.
        r = (if ubyte PTE_W (mem s) ?pt ?a = None then -1 else 0) \<and> t = s1\<lparr>mem := mem t\<rparr> \<and>
        stored (mem s) (mem t) ?pt ?a [ch] (if ubyte PTE_W (mem s) ?pt ?a = None then 0 else 1))"
      using copyout_ensures [of s1 ?pt "[ch]" ?a] Suc.prems by (auto simp: s1 split: option.splits)
    have eq: "piperead_copy (Suc n) i pi addr pr s = obind (copyout ?pt ?a [ch] s1)
        (\<lambda>r s. if r = -1 then Ok i s else piperead_copy n (Suc i) pi addr pr s)"
      using False by (simp add: s1_def ch_def Let_def)
    show ?thesis
      unfolding eq ensures_obind
    proof (rule ensures_mono [OF co], elim conjE)
      fix r :: int and t
      assume r: "r = (if ubyte PTE_W (mem s) ?pt ?a = None then -1 else 0)" and t: "t = s1\<lparr>mem := mem t\<rparr>"
        and st: "stored (mem s) (mem t) ?pt ?a [ch] (if ubyte PTE_W (mem s) ?pt ?a = None then 0 else 1)"
      show "ensures (if r = -1 then Ok i t else piperead_copy n (Suc i) pi addr pr t)
        (\<lambda>k u. \<exists>r. k = i + r \<and> got (Suc n) pi ?pt ?a s r u)"
      proof (cases "ubyte PTE_W (mem s) ?pt ?a")
        case None
        have "got (Suc n) pi ?pt ?a s 0 t"
          using taken_get(2) [OF False] hd(2) None st
          by (subst t) (auto simp: got_def stored_def s1_def upd_pipe_def intro!: exI [of _ "?q\<lparr>nread := nread ?q + 1\<rparr>"] exI [of _ "mem t"])
        then show ?thesis using r None by auto
      next
        case (Some b)
        have ih: "ensures (piperead_copy n (Suc i) pi addr pr t)
            (\<lambda>k u. \<exists>r. k = Suc i + r \<and> got n pi ?pt (?a + 1) t r u)"
        proof -
          have "procs t = procs s" by (subst t) (simp add: s1)
          then show ?thesis
            using Suc.IH [of t "Suc i"] Suc.prems st by (simp add: stored_def ac_simps)
        qed
        have "got (Suc n) pi ?pt ?a s (Suc k) u" if "got n pi ?pt (?a + 1) t k u" for k u
          by (rule got_Suc [OF that False]) (use t st Some hd Suc.prems in \<open>auto simp: s1_def upd_pipe_def\<close>)
        then show ?thesis using r Some ih by (auto elim!: ensures_mono)
      qed
    qed
  qed
qed

text \<open>The zeroed kernel data up to the pipes.\<close>

definition pipe_zero :: pipe_state where
  "pipe_zero = cons_state.extend cons_zero
     (pipe_state.fields (\<lambda>_. \<lparr>pdata = (\<lambda>_. 0), nread = 0, nwrite = 0, readopen = True, writeopen = True\<rparr>))"

lemma pipe_zero_fields [simp]:
  "held pipe_zero = {}" "cur pipe_zero = Some 0" "procs pipe_zero = (\<lambda>_. zero_proc)"
  "pipes pipe_zero = (\<lambda>_. \<lparr>pdata = (\<lambda>_. 0), nread = 0, nwrite = 0, readopen = True, writeopen = True\<rparr>)"
  by (simp_all add: pipe_zero_def cons_zero_defs pipe_state.defs)

text \<open>A process with the page table of \<open>vm_mapped\<close>, and a pipe that holds the bytes 7, 8 and 9 across the wrap-around.\<close>

definition pipe_example :: pipe_state where
  "pipe_example = pipe_zero\<lparr>mem := mem vm_mapped, procs := (\<lambda>_. zero_proc\<lparr>pagetable := 0x87ffd000\<rparr>),
     pipes := (\<lambda>_. \<lparr>pdata = (\<lambda>i. if i = 511 then 7 else if i = 0 then 8 else 9), nread = 0xffffffff, nwrite = 2,
        readopen = True, writeopen = True\<rparr>)\<rparr>"

lemma pipe_example_fields [simp]:
  "held pipe_example = {}" "cur pipe_example = Some 0" "mem pipe_example = mem vm_mapped"
  "procs pipe_example = (\<lambda>_. zero_proc\<lparr>pagetable := 0x87ffd000\<rparr>)"
  "readopen (pipes pipe_example pi)" "nread (pipes pipe_example pi) = 0xffffffff" "nwrite (pipes pipe_example pi) = 2"
  by (simp_all add: pipe_example_def)

lemma pipe_example_queue [simp]: "pqueue (pipes pipe_example pi) = [7, 8, 9]"
  by (simp add: pqueue_def ring_queue_def pipe_example_def PIPESIZE_def numeral_3_eq_3)

lemma wrote_held: "wrote n i pi pr bs (s\<lparr>held := H\<rparr>) = wrote n i pi pr bs s"
  by (simp add: wrote_def fun_eq_iff)

lemma got_held:
  assumes "got n pi pt va (s\<lparr>held := H\<rparr>) r t"
  shows "\<exists>u. t = u\<lparr>held := H\<rparr> \<and> got n pi pt va s r u"
proof -
  let ?Q = "pqueue (pipes s pi)" and ?w = "wlen (mem s) pt va n"
  have e: "mem (s\<lparr>held := H\<rparr>) = mem s" "pipes (s\<lparr>held := H\<rparr>) = pipes s" by simp_all
  obtain q m where h: "r = min (length ?Q) ?w" "t = s\<lparr>held := H, pipes := (pipes s)(pi := q), mem := m\<rparr>"
    "taken (pipes s pi) (if ?w < n \<and> ?w < length ?Q then Suc ?w else r) q" "stored (mem s) m pt va (take r ?Q) r"
    using assms unfolding got_def Let_def e by blast
  then have "got n pi pt va s r (s\<lparr>pipes := (pipes s)(pi := q), mem := m\<rparr>)"
    unfolding got_def Let_def by blast
  moreover have "t = (s\<lparr>pipes := (pipes s)(pi := q), mem := m\<rparr>)\<lparr>held := H\<rparr>" by (simp add: h(2))
  ultimately show ?thesis by blast
qed

text \<open>
  What a \<open>pipewrite\<close> that has sent \<open>i\<close> of its \<open>n\<close> bytes does when it has the lock: -1 with nothing changed when a
  byte is left and the reader is gone or the process killed, and otherwise \<open>wrote\<close>.
\<close>

definition write_result :: "nat \<Rightarrow> nat \<Rightarrow> u64 \<Rightarrow> nat \<Rightarrow> u64 \<Rightarrow> 'a pipe_state_scheme \<Rightarrow> nat call \<Rightarrow> 'a pipe_state_scheme \<Rightarrow> bool" where
  "write_result n i pi pr addr s r t \<longleftrightarrow>
     (if i < n \<and> (\<not> readopen (pipes s pi) \<or> killed (procs s pr)) then r = Done (-1) \<and> t = s\<lparr>held := {}\<rparr>
      else wrote (n - i) i pi pr (uprefix (mem s) (pagetable (procs s pr)) (addr + word_of_nat i) (n - i)) s r t)"

lemma pipewrite_loop_result:
  assumes "held s = {LkPipe pi}" and "cur s = Some pr" and "uvm_ok (mem s) (pagetable (procs s pr))"
    and "pipe_ok (pipes s pi)"
  shows "ensures (pipewrite_loop (n - i) i pi addr pr s) (write_result n i pi pr addr s)"
proof (cases "i < n \<and> (\<not> readopen (pipes s pi) \<or> killed (procs s pr))")
  case True
  then obtain k where k: "n - i = Suc k" by (cases "n - i") auto
  have "pipewrite_loop (Suc k) i pi addr pr s = Ok (Done (-1)) (s\<lparr>held := {}\<rparr>)"
    using True assms(1) by (auto simp: is_killed_eq)
  then show ?thesis using True unfolding k by (simp add: write_result_def)
next
  case False
  let ?bs = "uprefix (mem s) (pagetable (procs s pr)) (addr + word_of_nat i) (n - i)"
  have w: "ensures (pipewrite_loop (n - i) i pi addr pr s) (wrote (n - i) i pi pr ?bs s)"
  proof (cases "i < n")
    case True
    with False show ?thesis by (intro pipewrite_loop_wrote [OF assms]) simp_all
  next
    case f: False
    then have n: "n - i = 0" by simp
    show ?thesis unfolding n using assms
      by (auto simp: wrote_def Let_def wakeup_eq no_proc_lock_def sent_def fun_upd_idem)
  qed
  show ?thesis by (rule ensures_mono [OF w]) (use False in \<open>auto simp: write_result_def\<close>)
qed

lemma write_result_held: "write_result n i pi pr addr (s\<lparr>held := H\<rparr>) = write_result n i pi pr addr s"
  by (intro ext) (auto simp: write_result_def wrote_held)

text \<open>
  C11: \<open>pipewrite\<close> returns -1 and changes nothing when it has a byte to write and the reader has closed the pipe
  or the process is killed.  Otherwise it appends the bytes of user memory to the queue in order: as many
  as are readable and as there is room for.  It returns the number appended, or, when the pipe is
  full before that, wakes the readers and sleeps with the number appended so far; nothing else changes but
  the wake-ups.  The same holds of what a writer does that has slept with \<open>i\<close> bytes written, once it is woken and
  has the lock again.
\<close>

theorem pipewrite_appends:
  assumes "held s = {}" and "cur s = Some pr" and "uvm_ok (mem s) (pagetable (procs s pr))"
    and "pipe_ok (pipes s pi)"
  shows "ensures (pipewrite pi addr n s) (write_result (nat n) 0 pi pr addr s) \<and>
    ensures (pipewrite_from i pi addr n (s\<lparr>held := {LkPipe pi}\<rparr>)) (write_result (nat n) i pi pr addr s)"
  using pipewrite_loop_result [of "s\<lparr>held := {LkPipe pi}\<rparr>" pi pr "nat n" 0 addr]
    pipewrite_loop_result [of "s\<lparr>held := {LkPipe pi}\<rparr>" pi pr "nat n" i addr] assms
  by (simp add: pipewrite_def pipewrite_from_def write_result_held)

definition pipe_closed :: pipe_state where
  "pipe_closed = upd_pipe 0x87fff000 (\<lambda>q. q\<lparr>readopen := False\<rparr>) pipe_example"

theorem pipewrite_appends_witness:
  "ensures (pipewrite 0x87fff000 0x1ffe 3 pipe_example)
     (\<lambda>r t. r = Done 2 \<and> pqueue (pipes t 0x87fff000) = [7, 8, 9, 0, 0]) \<and>
   ensures (pipewrite 0x87fff000 0x1ffe 3 pipe_closed) (\<lambda>r t. r = Done (-1) \<and> t = pipe_closed)"
proof
  have "uprefix (mem pipe_example) 0x87ffd000 0x1ffe 3 = [0, 0]"
    using vm_mapped_uprefix by simp
  then show "ensures (pipewrite 0x87fff000 0x1ffe 3 pipe_example)
     (\<lambda>r t. r = Done 2 \<and> pqueue (pipes t 0x87fff000) = [7, 8, 9, 0, 0])"
    using pipewrite_appends [of pipe_example 0 "0x87fff000" "0x1ffe" 3 0] vm_mapped_uvm_ok
    by (auto simp: write_result_def wrote_def sent_def pipe_ok_def PIPESIZE_def zero_proc_def elim!: ensures_mono)
  have f: "held pipe_closed = {}" "cur pipe_closed = Some 0" "mem pipe_closed = mem vm_mapped"
    "procs pipe_closed = procs pipe_example" "\<not> readopen (pipes pipe_closed 0x87fff000)"
    "pqueue (pipes pipe_closed 0x87fff000) = [7, 8, 9]"
    using pipe_example_queue [of "0x87fff000"] by (simp_all add: pipe_closed_def pqueue_def)
  then have "ensures (pipewrite 0x87fff000 0x1ffe 3 pipe_closed) (write_result 3 0 0x87fff000 0 0x1ffe pipe_closed)"
    using pipewrite_appends [of pipe_closed 0 "0x87fff000" "0x1ffe" 3 0] vm_mapped_uvm_ok
    by (simp add: pipe_ok_def PIPESIZE_def)
  then show "ensures (pipewrite 0x87fff000 0x1ffe 3 pipe_closed) (\<lambda>r t. r = Done (-1) \<and> t = pipe_closed)"
    by (rule ensures_mono) (use f in \<open>simp add: write_result_def\<close>)
qed

lemma piperead_ensures:
  assumes "held s = {}" and "cur s = Some pr" and "uvm_ok (mem s) (pagetable (procs s pr))" and "n < 2 ^ 63"
    and "pqueue (pipes s pi) \<noteq> [] \<or> \<not> writeopen (pipes s pi)"
  shows "ensures (piperead pi addr (int n) s) (\<lambda>r t. \<exists>k u. r = int k \<and>
    got n pi (pagetable (procs s pr)) addr s k u \<and>
    t = u\<lparr>procs := woken (Some (ChPipeWrite pi)) (cur s) (procs s)\<rparr>)"
proof -
  let ?s = "s\<lparr>held := {LkPipe pi}\<rparr>" and ?pt = "pagetable (procs s pr)"
  have c: "\<not> (nread (pipes s pi) = nwrite (pipes s pi) \<and> writeopen (pipes s pi))"
    using assms(5) pring.queue_empty [of "pdata (pipes s pi)" "nread (pipes s pi)" "nwrite (pipes s pi)"]
    by (auto simp: pqueue_def)
  have eq: "piperead pi addr (int n) s = obind (piperead_copy n 0 pi addr pr ?s) (\<lambda>i s.
      obind (wakeup (Some (ChPipeWrite pi)) s) (\<lambda>_ s. obind (lk_release (LkPipe pi) s) (\<lambda>_ s. Ok (int i) s)))"
    using assms(1,2) c by (auto simp: piperead_def)
  have "ensures (piperead_copy n 0 pi addr pr ?s) (\<lambda>k t. \<exists>u. t = u\<lparr>held := {LkPipe pi}\<rparr> \<and> got n pi ?pt addr s k u)"
    using piperead_copy_got [of ?s pr n 0 pi addr] assms by (auto intro: got_held elim!: ensures_mono)
  then show ?thesis
    unfolding eq ensures_obind
  proof (rule ensures_mono, elim exE conjE)
    fix k t u assume t: "t = u\<lparr>held := {LkPipe pi}\<rparr>" and g: "got n pi ?pt addr s k u"
    have u: "cur u = cur s" "procs u = procs s" "held u = {}"
      using g assms(1) by (auto simp: got_def Let_def)
    have "no_proc_lock t" by (simp add: t no_proc_lock_def)
    then show "ensures (wakeup (Some (ChPipeWrite pi)) t) (\<lambda>_ s'. ensures (lk_release (LkPipe pi) s') (\<lambda>_ s'.
        ensures (Ok (int k) s') (\<lambda>r t. \<exists>k u. r = int k \<and> got n pi ?pt addr s k u \<and>
          t = u\<lparr>procs := woken (Some (ChPipeWrite pi)) (cur s) (procs s)\<rparr>)))"
      using g u by (auto simp: wakeup_eq t)
  qed
qed

text \<open>
  C10: \<open>piperead\<close> from a pipe with data, or with no writer left, hands over the oldest bytes of the queue in
  order: as many as are wanted, there and writable, which it stores at the user's address and
  returns the number of.  The rest of the queue stays, but for one byte when the copy stopped at an
  address the user cannot write.
\<close>

theorem piperead_takes:
  assumes "held s = {}" and "cur s = Some pr" and "uvm_ok (mem s) (pagetable (procs s pr))" and "n < 2 ^ 63"
    and "pqueue (pipes s pi) \<noteq> [] \<or> \<not> writeopen (pipes s pi)"
  shows "ensures (piperead pi addr (int n) s) (\<lambda>r t. \<exists>k u. r = int k \<and>
    got n pi (pagetable (procs s pr)) addr s k u \<and>
    t = u\<lparr>procs := woken (Some (ChPipeWrite pi)) (cur s) (procs s)\<rparr>)"
  using piperead_ensures [OF assms] .

theorem piperead_takes_witness:
  "ensures (piperead 0x87fff000 0x1ffe (int 2) pipe_example)
     (\<lambda>r t. r = 2 \<and> pqueue (pipes t 0x87fff000) = [9] \<and> ubyte 0 (mem t) 0x87ffd000 0x1fff = Some 8)"
  using piperead_takes [of pipe_example 0 2 "0x87fff000" "0x1ffe"] vm_mapped_uvm_ok vm_mapped_wlen vm_mapped_ubyte(2)
  by (auto simp: got_def taken_def stored_def Let_def elim!: ensures_mono)

text \<open>
  C31: a byte is lost when the destination of \<open>piperead\<close> is not writable: the call returns 0, as at the end of
  the data, and the oldest byte of the queue is gone.
\<close>

theorem piperead_loses_byte:
  assumes "held s = {}" and "cur s = Some pr" and "uvm_ok (mem s) (pagetable (procs s pr))" and "0 < n" and "n < 2 ^ 63"
    and "pqueue (pipes s pi) = c # Q" and "ubyte PTE_W (mem s) (pagetable (procs s pr)) addr = None"
  shows "ensures (piperead pi addr (int n) s) (\<lambda>r t. r = 0 \<and> pqueue (pipes t pi) = Q)"
proof -
  have "wlen (mem s) (pagetable (procs s pr)) addr n = 0"
    using assms(4,7) by (cases n) simp_all
  then show ?thesis
    using piperead_ensures [OF assms(1-3,5), of pi addr] assms(4,6)
    by (auto simp: got_def taken_def elim!: ensures_mono)
qed

theorem piperead_loses_byte_witness:
  "ensures (piperead 0x87fff000 0x2000 (int 1) pipe_example) (\<lambda>r t. r = 0 \<and> pqueue (pipes t 0x87fff000) = [8, 9])"
  using piperead_loses_byte [of pipe_example 0 1 "0x87fff000" 7 "[8, 9]" "0x2000"] vm_mapped_uvm_ok vm_mapped_ubyte(3)
  by simp

end
