(* ===== verification/File.thy ===== *)
theory File
  imports Pipe
begin

text \<open>
  Open files (kernel/file.c, kernel/file.h), the device switch, \<open>pipealloc\<close> (kernel/pipe.c) and
  \<open>consoleinit\<close> (kernel/console.c).  A \<open>struct file *\<close> is an index of the file table.  A read or write
  that sleeps in the middle returns \<open>Blocked\<close> with the position at which it goes on.
\<close>

section \<open>The file table\<close>

definition NFILE :: nat where [simp]: "NFILE = 100"
definition NDEV :: nat where [simp]: "NDEV = 10"
definition CONSOLE :: nat where [simp]: "CONSOLE = 1"

datatype fdtype = FD_NONE | FD_PIPE | FD_INODE | FD_DEVICE

record file_struct =
  ftype :: fdtype
  fref :: int
  readable :: bool
  writable :: bool
  fpipe :: u64
  fip :: nat
  foff :: u32
  fmajor :: u16

datatype dev_fn = Consoleread | Consolewrite

record file_state = pipe_state +
  files :: "nat \<Rightarrow> file_struct"
  devsw_read :: "nat \<Rightarrow> dev_fn option"
  devsw_write :: "nat \<Rightarrow> dev_fn option"

definition upd_file :: "nat \<Rightarrow> (file_struct \<Rightarrow> file_struct) \<Rightarrow> 'a file_state_scheme \<Rightarrow> 'a file_state_scheme" where
  "upd_file f g s = s\<lparr>files := (files s)(f := g (files s f))\<rparr>"

definition consoleinit :: "'a file_state_scheme \<Rightarrow> 'a file_state_scheme" where
  "consoleinit s =
     (let s = uartinit (lk_init LkCons s) in
      s\<lparr>devsw_read := (devsw_read s)(CONSOLE := Some Consoleread),
        devsw_write := (devsw_write s)(CONSOLE := Some Consolewrite)\<rparr>)"

definition fileinit :: "'a file_state_scheme \<Rightarrow> 'a file_state_scheme" where
  "fileinit s = lk_init LkFtable s"

fun filealloc_scan :: "nat \<Rightarrow> (nat \<Rightarrow> file_struct) \<Rightarrow> nat option" where
  "filealloc_scan 0 t = None"
| "filealloc_scan (Suc n) t =
     (let f = NFILE - Suc n in if fref (t f) = 0 then Some f else filealloc_scan n t)"

definition filealloc :: "'a file_state_scheme \<Rightarrow> (nat option, 'a file_state_scheme) outcome" where
  "filealloc s =
     obind (lk_acquire LkFtable s) (\<lambda>_ s.
       case filealloc_scan NFILE (files s) of
         Some f \<Rightarrow> obind (lk_release LkFtable (upd_file f (\<lambda>q. q\<lparr>fref := 1\<rparr>) s)) (\<lambda>_ s. Ok (Some f) s)
       | None \<Rightarrow> obind (lk_release LkFtable s) (\<lambda>_ s. Ok None s))"

definition filedup :: "nat \<Rightarrow> 'a file_state_scheme \<Rightarrow> (nat, 'a file_state_scheme) outcome" where
  "filedup f s =
     obind (lk_acquire LkFtable s) (\<lambda>_ s.
       if fref (files s f) < 1 then Panic ''filedup''
       else obind (lk_release LkFtable (upd_file f (\<lambda>q. q\<lparr>fref := fref q + 1\<rparr>) s)) (\<lambda>_ s. Ok f s))"

definition fileclose :: "nat \<Rightarrow> 'a file_state_scheme \<Rightarrow> (unit, 'a file_state_scheme) outcome" where
  "fileclose f s =
     obind (lk_acquire LkFtable s) (\<lambda>_ s.
       if fref (files s f) < 1 then Panic ''fileclose''
       else let s = upd_file f (\<lambda>q. q\<lparr>fref := fref q - 1\<rparr>) s in
         if fref (files s f) > 0 then lk_release LkFtable s
         else let ff = files s f in
           obind (lk_release LkFtable (upd_file f (\<lambda>q. q\<lparr>fref := 0, ftype := FD_NONE\<rparr>) s)) (\<lambda>_ s.
             if ftype ff = FD_PIPE then pipeclose (fpipe ff) (writable ff) s
             else if ftype ff = FD_INODE \<or> ftype ff = FD_DEVICE then
               obind (begin_op s) (\<lambda>_ s. obind (iput (fip ff) s) (\<lambda>_ s. end_op s))
             else Ok () s))"

text \<open>The bytes of a \<open>struct stat\<close>; \<open>pad\<close> are the four bytes of padding, which nothing initialises.\<close>

definition stat_bytes :: "u8 list \<Rightarrow> stat \<Rightarrow> u8 list" where
  "stat_bytes pad st = le_bytes 4 (st_dev st) @ le_bytes 4 (st_ino st) @ le_bytes 2 (st_type st) @
     le_bytes 2 (st_nlink st) @ take 4 (pad @ replicate 4 0) @ le_bytes 8 (st_size st)"

definition filestat :: "u8 list \<Rightarrow> nat \<Rightarrow> u64 \<Rightarrow> 'a file_state_scheme \<Rightarrow> (int, 'a file_state_scheme) outcome" where
  "filestat pad f addr s = myproc s (\<lambda>p.
     if ftype (files s f) = FD_INODE \<or> ftype (files s f) = FD_DEVICE then
       obind (ilock (Some (fip (files s f))) s) (\<lambda>_ s.
       let st = stati (fip (files s f)) s in
       obind (iunlock (Some (fip (files s f))) s) (\<lambda>_ s.
       obind (copyout (pagetable (procs s p)) addr (stat_bytes pad st) s) (\<lambda>r s.
         if r < 0 then Ok (-1) s else Ok 0 s)))
     else Ok (-1) s)"

datatype io_wait = WPipeWrite nat | WConsoleRead nat u64 "u8 list" | WConsoleWrite nat u8

fun map_call :: "('p \<Rightarrow> 'q) \<Rightarrow> 'p call \<Rightarrow> 'q call" where
  "map_call g (Done r) = Done r"
| "map_call g (Blocked x) = Blocked (g x)"

definition dev_index :: "u16 \<Rightarrow> nat option" where
  "dev_index m = (if sint m < 0 \<or> sint m \<ge> int NDEV then None else Some (nat (sint m)))"

definition dev_lookup :: "(nat \<Rightarrow> dev_fn option) \<Rightarrow> u16 \<Rightarrow> dev_fn option" where
  "dev_lookup sw m = (case dev_index m of None \<Rightarrow> None | Some i \<Rightarrow> sw i)"

text \<open>A call through a device switch entry of the wrong kind is a call with the wrong arguments.\<close>

definition fileread :: "nat \<Rightarrow> u64 \<Rightarrow> int \<Rightarrow> 'a file_state_scheme \<Rightarrow> (io_wait call, 'a file_state_scheme) outcome" where
  "fileread f addr n s =
     (let q = files s f in
      if \<not> readable q then Ok (Done (-1)) s
      else case ftype q of
        FD_PIPE \<Rightarrow> obind (piperead (fpipe q) addr n s) (\<lambda>r s. Ok (Done r) s)
      | FD_DEVICE \<Rightarrow>
          (case dev_lookup (devsw_read s) (fmajor q) of
             None \<Rightarrow> Ok (Done (-1)) s
           | Some Consoleread \<Rightarrow>
               obind (consoleread True addr n s) (\<lambda>(r, _) s. Ok (map_call (\<lambda>(k, d, out). WConsoleRead k d out) r) s)
           | Some Consolewrite \<Rightarrow> Undef)
      | FD_INODE \<Rightarrow>
          obind (ilock (Some (fip q)) s) (\<lambda>_ s.
          obind (readi (fip q) True addr (foff (files s f)) (word_of_int n) s) (\<lambda>(r, _) s.
            let s = (if r > 0 then upd_file f (\<lambda>q. q\<lparr>foff := foff q + word_of_int r\<rparr>) s else s) in
            obind (iunlock (Some (fip q)) s) (\<lambda>_ s. Ok (Done r) s)))
      | FD_NONE \<Rightarrow> Panic ''fileread'')"

definition MAXWRITE :: nat where [simp]: "MAXWRITE = ((MAXOPBLOCKS - 1 - 1 - 2) div 2) * BSIZE"

function filewrite_loop :: "nat \<Rightarrow> nat \<Rightarrow> nat \<Rightarrow> u64 \<Rightarrow> 'a file_state_scheme \<Rightarrow> (nat, 'a file_state_scheme) outcome" where
  "filewrite_loop n i f addr s =
     (if i < n then
        let n1 = min (n - i) MAXWRITE; ip = fip (files s f) in
        obind (begin_op s) (\<lambda>_ s.
        obind (ilock (Some ip) s) (\<lambda>_ s.
        obind (writei ip True (addr + word_of_nat i) [] (foff (files s f)) (word_of_nat n1) s) (\<lambda>r s.
          let s = (if r > 0 then upd_file f (\<lambda>q. q\<lparr>foff := foff q + word_of_int r\<rparr>) s else s) in
          obind (iunlock (Some ip) s) (\<lambda>_ s.
          obind (end_op s) (\<lambda>_ s.
            if r \<noteq> int n1 then Ok i s else filewrite_loop n (i + n1) f addr s)))))
      else Ok i s)"
  by pat_completeness auto
termination
  by (relation "measure (\<lambda>(n, i, f, addr, s). n - i)") auto

definition filewrite :: "nat \<Rightarrow> u64 \<Rightarrow> int \<Rightarrow> 'a file_state_scheme \<Rightarrow> (io_wait call, 'a file_state_scheme) outcome" where
  "filewrite f addr n s =
     (let q = files s f in
      if \<not> writable q then Ok (Done (-1)) s
      else case ftype q of
        FD_PIPE \<Rightarrow> obind (pipewrite (fpipe q) addr n s) (\<lambda>r s. Ok (map_call WPipeWrite r) s)
      | FD_DEVICE \<Rightarrow>
          (case dev_lookup (devsw_write s) (fmajor q) of
             None \<Rightarrow> Ok (Done (-1)) s
           | Some Consolewrite \<Rightarrow>
               obind (consolewrite True addr [] n s) (\<lambda>r s. Ok (map_call (\<lambda>(i, c). WConsoleWrite i c) r) s)
           | Some Consoleread \<Rightarrow> Undef)
      | FD_INODE \<Rightarrow>
          obind (filewrite_loop (nat n) 0 f addr s) (\<lambda>i s. Ok (Done (if int i = n then n else -1)) s)
      | FD_NONE \<Rightarrow> Panic ''filewrite'')"

section \<open>pipealloc\<close>

definition pipealloc_bad :: "nat option \<Rightarrow> nat option \<Rightarrow> 'a file_state_scheme
    \<Rightarrow> ((nat \<times> nat) option, 'a file_state_scheme) outcome" where
  "pipealloc_bad f0 f1 s =
     obind (case f0 of None \<Rightarrow> Ok () s | Some f \<Rightarrow> fileclose f s) (\<lambda>_ s.
     obind (case f1 of None \<Rightarrow> Ok () s | Some f \<Rightarrow> fileclose f s) (\<lambda>_ s. Ok None s))"

text \<open>The result is \<open>None\<close> for -1, and otherwise the two files stored through the pointers.\<close>

definition pipealloc :: "'a file_state_scheme \<Rightarrow> ((nat \<times> nat) option, 'a file_state_scheme) outcome" where
  "pipealloc s =
     obind (filealloc s) (\<lambda>r0 s.
       case r0 of None \<Rightarrow> pipealloc_bad None None s
       | Some f0 \<Rightarrow> obind (filealloc s) (\<lambda>r1 s.
           case r1 of None \<Rightarrow> pipealloc_bad (Some f0) None s
           | Some f1 \<Rightarrow> obind (kalloc s) (\<lambda>pi s.
               if pi = 0 then pipealloc_bad (Some f0) (Some f1) s
               else
                 let s = upd_pipe pi (\<lambda>q. q\<lparr>readopen := True, writeopen := True, nwrite := 0, nread := 0\<rparr>) s;
                     s = lk_init (LkPipe pi) s;
                     s = upd_file f0 (\<lambda>q. q\<lparr>ftype := FD_PIPE, readable := True, writable := False, fpipe := pi\<rparr>) s;
                     s = upd_file f1 (\<lambda>q. q\<lparr>ftype := FD_PIPE, readable := False, writable := True, fpipe := pi\<rparr>) s in
                 Ok (Some (f0, f1)) s)))"

end
