(* ===== verification/Process.thy ===== *)
theory Process
  imports File
begin

text \<open>
  The part of kernel/proc.c that needs files: \<open>userinit\<close>, \<open>fork\<close> and \<open>exit\<close>, and the trap frame of a
  process (\<open>struct trapframe\<close> of kernel/proc.h), which is a page of physical memory.  \<open>exit\<close> does not
  return: its outcome is \<open>Gone\<close>, with the state in which the scheduler goes on.
\<close>

definition NOFILE :: nat where [simp]: "NOFILE = 16"

section \<open>The trap frame\<close>

datatype tf_reg = TF_kernel_satp | TF_kernel_sp | TF_kernel_trap | TF_epc | TF_kernel_hartid | TF_sp
  | TF_a0 | TF_a1 | TF_a2 | TF_a3 | TF_a4 | TF_a5 | TF_a7

fun tf_off :: "tf_reg \<Rightarrow> nat" where
  "tf_off TF_kernel_satp = 0"
| "tf_off TF_kernel_sp = 8"
| "tf_off TF_kernel_trap = 16"
| "tf_off TF_epc = 24"
| "tf_off TF_kernel_hartid = 32"
| "tf_off TF_sp = 48"
| "tf_off TF_a0 = 112"
| "tf_off TF_a1 = 120"
| "tf_off TF_a2 = 128"
| "tf_off TF_a3 = 136"
| "tf_off TF_a4 = 144"
| "tf_off TF_a5 = 152"
| "tf_off TF_a7 = 168"

definition TF_SIZE :: nat where [simp]: "TF_SIZE = 288"

definition tf_get :: "nat \<Rightarrow> tf_reg \<Rightarrow> 'a proc_state_scheme \<Rightarrow> u64" where
  "tf_get p r s = load64 (mem s) (unat (trapframe (procs s p)) + tf_off r)"

definition tf_set :: "nat \<Rightarrow> tf_reg \<Rightarrow> u64 \<Rightarrow> 'a proc_state_scheme \<Rightarrow> 'a proc_state_scheme" where
  "tf_set p r v s = s\<lparr>mem := store64 (mem s) (unat (trapframe (procs s p)) + tf_off r) v\<rparr>"

definition tf_copy :: "nat \<Rightarrow> nat \<Rightarrow> 'a proc_state_scheme \<Rightarrow> 'a proc_state_scheme" where
  "tf_copy np p s = s\<lparr>mem := write_bytes (mem s) (unat (trapframe (procs s np)))
     (read_bytes (mem s) (unat (trapframe (procs s p))) TF_SIZE)\<rparr>"

text \<open>\<open>safestrcpy\<close> into the \<open>name\<close> of a process, 16 bytes.\<close>

definition pname_copy :: "u8 list \<Rightarrow> u8 list" where
  "pname_copy src = cstr (safestrcpy (two_objects [] src) 0 4096 16) 0 16"

section \<open>userinit, fork and exit\<close>

definition initcode :: "u8 list" where
  "initcode =
    [0x17, 0x05, 0x00, 0x00, 0x13, 0x05, 0x45, 0x02,
     0x97, 0x05, 0x00, 0x00, 0x93, 0x85, 0x35, 0x02,
     0x93, 0x08, 0x70, 0x00, 0x73, 0x00, 0x00, 0x00,
     0x93, 0x08, 0x20, 0x00, 0x73, 0x00, 0x00, 0x00,
     0xef, 0xf0, 0x9f, 0xff, 0x2f, 0x69, 0x6e, 0x69,
     0x74, 0x00, 0x00, 0x24, 0x00, 0x00, 0x00, 0x00,
     0x00, 0x00, 0x00, 0x00]"

definition userinit :: "'a file_state_scheme \<Rightarrow> (unit, 'a file_state_scheme) outcome" where
  "userinit s =
     obind (allocproc s) (\<lambda>r s.
       case r of None \<Rightarrow> Undef
       | Some p \<Rightarrow>
           obind (uvmfirst (pagetable (procs s p)) initcode (s\<lparr>initproc := Some p\<rparr>)) (\<lambda>_ s.
             let s = upd_proc p (\<lambda>q. q\<lparr>sz := PGSIZE\<rparr>) s;
                 s = tf_set p TF_epc 0 s;
                 s = tf_set p TF_sp PGSIZE s;
                 s = upd_proc p (\<lambda>q. q\<lparr>pname := pname_copy (str ''initcode'')\<rparr>) s in
             obind (namei [SLASH] s) (\<lambda>ip s.
             lk_release (LkProc p) (upd_proc p (\<lambda>q. q\<lparr>cwd := ip, state := RUNNABLE\<rparr>) s))))"

fun fork_files :: "nat \<Rightarrow> nat \<Rightarrow> nat \<Rightarrow> 'a file_state_scheme \<Rightarrow> (unit, 'a file_state_scheme) outcome" where
  "fork_files 0 p np s = Ok () s"
| "fork_files (Suc n) p np s =
     (let i = NOFILE - Suc n in
      case ofile (procs s p) i of
        None \<Rightarrow> fork_files n p np s
      | Some f \<Rightarrow> obind (filedup f s) (\<lambda>f s.
          fork_files n p np (upd_proc np (\<lambda>q. q\<lparr>ofile := (ofile q)(i := Some f)\<rparr>) s)))"

definition fork :: "'a file_state_scheme \<Rightarrow> (int, 'a file_state_scheme) outcome" where
  "fork s = myproc s (\<lambda>p.
     obind (allocproc s) (\<lambda>r s.
       case r of None \<Rightarrow> Ok (-1) s
       | Some np \<Rightarrow>
           obind (uvmcopy (pagetable (procs s p)) (pagetable (procs s np)) (sz (procs s p)) s) (\<lambda>c s.
             if c < 0 then
               obind (freeproc np s) (\<lambda>_ s. obind (lk_release (LkProc np) s) (\<lambda>_ s. Ok (-1) s))
             else
               let s = upd_proc np (\<lambda>q. q\<lparr>sz := sz (procs s p)\<rparr>) s;
                   s = tf_copy np p s;
                   s = tf_set np TF_a0 0 s in
               obind (fork_files NOFILE p np s) (\<lambda>_ s.
               case cwd (procs s p) of None \<Rightarrow> Undef
               | Some d \<Rightarrow> obind (idup d s) (\<lambda>d s.
                   let s = upd_proc np (\<lambda>q. q\<lparr>cwd := Some d, pname := pname_copy (pname (procs s p))\<rparr>) s;
                       i = pid (procs s np) in
                   obind (lk_release (LkProc np) s) (\<lambda>_ s.
                   obind (lk_acquire LkWait s) (\<lambda>_ s.
                   obind (lk_release LkWait (upd_proc np (\<lambda>q. q\<lparr>parent := Some p\<rparr>) s)) (\<lambda>_ s.
                   obind (lk_acquire (LkProc np) s) (\<lambda>_ s.
                   obind (lk_release (LkProc np) (upd_proc np (\<lambda>q. q\<lparr>state := RUNNABLE\<rparr>) s)) (\<lambda>_ s.
                   Ok i s))))))))))"

fun exit_files :: "nat \<Rightarrow> nat \<Rightarrow> 'a file_state_scheme \<Rightarrow> (unit, 'a file_state_scheme) outcome" where
  "exit_files 0 p s = Ok () s"
| "exit_files (Suc n) p s =
     (let fd = NOFILE - Suc n in
      case ofile (procs s p) fd of
        None \<Rightarrow> exit_files n p s
      | Some f \<Rightarrow> obind (fileclose f s) (\<lambda>_ s.
          exit_files n p (upd_proc p (\<lambda>q. q\<lparr>ofile := (ofile q)(fd := None)\<rparr>) s)))"

definition exit :: "int \<Rightarrow> 'a file_state_scheme \<Rightarrow> ('b, 'a file_state_scheme) outcome" where
  "exit status s = myproc s (\<lambda>p.
     if Some p = initproc s then Panic ''init exiting''
     else
       obind (exit_files NOFILE p s) (\<lambda>_ s.
       obind (begin_op s) (\<lambda>_ s.
       case cwd (procs s p) of None \<Rightarrow> Undef
       | Some d \<Rightarrow>
           obind (iput d s) (\<lambda>_ s.
           obind (end_op s) (\<lambda>_ s.
           obind (lk_acquire LkWait (upd_proc p (\<lambda>q. q\<lparr>cwd := None\<rparr>) s)) (\<lambda>_ s.
           obind (reparent p s) (\<lambda>_ s.
           obind (wakeup (map_option ChProc (parent (procs s p))) s) (\<lambda>_ s.
           obind (lk_acquire (LkProc p) s) (\<lambda>_ s.
           obind (lk_release LkWait (upd_proc p (\<lambda>q. q\<lparr>xstate := status, state := ZOMBIE\<rparr>) s)) (\<lambda>_ s.
           obind (sched s) (\<lambda>_ s. Gone s)))))))))))"

end
