(* ===== verification/Exec.thy ===== *)
theory Exec
  imports Process
begin

text \<open>
  Program loading (kernel/exec.c, kernel/elf.h).  The ELF headers are read into local variables and
  decoded from their bytes; the argument vector is the list of its strings.
\<close>

definition ELF_MAGIC :: u32 where "ELF_MAGIC = 0x464C457F"
definition ELF_PROG_LOAD :: u32 where "ELF_PROG_LOAD = 1"
definition MAXARG :: nat where [simp]: "MAXARG = 32"
definition USERSTACK :: u64 where [simp]: "USERSTACK = 1"

record elfhdr =
  e_magic :: u32
  e_entry :: u64
  e_phoff :: u64
  e_phnum :: u16

record proghdr =
  ph_type :: u32
  ph_flags :: u32
  ph_off :: u64
  ph_vaddr :: u64
  ph_filesz :: u64
  ph_memsz :: u64

definition bytes_at :: "u8 list \<Rightarrow> nat \<Rightarrow> nat \<Rightarrow> u8 list" where
  "bytes_at bs off n = take n (drop off bs)"

definition get_elfhdr :: "u8 list \<Rightarrow> elfhdr" where
  "get_elfhdr bs = \<lparr>e_magic = le_word (bytes_at bs 0 4), e_entry = le_word (bytes_at bs 24 8),
     e_phoff = le_word (bytes_at bs 32 8), e_phnum = le_word (bytes_at bs 56 2)\<rparr>"

definition get_proghdr :: "u8 list \<Rightarrow> proghdr" where
  "get_proghdr bs = \<lparr>ph_type = le_word (bytes_at bs 0 4), ph_flags = le_word (bytes_at bs 4 4),
     ph_off = le_word (bytes_at bs 8 8), ph_vaddr = le_word (bytes_at bs 16 8),
     ph_filesz = le_word (bytes_at bs 32 8), ph_memsz = le_word (bytes_at bs 40 8)\<rparr>"

definition flags2perm :: "u32 \<Rightarrow> u64" where
  "flags2perm flags =
     (let perm = (if flags AND 1 \<noteq> 0 then PTE_X else 0) in
      if flags AND 2 \<noteq> 0 then perm OR PTE_W else perm)"

text \<open>
  \<open>k\<close> counts the pages of the segment; \<open>offset + i\<close> is computed in \<open>uint\<close>, and so is \<open>i += PGSIZE\<close>: a
  segment whose last page ends at 4 GB starts the loop again.
\<close>

fun loadseg_loop :: "nat \<Rightarrow> u64 \<Rightarrow> u64 \<Rightarrow> nat \<Rightarrow> u32 \<Rightarrow> nat \<Rightarrow> nat \<Rightarrow> 'a fs_state_scheme
    \<Rightarrow> (int, 'a fs_state_scheme) outcome" where
  "loadseg_loop 0 pt va ip offset nsz i s = Ok 0 s"
| "loadseg_loop (Suc k) pt va ip offset nsz i s =
     (if i < nsz then
        obind (walkaddr pt (va + word_of_nat i) s) (\<lambda>pa s.
          if pa = 0 then Panic ''loadseg: address should exist''
          else let n = (if nsz - i < 4096 then nsz - i else 4096) in
            obind (readi ip False pa (offset + word_of_nat i) (word_of_nat n) s) (\<lambda>(r, bs) s.
              let s = s\<lparr>mem := write_bytes (mem s) (unat pa) bs\<rparr> in
              if r \<noteq> int n then Ok (-1) s
              else if 2 ^ 32 \<le> i + 4096 then Spin
              else loadseg_loop k pt va ip offset nsz (i + 4096) s))
      else Ok 0 s)"

definition loadseg :: "u64 \<Rightarrow> u64 \<Rightarrow> nat \<Rightarrow> u32 \<Rightarrow> u32 \<Rightarrow> 'a fs_state_scheme \<Rightarrow> (int, 'a fs_state_scheme) outcome" where
  "loadseg pt va ip offset nsz s = loadseg_loop (Suc (unat nsz div 4096)) pt va ip offset (unat nsz) 0 s"

text \<open>The loop over the program headers: whether all were loaded, and the size reached.\<close>

fun exec_load :: "nat \<Rightarrow> u32 \<Rightarrow> u64 \<Rightarrow> nat \<Rightarrow> u64 \<Rightarrow> 'a fs_state_scheme \<Rightarrow> (bool \<times> u64, 'a fs_state_scheme) outcome" where
  "exec_load 0 off pt ip nsz s = Ok (True, nsz) s"
| "exec_load (Suc k) off pt ip nsz s =
     obind (readi ip False 0 off 56 s) (\<lambda>(r, bs) s.
       let ph = get_proghdr bs in
       if r \<noteq> 56 then Ok (False, nsz) s
       else if ph_type ph \<noteq> ELF_PROG_LOAD then exec_load k (off + 56) pt ip nsz s
       else if ph_memsz ph < ph_filesz ph then Ok (False, nsz) s
       else if ph_vaddr ph + ph_memsz ph < ph_vaddr ph then Ok (False, nsz) s
       else if ph_vaddr ph mod PGSIZE \<noteq> 0 then Ok (False, nsz) s
       else obind (uvmalloc pt nsz (ph_vaddr ph + ph_memsz ph) (flags2perm (ph_flags ph)) s) (\<lambda>nsz1 s.
         if nsz1 = 0 then Ok (False, nsz) s
         else obind (loadseg pt (ph_vaddr ph) ip (ucast (ph_off ph)) (ucast (ph_filesz ph)) s) (\<lambda>r s.
           if r < 0 then Ok (False, nsz1) s else exec_load k (off + 56) pt ip nsz1 s)))"

text \<open>Pushing the argument strings: the stack pointer and the pointers pushed, or \<open>None\<close> for \<open>bad\<close>.\<close>

fun exec_args :: "u8 list list \<Rightarrow> nat \<Rightarrow> u64 \<Rightarrow> u64 \<Rightarrow> u64 \<Rightarrow> u64 list \<Rightarrow> 'a fs_state_scheme
    \<Rightarrow> ((u64 \<times> u64 list) option, 'a fs_state_scheme) outcome" where
  "exec_args [] argc pt stackbase sp ustack s = Ok (Some (sp, ustack)) s"
| "exec_args (a # argv) argc pt stackbase sp ustack s =
     (if MAXARG \<le> argc then Ok None s
      else let sp = sp - word_of_nat (length a + 1); sp = sp - sp mod 16 in
        if sp < stackbase then Ok None s
        else obind (copyout pt sp (a @ [0]) s) (\<lambda>r s.
          if r < 0 then Ok None s
          else exec_args argv (Suc argc) pt stackbase sp (ustack @ [sp]) s))"

fun exec_last :: "u8 list \<Rightarrow> u8 list \<Rightarrow> u8 list" where
  "exec_last lst [] = lst"
| "exec_last lst (c # cs) = exec_last (if c = SLASH then cs else lst) cs"

text \<open>The code at \<open>bad\<close>: a page table and an inode to give back, if there are any.\<close>

definition exec_bad :: "u64 \<Rightarrow> u64 \<Rightarrow> nat option \<Rightarrow> 'a file_state_scheme \<Rightarrow> (int, 'a file_state_scheme) outcome" where
  "exec_bad pt nsz ip s =
     obind (if pt \<noteq> 0 then proc_freepagetable pt nsz s else Ok () s) (\<lambda>_ s.
     obind (case ip of None \<Rightarrow> Ok () s
       | Some i \<Rightarrow> obind (iunlockput i s) (\<lambda>_ s. end_op s)) (\<lambda>_ s. Ok (-1) s))"

definition exec_commit :: "nat \<Rightarrow> u8 list \<Rightarrow> elfhdr \<Rightarrow> u64 \<Rightarrow> u64 \<Rightarrow> u64 \<Rightarrow> u64 \<Rightarrow> nat
    \<Rightarrow> 'a file_state_scheme \<Rightarrow> (int, 'a file_state_scheme) outcome" where
  "exec_commit p path elf pt nsz sp oldsz argc s =
     (let s = tf_set p TF_a1 sp s;
          s = upd_proc p (\<lambda>q. q\<lparr>pname := pname_copy (exec_last path path)\<rparr>) s;
          oldpt = pagetable (procs s p);
          s = upd_proc p (\<lambda>q. q\<lparr>pagetable := pt, sz := nsz\<rparr>) s;
          s = tf_set p TF_epc (e_entry elf) s;
          s = tf_set p TF_sp sp s in
      obind (proc_freepagetable oldpt oldsz s) (\<lambda>_ s. Ok (int argc) s))"

definition exec_stack :: "nat \<Rightarrow> u8 list \<Rightarrow> u8 list list \<Rightarrow> elfhdr \<Rightarrow> u64 \<Rightarrow> u64
    \<Rightarrow> 'a file_state_scheme \<Rightarrow> (int, 'a file_state_scheme) outcome" where
  "exec_stack p path argv elf pt nsz s =
     (let oldsz = sz (procs s p); nsz = PGROUNDUP nsz in
      obind (uvmalloc pt nsz (nsz + (USERSTACK + 1) * PGSIZE) PTE_W s) (\<lambda>nsz1 s.
        if nsz1 = 0 then exec_bad pt nsz None s
        else let nsz = nsz1 in
          obind (uvmclear pt (nsz - (USERSTACK + 1) * PGSIZE) s) (\<lambda>_ s.
          let stackbase = nsz - USERSTACK * PGSIZE in
          obind (exec_args argv 0 pt stackbase nsz [] s) (\<lambda>r s.
            case r of None \<Rightarrow> exec_bad pt nsz None s
            | Some (sp, ustack) \<Rightarrow>
                let argc = length argv; ustack = ustack @ [0];
                    sp = sp - word_of_nat ((argc + 1) * 8); sp = sp - sp mod 16 in
                if MAXARG \<le> argc then Undef
                else if sp < stackbase then exec_bad pt nsz None s
                else obind (copyout pt sp (concat (map (le_bytes 8) ustack)) s) (\<lambda>r s.
                  if r < 0 then exec_bad pt nsz None s
                  else exec_commit p path elf pt nsz sp oldsz argc s)))))"

definition exec :: "u8 list \<Rightarrow> u8 list list \<Rightarrow> 'a file_state_scheme \<Rightarrow> (int, 'a file_state_scheme) outcome" where
  "exec path argv s = myproc s (\<lambda>p.
     obind (begin_op s) (\<lambda>_ s.
     obind (namei path s) (\<lambda>r s.
       case r of None \<Rightarrow> obind (end_op s) (\<lambda>_ s. Ok (-1) s)
       | Some ip \<Rightarrow>
           obind (ilock (Some ip) s) (\<lambda>_ s.
           obind (readi ip False 0 0 64 s) (\<lambda>(r, bs) s.
             let elf = get_elfhdr bs in
             if r \<noteq> 64 \<or> e_magic elf \<noteq> ELF_MAGIC then exec_bad 0 0 (Some ip) s
             else obind (proc_pagetable p s) (\<lambda>pt s.
               if pt = 0 then exec_bad 0 0 (Some ip) s
               else obind (exec_load (unat (e_phnum elf)) (ucast (e_phoff elf)) pt ip 0 s) (\<lambda>(ok, nsz) s.
                 if \<not> ok then exec_bad pt nsz (Some ip) s
                 else obind (iunlockput ip s) (\<lambda>_ s.
                   obind (end_op s) (\<lambda>_ s. exec_stack p path argv elf pt nsz s)))))))))"

end
