(* ===== verification/Sysfile.thy ===== *)
theory Sysfile
  imports Exec
begin

text \<open>
  Fetching the arguments of system calls (kernel/syscall.c) and the system calls on files
  (kernel/sysfile.c).  A string argument is the list of its bytes before the NUL; \<open>None\<close> stands for
  the result -1 of \<open>argfd\<close>, \<open>fdalloc\<close>, \<open>fetchaddr\<close>, \<open>fetchstr\<close> and \<open>argstr\<close>.
\<close>

section \<open>System call arguments\<close>

definition MAXPATH :: nat where [simp]: "MAXPATH = 128"

definition fetchaddr :: "u64 \<Rightarrow> 'a proc_state_scheme \<Rightarrow> (u64 option, 'a proc_state_scheme) outcome" where
  "fetchaddr addr s = myproc s (\<lambda>p.
     if addr \<ge> sz (procs s p) \<or> addr + 8 > sz (procs s p) then Ok None s
     else obind (copyin (pagetable (procs s p)) addr 8 s) (\<lambda>(r, bs) s.
       if r \<noteq> 0 then Ok None s else Ok (Some (le_word bs)) s))"

text \<open>The bytes stored at \<open>buf\<close>, also when the copy fails.\<close>

definition fetchstr :: "u64 \<Rightarrow> nat \<Rightarrow> 'a proc_state_scheme \<Rightarrow> (int \<times> u8 list, 'a proc_state_scheme) outcome" where
  "fetchstr addr mx s = myproc s (\<lambda>p.
     obind (copyinstr (pagetable (procs s p)) addr mx s) (\<lambda>(r, bs) s.
       if r < 0 then Ok (-1, bs) s else Ok (int (length (takeWhile (\<lambda>c. c \<noteq> 0) bs)), bs) s))"

definition argraw :: "nat \<Rightarrow> 'a proc_state_scheme \<Rightarrow> (u64, 'a proc_state_scheme) outcome" where
  "argraw n s = myproc s (\<lambda>p.
     case n of
       0 \<Rightarrow> Ok (tf_get p TF_a0 s) s
     | Suc 0 \<Rightarrow> Ok (tf_get p TF_a1 s) s
     | Suc (Suc 0) \<Rightarrow> Ok (tf_get p TF_a2 s) s
     | Suc (Suc (Suc 0)) \<Rightarrow> Ok (tf_get p TF_a3 s) s
     | Suc (Suc (Suc (Suc 0))) \<Rightarrow> Ok (tf_get p TF_a4 s) s
     | Suc (Suc (Suc (Suc (Suc 0)))) \<Rightarrow> Ok (tf_get p TF_a5 s) s
     | _ \<Rightarrow> Panic ''argraw'')"

definition argint :: "nat \<Rightarrow> 'a proc_state_scheme \<Rightarrow> (int, 'a proc_state_scheme) outcome" where
  "argint n s = obind (argraw n s) (\<lambda>v s. Ok (sint (ucast v :: u32)) s)"

definition argaddr :: "nat \<Rightarrow> 'a proc_state_scheme \<Rightarrow> (u64, 'a proc_state_scheme) outcome" where
  "argaddr n s = argraw n s"

definition argstr :: "nat \<Rightarrow> nat \<Rightarrow> 'a proc_state_scheme \<Rightarrow> (u8 list option, 'a proc_state_scheme) outcome" where
  "argstr n mx s =
     obind (argaddr n s) (\<lambda>addr s.
     obind (fetchstr addr mx s) (\<lambda>(r, bs) s.
       if r < 0 then Ok None s else Ok (Some (takeWhile (\<lambda>c. c \<noteq> 0) bs)) s))"

definition argfd :: "nat \<Rightarrow> 'a proc_state_scheme \<Rightarrow> ((nat \<times> nat) option, 'a proc_state_scheme) outcome" where
  "argfd n s =
     obind (argint n s) (\<lambda>fd s. myproc s (\<lambda>p.
       if fd < 0 \<or> fd \<ge> int NOFILE then Ok None s
       else case ofile (procs s p) (nat fd) of
         None \<Rightarrow> Ok None s
       | Some f \<Rightarrow> Ok (Some (nat fd, f)) s))"

section \<open>File descriptors\<close>

abbreviation set_ofile :: "nat \<Rightarrow> nat \<Rightarrow> nat option \<Rightarrow> 'a proc_state_scheme \<Rightarrow> 'a proc_state_scheme" where
  "set_ofile p fd f s \<equiv> upd_proc p (\<lambda>q. q\<lparr>ofile := (ofile q)(fd := f)\<rparr>) s"

fun fdalloc_loop :: "nat \<Rightarrow> nat \<Rightarrow> nat \<Rightarrow> 'a proc_state_scheme \<Rightarrow> nat option \<times> 'a proc_state_scheme" where
  "fdalloc_loop 0 p f s = (None, s)"
| "fdalloc_loop (Suc n) p f s =
     (let fd = NOFILE - Suc n in
      if ofile (procs s p) fd = None then (Some fd, set_ofile p fd (Some f) s)
      else fdalloc_loop n p f s)"

definition fdalloc :: "nat \<Rightarrow> 'a proc_state_scheme \<Rightarrow> (nat option, 'a proc_state_scheme) outcome" where
  "fdalloc f s = myproc s (\<lambda>p. case fdalloc_loop NOFILE p f s of (r, s) \<Rightarrow> Ok r s)"

definition sys_dup :: "'a file_state_scheme \<Rightarrow> (u64, 'a file_state_scheme) outcome" where
  "sys_dup s =
     obind (argfd 0 s) (\<lambda>r s.
       case r of None \<Rightarrow> Ok (-1) s
       | Some (_, f) \<Rightarrow>
           obind (fdalloc f s) (\<lambda>r s.
             case r of None \<Rightarrow> Ok (-1) s
             | Some fd \<Rightarrow> obind (filedup f s) (\<lambda>_ s. Ok (of_nat fd) s)))"

definition sys_read :: "'a file_state_scheme \<Rightarrow> (io_wait call, 'a file_state_scheme) outcome" where
  "sys_read s =
     obind (argaddr 1 s) (\<lambda>p s.
     obind (argint 2 s) (\<lambda>n s.
     obind (argfd 0 s) (\<lambda>r s.
       case r of None \<Rightarrow> Ok (Done (-1)) s
       | Some (_, f) \<Rightarrow> fileread f p n s)))"

definition sys_write :: "'a file_state_scheme \<Rightarrow> (io_wait call, 'a file_state_scheme) outcome" where
  "sys_write s =
     obind (argaddr 1 s) (\<lambda>p s.
     obind (argint 2 s) (\<lambda>n s.
     obind (argfd 0 s) (\<lambda>r s.
       case r of None \<Rightarrow> Ok (Done (-1)) s
       | Some (_, f) \<Rightarrow> filewrite f p n s)))"

definition sys_close :: "'a file_state_scheme \<Rightarrow> (u64, 'a file_state_scheme) outcome" where
  "sys_close s =
     obind (argfd 0 s) (\<lambda>r s.
       case r of None \<Rightarrow> Ok (-1) s
       | Some (fd, f) \<Rightarrow> myproc s (\<lambda>p.
           obind (fileclose f (set_ofile p fd None s)) (\<lambda>_ s. Ok 0 s)))"

definition sys_fstat :: "u8 list \<Rightarrow> 'a file_state_scheme \<Rightarrow> (u64, 'a file_state_scheme) outcome" where
  "sys_fstat pad s =
     obind (argaddr 1 s) (\<lambda>st s.
     obind (argfd 0 s) (\<lambda>r s.
       case r of None \<Rightarrow> Ok (-1) s
       | Some (_, f) \<Rightarrow> obind (filestat pad f st s) (\<lambda>r s. Ok (of_int r) s)))"

section \<open>Links and directories\<close>

definition sys_link_bad :: "nat \<Rightarrow> 'a file_state_scheme \<Rightarrow> (u64, 'a file_state_scheme) outcome" where
  "sys_link_bad ip s =
     obind (ilock (Some ip) s) (\<lambda>_ s.
     obind (iupdate ip (upd_inode ip (\<lambda>q. q\<lparr>nlink := nlink q - 1\<rparr>) s)) (\<lambda>_ s.
     obind (iunlockput ip s) (\<lambda>_ s.
     obind (end_op s) (\<lambda>_ s. Ok (-1) s))))"

definition sys_link_new :: "nat \<Rightarrow> u8 list \<Rightarrow> 'a file_state_scheme \<Rightarrow> (u64, 'a file_state_scheme) outcome" where
  "sys_link_new ip new s =
     obind (nameiparent new s) (\<lambda>(r, name) s.
       case r of None \<Rightarrow> sys_link_bad ip s
       | Some dp \<Rightarrow>
           obind (ilock (Some dp) s) (\<lambda>_ s.
           obind (if idev (inodes s dp) \<noteq> idev (inodes s ip) then Ok (-1) s
                  else dirlink dp name (inum (inodes s ip)) s) (\<lambda>r s.
           obind (iunlockput dp s) (\<lambda>_ s.
             if r < 0 then sys_link_bad ip s
             else obind (iput ip s) (\<lambda>_ s. obind (end_op s) (\<lambda>_ s. Ok 0 s))))))"

definition sys_link :: "'a file_state_scheme \<Rightarrow> (u64, 'a file_state_scheme) outcome" where
  "sys_link s =
     obind (argstr 0 MAXPATH s) (\<lambda>r s.
       case r of None \<Rightarrow> Ok (-1) s
       | Some old \<Rightarrow> obind (argstr 1 MAXPATH s) (\<lambda>r s.
           case r of None \<Rightarrow> Ok (-1) s
           | Some new \<Rightarrow>
               obind (begin_op s) (\<lambda>_ s.
               obind (namei old s) (\<lambda>r s.
                 case r of None \<Rightarrow> obind (end_op s) (\<lambda>_ s. Ok (-1) s)
                 | Some ip \<Rightarrow>
                     obind (ilock (Some ip) s) (\<lambda>_ s.
                       if itype (inodes s ip) = T_DIR then
                         obind (iunlockput ip s) (\<lambda>_ s. obind (end_op s) (\<lambda>_ s. Ok (-1) s))
                       else
                         obind (iupdate ip (upd_inode ip (\<lambda>q. q\<lparr>nlink := nlink q + 1\<rparr>) s)) (\<lambda>_ s.
                         obind (iunlock (Some ip) s) (\<lambda>_ s. sys_link_new ip new s)))))))"

fun isdirempty_loop :: "nat \<Rightarrow> nat \<Rightarrow> u32 \<Rightarrow> 'a fs_state_scheme \<Rightarrow> (bool, 'a fs_state_scheme) outcome" where
  "isdirempty_loop 0 dp off s = Ok True s"
| "isdirempty_loop (Suc k) dp off s =
     obind (readi dp False 0 off 16 s) (\<lambda>(r, bs) s.
       if r \<noteq> 16 then Panic ''isdirempty: readi''
       else if de_inum (get_dirent bs) \<noteq> 0 then Ok False s
       else isdirempty_loop k dp (off + 16) s)"

text \<open>As many turns as entries start at or after offset 32 and below the size.\<close>

definition isdirempty :: "nat \<Rightarrow> 'a fs_state_scheme \<Rightarrow> (bool, 'a fs_state_scheme) outcome" where
  "isdirempty dp s = isdirempty_loop ((unat (isize (inodes s dp)) - 2 * DIRENT_SIZE + 15) div DIRENT_SIZE) dp 32 s"

definition sys_unlink_bad :: "nat \<Rightarrow> 'a file_state_scheme \<Rightarrow> (u64, 'a file_state_scheme) outcome" where
  "sys_unlink_bad dp s = obind (iunlockput dp s) (\<lambda>_ s. obind (end_op s) (\<lambda>_ s. Ok (-1) s))"

definition sys_unlink_entry :: "nat \<Rightarrow> nat \<Rightarrow> u32 \<Rightarrow> 'a file_state_scheme \<Rightarrow> (u64, 'a file_state_scheme) outcome" where
  "sys_unlink_entry dp ip off s =
     obind (writei dp False 0 (replicate DIRENT_SIZE 0) off 16 s) (\<lambda>r s.
       if r \<noteq> 16 then Panic ''unlink: writei''
       else
         obind (if itype (inodes s ip) = T_DIR
                then iupdate dp (upd_inode dp (\<lambda>q. q\<lparr>nlink := nlink q - 1\<rparr>) s) else Ok () s) (\<lambda>_ s.
         obind (iunlockput dp s) (\<lambda>_ s.
         obind (iupdate ip (upd_inode ip (\<lambda>q. q\<lparr>nlink := nlink q - 1\<rparr>) s)) (\<lambda>_ s.
         obind (iunlockput ip s) (\<lambda>_ s.
         obind (end_op s) (\<lambda>_ s. Ok 0 s))))))"

definition sys_unlink :: "'a file_state_scheme \<Rightarrow> (u64, 'a file_state_scheme) outcome" where
  "sys_unlink s =
     obind (argstr 0 MAXPATH s) (\<lambda>r s.
       case r of None \<Rightarrow> Ok (-1) s
       | Some path \<Rightarrow>
           obind (begin_op s) (\<lambda>_ s.
           obind (nameiparent path s) (\<lambda>(r, name) s.
             case r of None \<Rightarrow> obind (end_op s) (\<lambda>_ s. Ok (-1) s)
             | Some dp \<Rightarrow>
                 obind (ilock (Some dp) s) (\<lambda>_ s.
                   if namecmp name (str ''.'') = 0 \<or> namecmp name (str ''..'') = 0 then sys_unlink_bad dp s
                   else obind (dirlookup dp name s) (\<lambda>r s.
                     case r of None \<Rightarrow> sys_unlink_bad dp s
                     | Some (ip, off) \<Rightarrow>
                         obind (ilock (Some ip) s) (\<lambda>_ s.
                           if sint (nlink (inodes s ip)) < 1 then Panic ''unlink: nlink < 1''
                           else
                             obind (if itype (inodes s ip) = T_DIR then isdirempty ip s else Ok True s) (\<lambda>e s.
                               if \<not> e then obind (iunlockput ip s) (\<lambda>_ s. sys_unlink_bad dp s)
                               else sys_unlink_entry dp ip off s)))))))"

section \<open>Creating and opening\<close>

definition create_fail :: "nat \<Rightarrow> nat \<Rightarrow> 'a file_state_scheme \<Rightarrow> (nat option, 'a file_state_scheme) outcome" where
  "create_fail dp ip s =
     obind (iupdate ip (upd_inode ip (\<lambda>q. q\<lparr>nlink := 0\<rparr>) s)) (\<lambda>_ s.
     obind (iunlockput ip s) (\<lambda>_ s.
     obind (iunlockput dp s) (\<lambda>_ s. Ok None s)))"

text \<open>The entries \<open>.\<close> and \<open>..\<close> of a new directory.\<close>

definition create_dots :: "nat \<Rightarrow> nat \<Rightarrow> 'a file_state_scheme \<Rightarrow> (int, 'a file_state_scheme) outcome" where
  "create_dots dp ip s =
     obind (dirlink ip (str ''.'') (inum (inodes s ip)) s) (\<lambda>r s.
       if r < 0 then Ok (-1) s else dirlink ip (str ''..'') (inum (inodes s dp)) s)"

definition create_new :: "nat \<Rightarrow> u8 list \<Rightarrow> u16 \<Rightarrow> u16 \<Rightarrow> u16 \<Rightarrow> 'a file_state_scheme
    \<Rightarrow> (nat option, 'a file_state_scheme) outcome" where
  "create_new dp name ty maj mnr s =
     obind (ialloc (idev (inodes s dp)) ty s) (\<lambda>r s.
       case r of None \<Rightarrow> obind (iunlockput dp s) (\<lambda>_ s. Ok None s)
       | Some ip \<Rightarrow>
           obind (ilock (Some ip) s) (\<lambda>_ s.
           obind (iupdate ip (upd_inode ip (\<lambda>q. q\<lparr>major := maj, minor := mnr, nlink := 1\<rparr>) s)) (\<lambda>_ s.
           obind (if ty = T_DIR then create_dots dp ip s else Ok 0 s) (\<lambda>r s.
             if r < 0 then create_fail dp ip s
             else obind (dirlink dp name (inum (inodes s ip)) s) (\<lambda>r s.
               if r < 0 then create_fail dp ip s
               else
                 obind (if ty = T_DIR then iupdate dp (upd_inode dp (\<lambda>q. q\<lparr>nlink := nlink q + 1\<rparr>) s)
                        else Ok () s) (\<lambda>_ s.
                 obind (iunlockput dp s) (\<lambda>_ s. Ok (Some ip) s)))))))"

definition create :: "u8 list \<Rightarrow> u16 \<Rightarrow> u16 \<Rightarrow> u16 \<Rightarrow> 'a file_state_scheme
    \<Rightarrow> (nat option, 'a file_state_scheme) outcome" where
  "create path ty maj mnr s =
     obind (nameiparent path s) (\<lambda>(r, name) s.
       case r of None \<Rightarrow> Ok None s
       | Some dp \<Rightarrow>
           obind (ilock (Some dp) s) (\<lambda>_ s.
           obind (dirlookup dp name s) (\<lambda>r s.
             case r of
               Some (ip, _) \<Rightarrow>
                 obind (iunlockput dp s) (\<lambda>_ s.
                 obind (ilock (Some ip) s) (\<lambda>_ s.
                   if ty = T_FILE \<and> (itype (inodes s ip) = T_FILE \<or> itype (inodes s ip) = T_DEVICE)
                   then Ok (Some ip) s
                   else obind (iunlockput ip s) (\<lambda>_ s. Ok None s)))
             | None \<Rightarrow> create_new dp name ty maj mnr s)))"

text \<open>The three parts of \<open>sys_open\<close>: finding the inode, the failure exit, and setting up the open file.\<close>

definition sys_open_inode :: "u8 list \<Rightarrow> u32 \<Rightarrow> 'a file_state_scheme \<Rightarrow> (nat option, 'a file_state_scheme) outcome" where
  "sys_open_inode path omode s =
     (if omode AND O_CREATE \<noteq> 0 then
        obind (create path T_FILE 0 0 s) (\<lambda>r s.
          case r of None \<Rightarrow> obind (end_op s) (\<lambda>_ s. Ok None s)
          | Some ip \<Rightarrow> Ok (Some ip) s)
      else
        obind (namei path s) (\<lambda>r s.
          case r of None \<Rightarrow> obind (end_op s) (\<lambda>_ s. Ok None s)
          | Some ip \<Rightarrow>
              obind (ilock (Some ip) s) (\<lambda>_ s.
                if itype (inodes s ip) = T_DIR \<and> omode \<noteq> O_RDONLY then
                  obind (iunlockput ip s) (\<lambda>_ s. obind (end_op s) (\<lambda>_ s. Ok None s))
                else Ok (Some ip) s)))"

definition sys_open_fail :: "nat option \<Rightarrow> nat \<Rightarrow> 'a file_state_scheme \<Rightarrow> (u64, 'a file_state_scheme) outcome" where
  "sys_open_fail f ip s =
     obind (case f of None \<Rightarrow> Ok () s | Some f \<Rightarrow> fileclose f s) (\<lambda>_ s.
     obind (iunlockput ip s) (\<lambda>_ s.
     obind (end_op s) (\<lambda>_ s. Ok (-1) s)))"

definition open_file :: "nat \<Rightarrow> nat \<Rightarrow> u32 \<Rightarrow> 'a file_state_scheme \<Rightarrow> 'a file_state_scheme" where
  "open_file f ip omode s =
     (let s = (if itype (inodes s ip) = T_DEVICE
               then upd_file f (\<lambda>q. q\<lparr>ftype := FD_DEVICE, fmajor := major (inodes s ip)\<rparr>) s
               else upd_file f (\<lambda>q. q\<lparr>ftype := FD_INODE, foff := 0\<rparr>) s) in
      upd_file f (\<lambda>q. q\<lparr>fip := ip, readable := omode AND O_WRONLY = 0,
        writable := omode AND O_WRONLY \<noteq> 0 \<or> omode AND O_RDWR \<noteq> 0\<rparr>) s)"

definition sys_open :: "'a file_state_scheme \<Rightarrow> (u64, 'a file_state_scheme) outcome" where
  "sys_open s =
     obind (argint 1 s) (\<lambda>m s.
     let omode = word_of_int m :: u32 in
     obind (argstr 0 MAXPATH s) (\<lambda>r s.
       case r of None \<Rightarrow> Ok (-1) s
       | Some path \<Rightarrow>
           obind (begin_op s) (\<lambda>_ s.
           obind (sys_open_inode path omode s) (\<lambda>r s.
             case r of None \<Rightarrow> Ok (-1) s
             | Some ip \<Rightarrow>
                 if itype (inodes s ip) = T_DEVICE \<and> dev_index (major (inodes s ip)) = None
                 then sys_open_fail None ip s
                 else obind (filealloc s) (\<lambda>r s.
                   case r of None \<Rightarrow> sys_open_fail None ip s
                   | Some f \<Rightarrow> obind (fdalloc f s) (\<lambda>r s.
                       case r of None \<Rightarrow> sys_open_fail (Some f) ip s
                       | Some fd \<Rightarrow>
                           let s = open_file f ip omode s in
                           obind (if omode AND O_TRUNC \<noteq> 0 \<and> itype (inodes s ip) = T_FILE
                                  then itrunc ip s else Ok () s) (\<lambda>_ s.
                           obind (iunlock (Some ip) s) (\<lambda>_ s.
                           obind (end_op s) (\<lambda>_ s. Ok (of_nat fd) s)))))))))"

definition sys_mkdir :: "'a file_state_scheme \<Rightarrow> (u64, 'a file_state_scheme) outcome" where
  "sys_mkdir s =
     obind (begin_op s) (\<lambda>_ s.
     obind (argstr 0 MAXPATH s) (\<lambda>r s.
     obind (case r of None \<Rightarrow> Ok None s | Some path \<Rightarrow> create path T_DIR 0 0 s) (\<lambda>r s.
       case r of None \<Rightarrow> obind (end_op s) (\<lambda>_ s. Ok (-1) s)
       | Some ip \<Rightarrow> obind (iunlockput ip s) (\<lambda>_ s. obind (end_op s) (\<lambda>_ s. Ok 0 s)))))"

definition sys_mknod :: "'a file_state_scheme \<Rightarrow> (u64, 'a file_state_scheme) outcome" where
  "sys_mknod s =
     obind (begin_op s) (\<lambda>_ s.
     obind (argint 1 s) (\<lambda>maj s.
     obind (argint 2 s) (\<lambda>mnr s.
     obind (argstr 0 MAXPATH s) (\<lambda>r s.
     obind (case r of None \<Rightarrow> Ok None s
       | Some path \<Rightarrow> create path T_DEVICE (word_of_int maj) (word_of_int mnr) s) (\<lambda>r s.
       case r of None \<Rightarrow> obind (end_op s) (\<lambda>_ s. Ok (-1) s)
       | Some ip \<Rightarrow> obind (iunlockput ip s) (\<lambda>_ s. obind (end_op s) (\<lambda>_ s. Ok 0 s)))))))"

definition sys_chdir :: "'a file_state_scheme \<Rightarrow> (u64, 'a file_state_scheme) outcome" where
  "sys_chdir s = myproc s (\<lambda>p.
     obind (begin_op s) (\<lambda>_ s.
     obind (argstr 0 MAXPATH s) (\<lambda>r s.
     obind (case r of None \<Rightarrow> Ok None s | Some path \<Rightarrow> namei path s) (\<lambda>r s.
       case r of None \<Rightarrow> obind (end_op s) (\<lambda>_ s. Ok (-1) s)
       | Some ip \<Rightarrow>
           obind (ilock (Some ip) s) (\<lambda>_ s.
             if itype (inodes s ip) \<noteq> T_DIR then
               obind (iunlockput ip s) (\<lambda>_ s. obind (end_op s) (\<lambda>_ s. Ok (-1) s))
             else
               obind (iunlock (Some ip) s) (\<lambda>_ s.
               case cwd (procs s p) of None \<Rightarrow> Undef
               | Some d \<Rightarrow>
                   obind (iput d s) (\<lambda>_ s.
                   obind (end_op s) (\<lambda>_ s.
                   Ok 0 (upd_proc p (\<lambda>q. q\<lparr>cwd := Some ip\<rparr>) s)))))))))"

section \<open>exec and pipe\<close>

text \<open>
  The loop over the user's argument vector: whether it got to the end, and the pages filled.  \<open>k\<close>
  counts the elements of \<open>argv\<close> still free.
\<close>

fun sys_exec_args :: "nat \<Rightarrow> u64 \<Rightarrow> u64 list \<Rightarrow> 'a file_state_scheme \<Rightarrow> (bool \<times> u64 list, 'a file_state_scheme) outcome" where
  "sys_exec_args 0 uargv argv s = Ok (False, argv) s"
| "sys_exec_args (Suc k) uargv argv s =
     obind (fetchaddr (uargv + 8 * of_nat (length argv)) s) (\<lambda>r s.
       case r of None \<Rightarrow> Ok (False, argv) s
       | Some uarg \<Rightarrow>
           if uarg = 0 then Ok (True, argv) s
           else obind (kalloc s) (\<lambda>a s.
             if a = 0 then Ok (False, argv) s
             else obind (fetchstr uarg 4096 s) (\<lambda>(r, bs) s.
               let s = s\<lparr>mem := write_bytes (mem s) (unat a) bs\<rparr> in
               if r < 0 then Ok (False, argv @ [a]) s
               else sys_exec_args k uargv (argv @ [a]) s)))"

fun free_args :: "u64 list \<Rightarrow> 'a kmem_state_scheme \<Rightarrow> (unit, 'a kmem_state_scheme) outcome" where
  "free_args [] s = Ok () s"
| "free_args (a # as) s = obind (kfree a s) (\<lambda>_ s. free_args as s)"

definition sys_exec :: "'a file_state_scheme \<Rightarrow> (u64, 'a file_state_scheme) outcome" where
  "sys_exec s =
     obind (argaddr 1 s) (\<lambda>uargv s.
     obind (argstr 0 MAXPATH s) (\<lambda>r s.
       case r of None \<Rightarrow> Ok (-1) s
       | Some path \<Rightarrow>
           obind (sys_exec_args MAXARG uargv [] s) (\<lambda>(ok, argv) s.
             if ok then
               obind (exec path (map (\<lambda>a. cstr (mem s) (unat a) 4096) argv) s) (\<lambda>ret s.
               obind (free_args argv s) (\<lambda>_ s. Ok (of_int ret) s))
             else obind (free_args argv s) (\<lambda>_ s. Ok (-1) s))))"

definition sys_pipe_fail :: "nat \<Rightarrow> nat \<Rightarrow> 'a file_state_scheme \<Rightarrow> (u64, 'a file_state_scheme) outcome" where
  "sys_pipe_fail rfile wfile s =
     obind (fileclose rfile s) (\<lambda>_ s. obind (fileclose wfile s) (\<lambda>_ s. Ok (-1) s))"

definition sys_pipe :: "'a file_state_scheme \<Rightarrow> (u64, 'a file_state_scheme) outcome" where
  "sys_pipe s = myproc s (\<lambda>p.
     obind (argaddr 0 s) (\<lambda>fdarray s.
     obind (pipealloc s) (\<lambda>r s.
       case r of None \<Rightarrow> Ok (-1) s
       | Some (rfile, wfile) \<Rightarrow>
           obind (fdalloc rfile s) (\<lambda>r s.
             case r of None \<Rightarrow> sys_pipe_fail rfile wfile s
             | Some fd0 \<Rightarrow> obind (fdalloc wfile s) (\<lambda>r s.
                 case r of None \<Rightarrow> sys_pipe_fail rfile wfile (set_ofile p fd0 None s)
                 | Some fd1 \<Rightarrow>
                     obind (copyout (pagetable (procs s p)) fdarray (le_bytes 4 (of_nat fd0 :: u32)) s) (\<lambda>r s.
                     obind (if r < 0 then Ok (-1) s
                       else copyout (pagetable (procs s p)) (fdarray + 4) (le_bytes 4 (of_nat fd1 :: u32)) s) (\<lambda>r s.
                       if r < 0 then sys_pipe_fail rfile wfile (set_ofile p fd1 None (set_ofile p fd0 None s))
                       else Ok 0 s)))))))"

end
