(* ===== verification/Virtio.thy ===== *)
theory Virtio
  imports Sysfile
begin

text \<open>
  The disk driver (kernel/virtio_disk.c, kernel/virtio.h).  The descriptor table and the two rings
  are fields of the state; an address in a descriptor is the object it points to.  The device is not
  part of the kernel: what it does to its registers when one is written is the parameter \<open>wr\<close> of
  \<open>virtio_disk_init\<close>, and what it does to the rings comes with the theorems about them.
  \<open>virtio_disk_rw\<close> waits for the device and returns \<open>Blocked\<close> with the head of its chain;
  \<open>virtio_disk_rw_wait\<close> is the rest of it.
\<close>

section \<open>Rings and registers\<close>

definition NUM :: nat where [simp]: "NUM = 8"
definition VRING_DESC_F_NEXT :: u16 where [simp]: "VRING_DESC_F_NEXT = 1"
definition VRING_DESC_F_WRITE :: u16 where [simp]: "VRING_DESC_F_WRITE = 2"
definition VIRTIO_BLK_T_IN :: u32 where [simp]: "VIRTIO_BLK_T_IN = 0"
definition VIRTIO_BLK_T_OUT :: u32 where [simp]: "VIRTIO_BLK_T_OUT = 1"

datatype vptr = PNull | POps nat | PData nat | PStatus nat

record virtq_desc =
  d_addr :: vptr
  d_len :: u32
  d_flags :: u16
  d_next :: u16

record virtio_blk_req =
  r_type :: u32
  r_reserved :: u32
  r_sector :: u64

record vd_state = file_state +
  vdesc :: "nat \<Rightarrow> virtq_desc"
  avail_idx :: u16
  avail_ring :: "nat \<Rightarrow> u16"
  used_idx_dev :: u16
  used_ring :: "nat \<Rightarrow> u32"
  vfree :: "nat \<Rightarrow> bool"
  used_idx :: u16
  info_b :: "nat \<Rightarrow> nat option"
  info_status :: "nat \<Rightarrow> u8"
  vops :: "nat \<Rightarrow> virtio_blk_req"
  bdisk :: "nat \<Rightarrow> bool"
  vregs :: "nat \<Rightarrow> u32"

datatype vmmio = MAGIC_VALUE | VERSION | DEVICE_ID | VENDOR_ID | DEVICE_FEATURES | DRIVER_FEATURES
  | QUEUE_SEL | QUEUE_NUM_MAX | QUEUE_NUM | QUEUE_READY | QUEUE_NOTIFY | INTERRUPT_STATUS | INTERRUPT_ACK
  | STATUS | QUEUE_DESC_LOW | QUEUE_DESC_HIGH | DRIVER_DESC_LOW | DRIVER_DESC_HIGH | DEVICE_DESC_LOW
  | DEVICE_DESC_HIGH

fun vmmio_off :: "vmmio \<Rightarrow> nat" where
  "vmmio_off MAGIC_VALUE = 0x000"
| "vmmio_off VERSION = 0x004"
| "vmmio_off DEVICE_ID = 0x008"
| "vmmio_off VENDOR_ID = 0x00c"
| "vmmio_off DEVICE_FEATURES = 0x010"
| "vmmio_off DRIVER_FEATURES = 0x020"
| "vmmio_off QUEUE_SEL = 0x030"
| "vmmio_off QUEUE_NUM_MAX = 0x034"
| "vmmio_off QUEUE_NUM = 0x038"
| "vmmio_off QUEUE_READY = 0x044"
| "vmmio_off QUEUE_NOTIFY = 0x050"
| "vmmio_off INTERRUPT_STATUS = 0x060"
| "vmmio_off INTERRUPT_ACK = 0x064"
| "vmmio_off STATUS = 0x070"
| "vmmio_off QUEUE_DESC_LOW = 0x080"
| "vmmio_off QUEUE_DESC_HIGH = 0x084"
| "vmmio_off DRIVER_DESC_LOW = 0x090"
| "vmmio_off DRIVER_DESC_HIGH = 0x094"
| "vmmio_off DEVICE_DESC_LOW = 0x0a0"
| "vmmio_off DEVICE_DESC_HIGH = 0x0a4"

type_synonym vdev = "nat \<Rightarrow> u32 \<Rightarrow> (nat \<Rightarrow> u32) \<Rightarrow> (nat \<Rightarrow> u32)"

definition vread :: "vmmio \<Rightarrow> 'a vd_state_scheme \<Rightarrow> u32" where
  "vread r s = vregs s (vmmio_off r)"

definition vwrite :: "vdev \<Rightarrow> vmmio \<Rightarrow> u32 \<Rightarrow> 'a vd_state_scheme \<Rightarrow> 'a vd_state_scheme" where
  "vwrite wr r v s = s\<lparr>vregs := wr (vmmio_off r) v (vregs s)\<rparr>"

definition VIRTIO_BLK_F_RO :: nat where [simp]: "VIRTIO_BLK_F_RO = 5"
definition VIRTIO_BLK_F_SCSI :: nat where [simp]: "VIRTIO_BLK_F_SCSI = 7"
definition VIRTIO_BLK_F_CONFIG_WCE :: nat where [simp]: "VIRTIO_BLK_F_CONFIG_WCE = 11"
definition VIRTIO_BLK_F_MQ :: nat where [simp]: "VIRTIO_BLK_F_MQ = 12"
definition VIRTIO_F_ANY_LAYOUT :: nat where [simp]: "VIRTIO_F_ANY_LAYOUT = 27"
definition VIRTIO_RING_F_INDIRECT_DESC :: nat where [simp]: "VIRTIO_RING_F_INDIRECT_DESC = 28"
definition VIRTIO_RING_F_EVENT_IDX :: nat where [simp]: "VIRTIO_RING_F_EVENT_IDX = 29"

definition VIRTIO_CONFIG_S_ACKNOWLEDGE :: u32 where [simp]: "VIRTIO_CONFIG_S_ACKNOWLEDGE = 1"
definition VIRTIO_CONFIG_S_DRIVER :: u32 where [simp]: "VIRTIO_CONFIG_S_DRIVER = 2"
definition VIRTIO_CONFIG_S_DRIVER_OK :: u32 where [simp]: "VIRTIO_CONFIG_S_DRIVER_OK = 4"
definition VIRTIO_CONFIG_S_FEATURES_OK :: u32 where [simp]: "VIRTIO_CONFIG_S_FEATURES_OK = 8"

definition clear_feature :: "nat \<Rightarrow> u64 \<Rightarrow> u64" where
  "clear_feature i f = f AND NOT (push_bit i 1)"

definition driver_features :: "u64 \<Rightarrow> u64" where
  "driver_features f =
     (let f = clear_feature VIRTIO_BLK_F_RO f; f = clear_feature VIRTIO_BLK_F_SCSI f;
          f = clear_feature VIRTIO_BLK_F_CONFIG_WCE f; f = clear_feature VIRTIO_BLK_F_MQ f;
          f = clear_feature VIRTIO_F_ANY_LAYOUT f; f = clear_feature VIRTIO_RING_F_EVENT_IDX f
      in clear_feature VIRTIO_RING_F_INDIRECT_DESC f)"

definition zero_desc :: virtq_desc where
  "zero_desc = \<lparr>d_addr = PNull, d_len = 0, d_flags = 0, d_next = 0\<rparr>"

text \<open>The second half of \<open>virtio_disk_init\<close>: the queue memory and the addresses of its parts.\<close>

definition virtio_queue_init :: "vdev \<Rightarrow> u32 \<Rightarrow> 'a vd_state_scheme \<Rightarrow> (unit, 'a vd_state_scheme) outcome" where
  "virtio_queue_init wr status s =
     obind (kalloc s) (\<lambda>desc s.
     obind (kalloc s) (\<lambda>avail s.
     obind (kalloc s) (\<lambda>used s.
       if desc = 0 \<or> avail = 0 \<or> used = 0 then Panic ''virtio disk kalloc''
       else
         let s = s\<lparr>mem := memset (memset (memset (mem s) (unat desc) 0 4096) (unat avail) 0 4096) (unat used) 0 4096,
               vdesc := (\<lambda>_. zero_desc), avail_idx := 0, avail_ring := (\<lambda>_. 0), used_idx_dev := 0, used_ring := (\<lambda>_. 0)\<rparr>;
             s = vwrite wr QUEUE_NUM (of_nat NUM) s;
             s = vwrite wr QUEUE_DESC_LOW (ucast desc) s;
             s = vwrite wr QUEUE_DESC_HIGH (ucast (drop_bit 32 desc)) s;
             s = vwrite wr DRIVER_DESC_LOW (ucast avail) s;
             s = vwrite wr DRIVER_DESC_HIGH (ucast (drop_bit 32 avail)) s;
             s = vwrite wr DEVICE_DESC_LOW (ucast used) s;
             s = vwrite wr DEVICE_DESC_HIGH (ucast (drop_bit 32 used)) s;
             s = vwrite wr QUEUE_READY 1 s;
             s = s\<lparr>vfree := (\<lambda>i. if i < NUM then True else vfree s i)\<rparr> in
         Ok () (vwrite wr STATUS (status OR VIRTIO_CONFIG_S_DRIVER_OK) s))))"

definition virtio_disk_init :: "vdev \<Rightarrow> 'a vd_state_scheme \<Rightarrow> (unit, 'a vd_state_scheme) outcome" where
  "virtio_disk_init wr s =
     (let s = lk_init LkVdisk s in
      if vread MAGIC_VALUE s \<noteq> 0x74726976 \<or> vread VERSION s \<noteq> 2 \<or> vread DEVICE_ID s \<noteq> 2
         \<or> vread VENDOR_ID s \<noteq> 0x554d4551 then Panic ''could not find virtio disk''
      else
        let status = 0; s = vwrite wr STATUS status s;
            status = status OR VIRTIO_CONFIG_S_ACKNOWLEDGE; s = vwrite wr STATUS status s;
            status = status OR VIRTIO_CONFIG_S_DRIVER; s = vwrite wr STATUS status s;
            features = driver_features (ucast (vread DEVICE_FEATURES s));
            s = vwrite wr DRIVER_FEATURES (ucast features) s;
            status = status OR VIRTIO_CONFIG_S_FEATURES_OK; s = vwrite wr STATUS status s;
            status = vread STATUS s in
        if status AND VIRTIO_CONFIG_S_FEATURES_OK = 0 then Panic ''virtio disk FEATURES_OK unset''
        else
          let s = vwrite wr QUEUE_SEL 0 s in
          if vread QUEUE_READY s \<noteq> 0 then Panic ''virtio disk should not be ready''
          else if vread QUEUE_NUM_MAX s = 0 then Panic ''virtio disk has no queue 0''
          else if vread QUEUE_NUM_MAX s < of_nat NUM then Panic ''virtio disk max queue too short''
          else virtio_queue_init wr status s)"

section \<open>Descriptors\<close>

fun alloc_desc_loop :: "nat \<Rightarrow> 'a vd_state_scheme \<Rightarrow> nat option \<times> 'a vd_state_scheme" where
  "alloc_desc_loop 0 s = (None, s)"
| "alloc_desc_loop (Suc n) s =
     (let i = NUM - Suc n in
      if vfree s i then (Some i, s\<lparr>vfree := (vfree s)(i := False)\<rparr>) else alloc_desc_loop n s)"

definition alloc_desc :: "'a vd_state_scheme \<Rightarrow> nat option \<times> 'a vd_state_scheme" where
  "alloc_desc s = alloc_desc_loop NUM s"

definition free_desc :: "nat \<Rightarrow> 'a vd_state_scheme \<Rightarrow> (unit, 'a vd_state_scheme) outcome" where
  "free_desc i s =
     (if i \<ge> NUM then Panic ''free_desc 1''
      else if vfree s i then Panic ''free_desc 2''
      else wakeup (Some ChDiskFree) (s\<lparr>vdesc := (vdesc s)(i := zero_desc), vfree := (vfree s)(i := True)\<rparr>))"

text \<open>Every turn makes one more descriptor free or panics, so NUM turns are enough.\<close>

fun free_chain_loop :: "nat \<Rightarrow> nat \<Rightarrow> 'a vd_state_scheme \<Rightarrow> (unit, 'a vd_state_scheme) outcome" where
  "free_chain_loop 0 i s = Spin"
| "free_chain_loop (Suc n) i s =
     (let flag = d_flags (vdesc s i); nx = unat (d_next (vdesc s i)) in
      obind (free_desc i s) (\<lambda>_ s.
        if flag AND VRING_DESC_F_NEXT \<noteq> 0 then free_chain_loop n nx s else Ok () s))"

definition free_chain :: "nat \<Rightarrow> 'a vd_state_scheme \<Rightarrow> (unit, 'a vd_state_scheme) outcome" where
  "free_chain i s = free_chain_loop (Suc NUM) i s"

text \<open>The three descriptors, or \<open>None\<close> with those already taken given back.\<close>

definition alloc3_desc :: "'a vd_state_scheme \<Rightarrow> ((nat \<times> nat \<times> nat) option, 'a vd_state_scheme) outcome" where
  "alloc3_desc s =
     (case alloc_desc s of (None, s) \<Rightarrow> Ok None s
      | (Some i0, s) \<Rightarrow> (case alloc_desc s of (None, s) \<Rightarrow> obind (free_desc i0 s) (\<lambda>_ s. Ok None s)
        | (Some i1, s) \<Rightarrow> (case alloc_desc s of
            (None, s) \<Rightarrow> obind (free_desc i0 s) (\<lambda>_ s. obind (free_desc i1 s) (\<lambda>_ s. Ok None s))
          | (Some i2, s) \<Rightarrow> Ok (Some (i0, i1, i2)) s)))"

section \<open>Requests\<close>

definition upd_desc :: "nat \<Rightarrow> virtq_desc \<Rightarrow> 'a vd_state_scheme \<Rightarrow> 'a vd_state_scheme" where
  "upd_desc i d s = s\<lparr>vdesc := (vdesc s)(i := d)\<rparr>"

definition format_request :: "nat \<Rightarrow> bool \<Rightarrow> nat \<Rightarrow> nat \<Rightarrow> nat \<Rightarrow> 'a vd_state_scheme \<Rightarrow> 'a vd_state_scheme" where
  "format_request b write i0 i1 i2 s =
     (let sector = ucast (blockno (bufs s b) * 2) :: u64;
          s = s\<lparr>vops := (vops s)(i0 := \<lparr>r_type = (if write then VIRTIO_BLK_T_OUT else VIRTIO_BLK_T_IN),
                r_reserved = 0, r_sector = sector\<rparr>)\<rparr>;
          s = upd_desc i0 \<lparr>d_addr = POps i0, d_len = 16, d_flags = VRING_DESC_F_NEXT, d_next = of_nat i1\<rparr> s;
          s = upd_desc i1 \<lparr>d_addr = PData b, d_len = of_nat BSIZE,
                d_flags = (if write then 0 else VRING_DESC_F_WRITE) OR VRING_DESC_F_NEXT, d_next = of_nat i2\<rparr> s;
          s = s\<lparr>info_status := (info_status s)(i0 := 0xff)\<rparr>;
          s = upd_desc i2 \<lparr>d_addr = PStatus i0, d_len = 1, d_flags = VRING_DESC_F_WRITE, d_next = 0\<rparr> s;
          s = s\<lparr>bdisk := (bdisk s)(b := True), info_b := (info_b s)(i0 := Some b)\<rparr>
      in s\<lparr>avail_ring := (avail_ring s)(unat (avail_idx s) mod NUM := of_nat i0), avail_idx := avail_idx s + 1\<rparr>)"

definition virtio_disk_rw_wait :: "nat \<Rightarrow> nat \<Rightarrow> 'a vd_state_scheme \<Rightarrow> (nat call, 'a vd_state_scheme) outcome" where
  "virtio_disk_rw_wait b i0 s =
     (if bdisk s b then suspend i0 (sleep (ChBuf b) LkVdisk s :: (unit, 'a vd_state_scheme) outcome)
      else
        obind (free_chain i0 (s\<lparr>info_b := (info_b s)(i0 := None)\<rparr>)) (\<lambda>_ s.
        obind (lk_release LkVdisk s) (\<lambda>_ s. Ok (Done 0) s)))"

definition virtio_disk_rw :: "vdev \<Rightarrow> nat \<Rightarrow> bool \<Rightarrow> 'a vd_state_scheme \<Rightarrow> (nat call, 'a vd_state_scheme) outcome" where
  "virtio_disk_rw wr b write s =
     obind (lk_acquire LkVdisk s) (\<lambda>_ s.
     obind (alloc3_desc s) (\<lambda>r s.
       case r of None \<Rightarrow> sleep ChDiskFree LkVdisk s
       | Some (i0, i1, i2) \<Rightarrow>
           virtio_disk_rw_wait b i0 (vwrite wr QUEUE_NOTIFY 0 (format_request b write i0 i1 i2 s))))"

text \<open>\<open>n\<close> counts the entries of the used ring the driver has not looked at.\<close>

fun virtio_disk_intr_loop :: "nat \<Rightarrow> 'a vd_state_scheme \<Rightarrow> (unit, 'a vd_state_scheme) outcome" where
  "virtio_disk_intr_loop 0 s = Ok () s"
| "virtio_disk_intr_loop (Suc n) s =
     (let i = unat (used_ring s (unat (used_idx s) mod NUM)) in
      if i \<ge> NUM then Undef
      else if info_status s i \<noteq> 0 then Panic ''virtio_disk_intr status''
      else case info_b s i of None \<Rightarrow> Undef
        | Some b \<Rightarrow>
            obind (wakeup (Some (ChBuf b)) (s\<lparr>bdisk := (bdisk s)(b := False)\<rparr>)) (\<lambda>_ s.
            virtio_disk_intr_loop n (s\<lparr>used_idx := used_idx s + 1\<rparr>)))"

definition virtio_disk_intr :: "vdev \<Rightarrow> 'a vd_state_scheme \<Rightarrow> (unit, 'a vd_state_scheme) outcome" where
  "virtio_disk_intr wr s =
     obind (lk_acquire LkVdisk s) (\<lambda>_ s.
     let s = vwrite wr INTERRUPT_ACK (vread INTERRUPT_STATUS s AND 3) s in
     obind (virtio_disk_intr_loop (unat (used_idx_dev s - used_idx s)) s) (\<lambda>_ s.
     lk_release LkVdisk s))"

end
