(* ===== verification/Syscall.thy ===== *)
theory Syscall
  imports Virtio
begin

text \<open>
  The system calls on processes and time (kernel/sysproc.c) and the dispatcher (kernel/syscall.c).
  A system call returns a value for \<open>a0\<close>, or the position at which it sleeps.
\<close>

record tk_state = vd_state +
  ticks :: u32

section \<open>kernel/sysproc.c\<close>

definition sys_exit :: "'a file_state_scheme \<Rightarrow> (u64, 'a file_state_scheme) outcome" where
  "sys_exit s = obind (argint 0 s) (\<lambda>n s. exit n s)"

definition sys_getpid :: "'a proc_state_scheme \<Rightarrow> (u64, 'a proc_state_scheme) outcome" where
  "sys_getpid s = myproc s (\<lambda>p. Ok (of_int (pid (procs s p))) s)"

definition sys_fork :: "'a file_state_scheme \<Rightarrow> (u64, 'a file_state_scheme) outcome" where
  "sys_fork s = obind (fork s) (\<lambda>r s. Ok (of_int r) s)"

definition sys_wait :: "'a proc_state_scheme \<Rightarrow> (u64, 'a proc_state_scheme) outcome" where
  "sys_wait s = obind (argaddr 0 s) (\<lambda>p s. obind (wait p s) (\<lambda>r s. Ok (of_int r) s))"

definition sys_sbrk :: "'a proc_state_scheme \<Rightarrow> (u64, 'a proc_state_scheme) outcome" where
  "sys_sbrk s =
     obind (argint 0 s) (\<lambda>n s. myproc s (\<lambda>p.
       let addr = sz (procs s p) in
       obind (growproc n s) (\<lambda>r s. if r < 0 then Ok (-1) s else Ok addr s)))"

text \<open>The loop of \<open>sys_sleep\<close> with \<open>tickslock\<close> held; a sleep keeps \<open>ticks0\<close>.\<close>

definition sys_sleep_loop :: "u32 \<Rightarrow> nat \<Rightarrow> 'a tk_state_scheme \<Rightarrow> (u32 call, 'a tk_state_scheme) outcome" where
  "sys_sleep_loop ticks0 n s = myproc s (\<lambda>p.
     if unat (ticks s - ticks0) < n then
       obind (is_killed p s) (\<lambda>k s.
         if k then obind (lk_release LkTicks s) (\<lambda>_ s. Ok (Done (-1)) s)
         else suspend ticks0 (sleep ChTicks LkTicks s :: (unit, 'a tk_state_scheme) outcome))
     else obind (lk_release LkTicks s) (\<lambda>_ s. Ok (Done 0) s))"

definition sys_sleep :: "'a tk_state_scheme \<Rightarrow> (u32 call, 'a tk_state_scheme) outcome" where
  "sys_sleep s =
     obind (argint 0 s) (\<lambda>n s.
     obind (lk_acquire LkTicks s) (\<lambda>_ s. sys_sleep_loop (ticks s) (nat n) s))"

definition sys_kill :: "'a proc_state_scheme \<Rightarrow> (u64, 'a proc_state_scheme) outcome" where
  "sys_kill s = obind (argint 0 s) (\<lambda>i s. obind (kill i s) (\<lambda>r s. Ok (of_int r) s))"

definition sys_uptime :: "'a tk_state_scheme \<Rightarrow> (u64, 'a tk_state_scheme) outcome" where
  "sys_uptime s =
     obind (lk_acquire LkTicks s) (\<lambda>_ s.
     let xticks = ticks s in
     obind (lk_release LkTicks s) (\<lambda>_ s. Ok (ucast xticks) s))"

section \<open>The dispatcher\<close>

datatype sys_pos = PosIO io_wait | PosTicks u32

datatype sysret = Ret u64 | Wait sys_pos

definition ret :: "(u64, 's) outcome \<Rightarrow> (sysret, 's) outcome" where
  "ret m = obind m (\<lambda>v s. Ok (Ret v) s)"

fun sysret_of :: "('p \<Rightarrow> sys_pos) \<Rightarrow> 'p call \<Rightarrow> sysret" where
  "sysret_of g (Done r) = Ret (of_int r)"
| "sysret_of g (Blocked x) = Wait (g x)"

definition retw :: "('p \<Rightarrow> sys_pos) \<Rightarrow> ('p call, 's) outcome \<Rightarrow> (sysret, 's) outcome" where
  "retw g m = obind m (\<lambda>r s. Ok (sysret_of g r) s)"

text \<open>The table \<open>syscalls\<close> with the numbers of kernel/syscall.h; \<open>pad\<close> is the padding of \<open>struct stat\<close>.\<close>

definition syscalls :: "u8 list \<Rightarrow> int \<Rightarrow> ('a tk_state_scheme \<Rightarrow> (sysret, 'a tk_state_scheme) outcome) option" where
  "syscalls pad num =
     (if num = 1 then Some (\<lambda>s. ret (sys_fork s))
      else if num = 2 then Some (\<lambda>s. ret (sys_exit s))
      else if num = 3 then Some (\<lambda>s. ret (sys_wait s))
      else if num = 4 then Some (\<lambda>s. ret (sys_pipe s))
      else if num = 5 then Some (\<lambda>s. retw PosIO (sys_read s))
      else if num = 6 then Some (\<lambda>s. ret (sys_kill s))
      else if num = 7 then Some (\<lambda>s. ret (sys_exec s))
      else if num = 8 then Some (\<lambda>s. ret (sys_fstat pad s))
      else if num = 9 then Some (\<lambda>s. ret (sys_chdir s))
      else if num = 10 then Some (\<lambda>s. ret (sys_dup s))
      else if num = 11 then Some (\<lambda>s. ret (sys_getpid s))
      else if num = 12 then Some (\<lambda>s. ret (sys_sbrk s))
      else if num = 13 then Some (\<lambda>s. retw PosTicks (sys_sleep s))
      else if num = 14 then Some (\<lambda>s. ret (sys_uptime s))
      else if num = 15 then Some (\<lambda>s. ret (sys_open s))
      else if num = 16 then Some (\<lambda>s. retw PosIO (sys_write s))
      else if num = 17 then Some (\<lambda>s. ret (sys_mknod s))
      else if num = 18 then Some (\<lambda>s. ret (sys_unlink s))
      else if num = 19 then Some (\<lambda>s. ret (sys_link s))
      else if num = 20 then Some (\<lambda>s. ret (sys_mkdir s))
      else if num = 21 then Some (\<lambda>s. ret (sys_close s))
      else None)"

text \<open>\<open>None\<close> when the call has returned, and otherwise the position at which it sleeps.\<close>

definition syscall :: "u8 list \<Rightarrow> 'a tk_state_scheme \<Rightarrow> (sys_pos option, 'a tk_state_scheme) outcome" where
  "syscall pad s = myproc s (\<lambda>p.
     let num = sint (ucast (tf_get p TF_a7 s) :: u32) in
     case syscalls pad num of
       Some f \<Rightarrow> obind (f s) (\<lambda>r s.
         case r of Ret v \<Rightarrow> Ok None (tf_set p TF_a0 v s)
         | Wait w \<Rightarrow> Ok (Some w) s)
     | None \<Rightarrow>
         obind (printf (str ''%d %s: unknown sys call %d'' @ [NEWLINE])
           [AInt (word_of_int (pid (procs s p))), AStr (Some (pname (procs s p))), AInt (word_of_int num)] s) (\<lambda>_ s.
         Ok None (tf_set p TF_a0 (-1) s)))"

end
