(* ===== verification/Trap.thy ===== *)
theory Trap
  imports Syscall
begin

text \<open>
  Traps (kernel/trap.c), the interrupt controller (kernel/plic.c), \<open>forkret\<close> (kernel/proc.c), the
  boot path (kernel/start.c, kernel/main.c).  The control and status registers of the hart are a
  function from their names (kernel/riscv.h); \<open>satp\<close> is the field of the virtual-memory state.  The
  interrupt controller's registers are read from \<open>plic\<close>; what a write does to them is the
  parameter \<open>pw\<close>, as \<open>wr\<close> is for the disk.  The addresses the linker gives to the assembly
  entry points are the record \<open>ksyms\<close>.
\<close>

section \<open>Registers\<close>

datatype csr = Mstatus | Mepc | Medeleg | Mideleg | Mie | Menvcfg | Mcounteren | Mhartid | Pmpaddr0 | Pmpcfg0
  | Sstatus | Sie | Sepc | Scause | Stval | Stvec | Stimecmp | Time | Tp

record ksyms =
  kernelvec :: u64
  uservec_off :: u64
  userret_off :: u64
  usertrap_addr :: u64
  main_addr :: u64

record trap_state = tk_state +
  csrs :: "csr \<Rightarrow> u64"
  plic :: "nat \<Rightarrow> u32"
  first :: bool
  started :: bool

definition r_csr :: "csr \<Rightarrow> 'a trap_state_scheme \<Rightarrow> u64" where
  "r_csr c s = csrs s c"

definition w_csr :: "csr \<Rightarrow> u64 \<Rightarrow> 'a trap_state_scheme \<Rightarrow> 'a trap_state_scheme" where
  "w_csr c v s = s\<lparr>csrs := (csrs s)(c := v)\<rparr>"

definition SSTATUS_SPP :: u64 where [simp]: "SSTATUS_SPP = push_bit 8 1"
definition SSTATUS_SPIE :: u64 where [simp]: "SSTATUS_SPIE = push_bit 5 1"
definition SSTATUS_SIE :: u64 where [simp]: "SSTATUS_SIE = push_bit 1 1"
definition MSTATUS_MPP_MASK :: u64 where [simp]: "MSTATUS_MPP_MASK = push_bit 11 3"
definition MSTATUS_MPP_S :: u64 where [simp]: "MSTATUS_MPP_S = push_bit 11 1"
definition SIE_SEIE :: u64 where [simp]: "SIE_SEIE = push_bit 9 1"
definition SIE_STIE :: u64 where [simp]: "SIE_STIE = push_bit 5 1"
definition SIE_SSIE :: u64 where [simp]: "SIE_SSIE = push_bit 1 1"
definition MIE_STIE :: u64 where [simp]: "MIE_STIE = push_bit 5 1"

definition csr_intr_on :: "'a trap_state_scheme \<Rightarrow> 'a trap_state_scheme" where
  "csr_intr_on s = w_csr Sstatus (r_csr Sstatus s OR SSTATUS_SIE) s"

definition csr_intr_off :: "'a trap_state_scheme \<Rightarrow> 'a trap_state_scheme" where
  "csr_intr_off s = w_csr Sstatus (r_csr Sstatus s AND NOT SSTATUS_SIE) s"

definition csr_intr_get :: "'a trap_state_scheme \<Rightarrow> bool" where
  "csr_intr_get s \<longleftrightarrow> r_csr Sstatus s AND SSTATUS_SIE \<noteq> 0"

definition cpuid :: "'a trap_state_scheme \<Rightarrow> nat" where
  "cpuid s = unat (r_csr Tp s)"

definition MAKE_SATP :: "u64 \<Rightarrow> u64" where
  "MAKE_SATP pt = push_bit 60 8 OR drop_bit 12 pt"

section \<open>The interrupt controller\<close>

definition UART0_IRQ :: nat where [simp]: "UART0_IRQ = 10"
definition VIRTIO0_IRQ :: nat where [simp]: "VIRTIO0_IRQ = 1"

definition PLIC_SENABLE :: "nat \<Rightarrow> nat" where [simp]: "PLIC_SENABLE hart = 0x2080 + hart * 0x100"
definition PLIC_SPRIORITY :: "nat \<Rightarrow> nat" where [simp]: "PLIC_SPRIORITY hart = 0x201000 + hart * 0x2000"
definition PLIC_SCLAIM :: "nat \<Rightarrow> nat" where [simp]: "PLIC_SCLAIM hart = 0x201004 + hart * 0x2000"

definition plic_write :: "vdev \<Rightarrow> nat \<Rightarrow> u32 \<Rightarrow> 'a trap_state_scheme \<Rightarrow> 'a trap_state_scheme" where
  "plic_write pw r v s = s\<lparr>plic := pw r v (plic s)\<rparr>"

definition plicinit :: "vdev \<Rightarrow> 'a trap_state_scheme \<Rightarrow> 'a trap_state_scheme" where
  "plicinit pw s = plic_write pw (VIRTIO0_IRQ * 4) 1 (plic_write pw (UART0_IRQ * 4) 1 s)"

definition plicinithart :: "vdev \<Rightarrow> 'a trap_state_scheme \<Rightarrow> 'a trap_state_scheme" where
  "plicinithart pw s =
     (let hart = cpuid s;
          s = plic_write pw (PLIC_SENABLE hart) (push_bit UART0_IRQ 1 OR push_bit VIRTIO0_IRQ 1) s
      in plic_write pw (PLIC_SPRIORITY hart) 0 s)"

definition plic_claim :: "'a trap_state_scheme \<Rightarrow> u32" where
  "plic_claim s = plic s (PLIC_SCLAIM (cpuid s))"

definition plic_complete :: "vdev \<Rightarrow> u32 \<Rightarrow> 'a trap_state_scheme \<Rightarrow> 'a trap_state_scheme" where
  "plic_complete pw irq s = plic_write pw (PLIC_SCLAIM (cpuid s)) irq s"

section \<open>Interrupts\<close>

definition trapinit :: "'a trap_state_scheme \<Rightarrow> 'a trap_state_scheme" where
  "trapinit s = lk_init LkTicks s"

definition trapinithart :: "ksyms \<Rightarrow> 'a trap_state_scheme \<Rightarrow> 'a trap_state_scheme" where
  "trapinithart k s = w_csr Stvec (kernelvec k) s"

definition clockintr :: "'a trap_state_scheme \<Rightarrow> (unit, 'a trap_state_scheme) outcome" where
  "clockintr s =
     obind (if cpuid s = 0 then
              obind (lk_acquire LkTicks s) (\<lambda>_ s.
              obind (wakeup (Some ChTicks) (s\<lparr>ticks := ticks s + 1\<rparr>)) (\<lambda>_ s. lk_release LkTicks s))
            else Ok () s) (\<lambda>_ s.
     Ok () (w_csr Stimecmp (r_csr Time s + 1000000) s))"

definition devintr :: "vdev \<Rightarrow> vdev \<Rightarrow> 'a trap_state_scheme \<Rightarrow> (nat, 'a trap_state_scheme) outcome" where
  "devintr wr pw s =
     (let scause = r_csr Scause s in
      if scause = 0x8000000000000009 then
        let irq = plic_claim s in
        obind (if irq = of_nat UART0_IRQ then uartintr s
               else if irq = of_nat VIRTIO0_IRQ then virtio_disk_intr wr s
               else if irq \<noteq> 0 then printf (str ''unexpected interrupt irq=%d'' @ [NEWLINE]) [AInt irq] s
               else Ok () s) (\<lambda>_ s.
        Ok 1 (if irq \<noteq> 0 then plic_complete pw irq s else s))
      else if scause = 0x8000000000000005 then obind (clockintr s) (\<lambda>_ s. Ok 2 s)
      else Ok 0 s)"

section \<open>Traps from user space and from the kernel\<close>

text \<open>
  Where a trap from user space ends: in the trampoline with the page table to switch to, asleep
  in a system call, or waiting to be scheduled again after a yield.
\<close>

datatype trap_end = ToUser u64 u64 | Asleep sys_pos | Yielded

definition usertrapret :: "ksyms \<Rightarrow> 'a trap_state_scheme \<Rightarrow> (trap_end, 'a trap_state_scheme) outcome" where
  "usertrapret k s = myproc s (\<lambda>p.
     let s = csr_intr_off s;
         s = w_csr Stvec (TRAMPOLINE + uservec_off k) s;
         s = tf_set p TF_kernel_satp (satp s) s;
         s = tf_set p TF_kernel_sp (kstack (procs s p) + PGSIZE) s;
         s = tf_set p TF_kernel_trap (usertrap_addr k) s;
         s = tf_set p TF_kernel_hartid (r_csr Tp s) s;
         s = w_csr Sstatus ((r_csr Sstatus s AND NOT SSTATUS_SPP) OR SSTATUS_SPIE) s;
         s = w_csr Sepc (tf_get p TF_epc s) s in
     Ok (ToUser (TRAMPOLINE + userret_off k) (MAKE_SATP (pagetable (procs s p)))) s)"

text \<open>The end of \<open>usertrap\<close>, from the second test of \<open>killed\<close> on.\<close>

definition usertrap_end :: "ksyms \<Rightarrow> nat \<Rightarrow> nat \<Rightarrow> 'a trap_state_scheme \<Rightarrow> (trap_end, 'a trap_state_scheme) outcome" where
  "usertrap_end k p which_dev s =
     obind (is_killed p s) (\<lambda>kd s.
       if kd then exit (-1) s
       else if which_dev = 2 then obind (yield s) (\<lambda>_ s. Ok Yielded s)
       else usertrapret k s)"

definition usertrap :: "ksyms \<Rightarrow> vdev \<Rightarrow> vdev \<Rightarrow> u8 list \<Rightarrow> 'a trap_state_scheme
    \<Rightarrow> (trap_end, 'a trap_state_scheme) outcome" where
  "usertrap k wr pw pad s =
     (if r_csr Sstatus s AND SSTATUS_SPP \<noteq> 0 then Panic ''usertrap: not from user mode''
      else
        let s = w_csr Stvec (kernelvec k) s in
        myproc s (\<lambda>p.
          let s = tf_set p TF_epc (r_csr Sepc s) s in
          if r_csr Scause s = 8 then
            obind (is_killed p s) (\<lambda>kd s.
              if kd then exit (-1) s
              else
                let s = csr_intr_on (tf_set p TF_epc (tf_get p TF_epc s + 4) s) in
                obind (syscall pad s) (\<lambda>r s.
                  case r of Some w \<Rightarrow> Ok (Asleep w) s
                  | None \<Rightarrow> usertrap_end k p 0 s))
          else
            obind (devintr wr pw s) (\<lambda>which_dev s.
              if which_dev \<noteq> 0 then usertrap_end k p which_dev s
              else
                obind (printf (str ''usertrap(): unexpected scause 0x%lx pid=%d'' @ [NEWLINE])
                  [ALong (r_csr Scause s), AInt (word_of_int (pid (procs s p)))] s) (\<lambda>_ s.
                obind (printf (str ''            sepc=0x%lx stval=0x%lx'' @ [NEWLINE])
                  [ALong (r_csr Sepc s), ALong (r_csr Stval s)] s) (\<lambda>_ s.
                obind (setkilled p s) (\<lambda>_ s. usertrap_end k p 0 s))))))"

text \<open>The rest of \<open>usertrap\<close> after a yield, and after a system call that slept has returned.\<close>

definition usertrap_resume :: "ksyms \<Rightarrow> 'a trap_state_scheme \<Rightarrow> (trap_end, 'a trap_state_scheme) outcome" where
  "usertrap_resume k s = obind (yield_resume s) (\<lambda>_ s. usertrapret k s)"

text \<open>
  \<open>kerneltrap\<close> returns whether it yielded; if so, \<open>kerneltrap_resume\<close> runs when the process has been
  picked again.
\<close>

definition kerneltrap :: "vdev \<Rightarrow> vdev \<Rightarrow> 'a trap_state_scheme \<Rightarrow> (bool, 'a trap_state_scheme) outcome" where
  "kerneltrap wr pw s =
     (let pc = r_csr Sepc s; st = r_csr Sstatus s; cause = r_csr Scause s in
      if st AND SSTATUS_SPP = 0 then Panic ''kerneltrap: not from supervisor mode''
      else if csr_intr_get s then Panic ''kerneltrap: interrupts enabled''
      else obind (devintr wr pw s) (\<lambda>which_dev s.
        if which_dev = 0 then
          obind (printf (str ''scause=0x%lx sepc=0x%lx stval=0x%lx'' @ [NEWLINE])
            [ALong cause, ALong (r_csr Sepc s), ALong (r_csr Stval s)] s) (\<lambda>_ s. Panic ''kerneltrap'')
        else if which_dev = 2 \<and> cur s \<noteq> None then obind (yield s) (\<lambda>_ s. Ok True s)
        else Ok False (w_csr Sstatus st (w_csr Sepc pc s))))"

definition kerneltrap_resume :: "u64 \<Rightarrow> u64 \<Rightarrow> 'a trap_state_scheme \<Rightarrow> (unit, 'a trap_state_scheme) outcome" where
  "kerneltrap_resume pc st s =
     obind (yield_resume s) (\<lambda>_ s. Ok () (w_csr Sstatus st (w_csr Sepc pc s)))"

definition forkret :: "ksyms \<Rightarrow> 'a trap_state_scheme \<Rightarrow> (trap_end, 'a trap_state_scheme) outcome" where
  "forkret k s = myproc s (\<lambda>p.
     obind (lk_release (LkProc p) s) (\<lambda>_ s.
     obind (if first s then obind (fsinit ROOTDEV s) (\<lambda>_ s. Ok () (s\<lparr>first := False\<rparr>)) else Ok () s) (\<lambda>_ s.
     usertrapret k s)))"

section \<open>Boot\<close>

definition timerinit :: "'a trap_state_scheme \<Rightarrow> 'a trap_state_scheme" where
  "timerinit s =
     (let s = w_csr Mie (r_csr Mie s OR MIE_STIE) s;
          s = w_csr Menvcfg (r_csr Menvcfg s OR push_bit 63 1) s;
          s = w_csr Mcounteren (r_csr Mcounteren s OR 2) s
      in w_csr Stimecmp (r_csr Time s + 1000000) s)"

text \<open>\<open>start\<close> up to \<open>mret\<close>, which jumps to the address in \<open>mepc\<close> in the mode that \<open>mstatus\<close> names.\<close>

definition start :: "ksyms \<Rightarrow> 'a trap_state_scheme \<Rightarrow> 'a trap_state_scheme" where
  "start k s =
     (let s = w_csr Mstatus ((r_csr Mstatus s AND NOT MSTATUS_MPP_MASK) OR MSTATUS_MPP_S) s;
          s = w_csr Mepc (main_addr k) s;
          s = s\<lparr>satp := 0\<rparr>;
          s = w_csr Medeleg 0xffff s;
          s = w_csr Mideleg 0xffff s;
          s = w_csr Sie (r_csr Sie s OR SIE_SEIE OR SIE_STIE OR SIE_SSIE) s;
          s = w_csr Pmpaddr0 0x3fffffffffffff s;
          s = w_csr Pmpcfg0 0xf s;
          s = timerinit s
      in w_csr Tp (scast (ucast (r_csr Mhartid s) :: u32)) s)"

text \<open>\<open>main\<close> up to the call of \<open>scheduler\<close>; a hart other than 0 spins until \<open>started\<close> is set.\<close>

definition main :: "ksyms \<Rightarrow> vdev \<Rightarrow> vdev \<Rightarrow> 'a trap_state_scheme \<Rightarrow> (unit, 'a trap_state_scheme) outcome" where
  "main k wr pw s =
     (if cpuid s = 0 then
        let s = printfinit (consoleinit s) in
        obind (printf [NEWLINE] [] s) (\<lambda>_ s.
        obind (printf (str ''xv6 kernel is booting'' @ [NEWLINE]) [] s) (\<lambda>_ s.
        obind (printf [NEWLINE] [] s) (\<lambda>_ s.
        obind (kinit s) (\<lambda>_ s.
        obind (kvminit s) (\<lambda>_ s.
        let s = procinit (kvminithart s);
            s = trapinithart k (trapinit s);
            s = plicinithart pw (plicinit pw s);
            s = fileinit (iinit (binit s)) in
        obind (virtio_disk_init wr s) (\<lambda>_ s.
        obind (userinit s) (\<lambda>_ s. Ok () (s\<lparr>started := True\<rparr>))))))))
      else if \<not> started s then Spin
      else
        obind (printf (str ''hart %d starting'' @ [NEWLINE]) [AInt (word_of_nat (cpuid s))] s) (\<lambda>_ s.
        Ok () (plicinithart pw (trapinithart k (kvminithart s)))))"

end
