(* ===== verification/Ulib.thy ===== *)
theory Ulib
  imports Cstring
begin

text \<open>
  The library of user programs (user/ulib.c, user/printf.c).  The string functions work on the bytes
  of the process; a loop that looks for a NUL runs until it finds one.  System calls are a parameter:
  the record \<open>os\<close> has one function per call on a state \<open>'w\<close> of the world, and a program returns an
  \<open>outcome\<close> on that state, \<open>Gone\<close> when it has called \<open>exit\<close>.
\<close>

section \<open>ulib.c: strings and memory\<close>

partial_function (option) strcpy_loop :: "bytes \<Rightarrow> nat \<Rightarrow> nat \<Rightarrow> bytes option" where
  "strcpy_loop m s t =
     (if m t = 0 then Some (m(s := 0)) else strcpy_loop (m(s := m t)) (Suc s) (Suc t))"

definition strcpy :: "bytes \<Rightarrow> nat \<Rightarrow> nat \<Rightarrow> bytes option" where
  "strcpy m s t = strcpy_loop m s t"

partial_function (option) strcmp :: "bytes \<Rightarrow> nat \<Rightarrow> nat \<Rightarrow> int option" where
  "strcmp m p q =
     (if m p \<noteq> 0 \<and> m p = m q then strcmp m (Suc p) (Suc q) else Some (uint (m p) - uint (m q)))"

partial_function (option) ustrlen_from :: "bytes \<Rightarrow> nat \<Rightarrow> nat \<Rightarrow> nat option" where
  "ustrlen_from m s n = (if m (s + n) \<noteq> 0 then ustrlen_from m s (Suc n) else Some n)"

definition ustrlen :: "bytes \<Rightarrow> nat \<Rightarrow> nat option" where
  "ustrlen m s = ustrlen_from m s 0"

fun umemset_loop :: "nat \<Rightarrow> bytes \<Rightarrow> nat \<Rightarrow> u8 \<Rightarrow> nat \<Rightarrow> bytes" where
  "umemset_loop 0 m dst c i = m"
| "umemset_loop (Suc left) m dst c i = umemset_loop left (m(dst + i := c)) dst c (Suc i)"

definition umemset :: "bytes \<Rightarrow> nat \<Rightarrow> u32 \<Rightarrow> nat \<Rightarrow> bytes" where
  "umemset m dst c n = umemset_loop n m dst (ucast c) 0"

text \<open>The result of \<open>strchr\<close> is an address, or null.\<close>

partial_function (option) strchr :: "bytes \<Rightarrow> nat \<Rightarrow> u8 \<Rightarrow> nat option option" where
  "strchr m s c =
     (if m s = 0 then Some None else if m s = c then Some (Some s) else strchr m (Suc s) c)"

text \<open>\<open>strchr\<close> on the list of the bytes of a string.\<close>

fun find0 :: "u8 \<Rightarrow> u8 list \<Rightarrow> nat option" where
  "find0 c [] = None"
| "find0 c (x # xs) = (if x = 0 then None else if x = c then Some 0 else map_option Suc (find0 c xs))"

lemma find0_less: "find0 c xs = Some k \<Longrightarrow> k < length xs"
  by (induction xs arbitrary: k) (auto split: if_splits)

lemma strchr_find0:
  assumes "\<And>i. i < length xs \<Longrightarrow> m (s + i) = xs ! i" and "m (s + length xs) = 0"
  shows "strchr m s c = Some (map_option ((+) s) (find0 c xs))"
  using assms
proof (induction xs arbitrary: s)
  case Nil
  then show ?case by (subst strchr.simps) simp
next
  case (Cons x xs)
  have "strchr m (Suc s) c = Some (map_option ((+) (Suc s)) (find0 c xs))"
    using Cons.prems(1) [of "Suc _"] Cons.prems(2) by (intro Cons.IH) auto
  moreover have "m s = x" using Cons.prems(1) [of 0] by simp
  ultimately show ?case by (subst strchr.simps) (cases "find0 c xs"; simp)
qed

fun umemmove_down :: "nat \<Rightarrow> bytes \<Rightarrow> nat \<Rightarrow> nat \<Rightarrow> bytes" where
  "umemmove_down 0 m dst src = m"
| "umemmove_down (Suc n) m dst src = umemmove_down n (m(dst := m src)) (dst + 1) (src + 1)"

fun umemmove_up :: "nat \<Rightarrow> bytes \<Rightarrow> nat \<Rightarrow> nat \<Rightarrow> bytes" where
  "umemmove_up 0 m dst src = m"
| "umemmove_up (Suc n) m dst src = umemmove_up n (m(dst - 1 := m (src - 1))) (dst - 1) (src - 1)"

definition umemmove :: "bytes \<Rightarrow> nat \<Rightarrow> nat \<Rightarrow> int \<Rightarrow> bytes" where
  "umemmove m dst src n =
     (if dst < src then umemmove_down (nat n) m dst src
      else umemmove_up (nat n) m (nat (int dst + n)) (nat (int src + n)))"

fun umemcmp :: "bytes \<Rightarrow> nat \<Rightarrow> nat \<Rightarrow> nat \<Rightarrow> int" where
  "umemcmp m p1 p2 0 = 0"
| "umemcmp m p1 p2 (Suc n) =
     (if m p1 \<noteq> m p2 then uint (m p1) - uint (m p2) else umemcmp m (p1 + 1) (p2 + 1) n)"

definition umemcpy :: "bytes \<Rightarrow> nat \<Rightarrow> nat \<Rightarrow> int \<Rightarrow> bytes" where
  "umemcpy m dst src n = umemmove m dst src n"

text \<open>\<open>atoi\<close> on the bytes of the string; overflow of the \<open>int\<close> is undefined.\<close>

fun atoi_loop :: "int \<Rightarrow> u8 list \<Rightarrow> int option" where
  "atoi_loop n [] = Some n"
| "atoi_loop n (c # s) =
     (if 48 \<le> c \<and> c \<le> 57
      then (if n * 10 + uint c \<ge> 2 ^ 31 then None else atoi_loop (n * 10 + uint c - 48) s)
      else Some n)"

definition atoi :: "u8 list \<Rightarrow> int option" where
  "atoi s = atoi_loop 0 s"

section \<open>System calls\<close>

text \<open>
  \<open>os_read\<close> also yields the bytes stored in the buffer, \<open>os_pipe\<close> the two descriptors.  \<open>os_fork\<close> takes what
  the child does, that is, the code that runs where \<open>fork\<close> returns 0, and returns in the parent.
  \<open>os_exec\<close> returns only when it fails.
\<close>

record 'w os =
  os_exit :: "int \<Rightarrow> 'w \<Rightarrow> 'w"
  os_read :: "int \<Rightarrow> int \<Rightarrow> 'w \<Rightarrow> (int \<times> u8 list) \<times> 'w"
  os_write :: "int \<Rightarrow> u8 list \<Rightarrow> 'w \<Rightarrow> int \<times> 'w"
  os_open :: "u8 list \<Rightarrow> u32 \<Rightarrow> 'w \<Rightarrow> int \<times> 'w"
  os_close :: "int \<Rightarrow> 'w \<Rightarrow> int \<times> 'w"
  os_fstat :: "int \<Rightarrow> 'w \<Rightarrow> (int \<times> stat) \<times> 'w"
  os_link :: "u8 list \<Rightarrow> u8 list \<Rightarrow> 'w \<Rightarrow> int \<times> 'w"
  os_unlink :: "u8 list \<Rightarrow> 'w \<Rightarrow> int \<times> 'w"
  os_mkdir :: "u8 list \<Rightarrow> 'w \<Rightarrow> int \<times> 'w"
  os_mknod :: "u8 list \<Rightarrow> int \<Rightarrow> int \<Rightarrow> 'w \<Rightarrow> int \<times> 'w"
  os_kill :: "int \<Rightarrow> 'w \<Rightarrow> int \<times> 'w"
  os_dup :: "int \<Rightarrow> 'w \<Rightarrow> int \<times> 'w"
  os_chdir :: "u8 list \<Rightarrow> 'w \<Rightarrow> int \<times> 'w"
  os_pipe :: "'w \<Rightarrow> (int \<times> int \<times> int) \<times> 'w"
  os_fork :: "('w \<Rightarrow> (unit, 'w) outcome) \<Rightarrow> 'w \<Rightarrow> int \<times> 'w"
  os_wait :: "'w \<Rightarrow> int \<times> 'w"
  os_exec :: "u8 list \<Rightarrow> u8 list list \<Rightarrow> 'w \<Rightarrow> (int, 'w) outcome"
  os_sleep :: "int \<Rightarrow> 'w \<Rightarrow> int \<times> 'w"
  os_sbrk :: "int \<Rightarrow> 'w \<Rightarrow> u64 \<times> 'w"

definition uexit :: "'w os \<Rightarrow> int \<Rightarrow> 'w \<Rightarrow> ('a, 'w) outcome" where
  "uexit u n w = Gone (os_exit u n w)"

definition ucall :: "('a \<times> 'w) \<Rightarrow> ('a, 'w) outcome" where
  "ucall r = (case r of (a, w) \<Rightarrow> Ok a w)"

text \<open>The wrapper \<open>start\<close> around \<open>main\<close>.\<close>

definition ustart :: "'w os \<Rightarrow> ('w \<Rightarrow> (unit, 'w) outcome) \<Rightarrow> 'w \<Rightarrow> (unit, 'w) outcome" where
  "ustart u main w = obind (main w) (\<lambda>_ w. uexit u 0 w)"

text \<open>\<open>gets\<close> with \<open>i\<close> bytes already in the buffer, \<open>left\<close> turns of the loop to go.\<close>

fun gets_loop :: "'w os \<Rightarrow> nat \<Rightarrow> u8 list \<Rightarrow> 'w \<Rightarrow> (u8 list, 'w) outcome" where
  "gets_loop u 0 buf w = Ok buf w"
| "gets_loop u (Suc left) buf w =
     obind (ucall (os_read u 0 1 w)) (\<lambda>(cc, cs) w.
       if cc < 1 then Ok buf w
       else let c = nth0 cs 0; buf = buf @ [c] in
         if c = 10 \<or> c = 13 then Ok buf w else gets_loop u left buf w)"

text \<open>The string that \<open>gets\<close> leaves in the buffer, whose bytes may contain a NUL.\<close>

definition gets :: "'w os \<Rightarrow> nat \<Rightarrow> 'w \<Rightarrow> (u8 list, 'w) outcome" where
  "gets u nbuf w = obind (gets_loop u (nbuf - 1) [] w) (\<lambda>buf w. Ok (buf @ [0]) w)"

definition ustat_call :: "'w os \<Rightarrow> u8 list \<Rightarrow> 'w \<Rightarrow> (int \<times> stat option, 'w) outcome" where
  "ustat_call u n w =
     obind (ucall (os_open u n O_RDONLY w)) (\<lambda>fd w.
       if fd < 0 then Ok (-1, None) w
       else obind (ucall (os_fstat u fd w)) (\<lambda>(r, st) w.
         obind (ucall (os_close u fd w)) (\<lambda>_ w. Ok (r, Some st) w)))"

section \<open>printf.c\<close>

definition udigit :: "nat \<Rightarrow> u8" where
  "udigit d = (if d < 10 then word_of_nat (48 + d) else word_of_nat (65 + (d - 10)))"

definition uputc :: "'w os \<Rightarrow> int \<Rightarrow> u8 \<Rightarrow> 'w \<Rightarrow> (unit, 'w) outcome" where
  "uputc u fd c w = obind (ucall (os_write u fd [c] w)) (\<lambda>_ w. Ok () w)"

fun uputs :: "'w os \<Rightarrow> int \<Rightarrow> u8 list \<Rightarrow> 'w \<Rightarrow> (unit, 'w) outcome" where
  "uputs u fd [] w = Ok () w"
| "uputs u fd (c # cs) w = obind (uputc u fd c w) (\<lambda>_ w. uputs u fd cs w)"

text \<open>The do-while loop of \<open>printint\<close> on the \<open>uint\<close> \<open>x\<close>; the base is 10 or 16.\<close>

function uprintint_digits :: "u32 \<Rightarrow> u32 \<Rightarrow> u8 list \<Rightarrow> u8 list" where
  "uprintint_digits base x buf =
     (let buf = buf @ [udigit (unat (x mod base))] in
      if x div base \<noteq> 0 \<and> 1 < base then uprintint_digits base (x div base) buf else buf)"
  by pat_completeness auto
termination
  by (relation "measure (\<lambda>(base, x, buf). unat x)")
    (auto simp: unat_div word_less_nat_alt intro!: div_less_dividend, metis div_0 unat_gt_0)

definition uprintint_chars :: "u32 \<Rightarrow> u32 \<Rightarrow> bool \<Rightarrow> u8 list" where
  "uprintint_chars xx base sign =
     (let neg = sign \<and> sint xx < 0; x = (if neg then - xx else xx);
          buf = uprintint_digits base x []
      in rev (if neg then buf @ [45] else buf))"

definition uprintint :: "'w os \<Rightarrow> int \<Rightarrow> u32 \<Rightarrow> u32 \<Rightarrow> bool \<Rightarrow> 'w \<Rightarrow> (unit, 'w) outcome" where
  "uprintint u fd xx base sign w =
     (if sign \<and> sint xx = - (2 ^ 31) then Undef else uputs u fd (uprintint_chars xx base sign) w)"

fun uprintptr_loop :: "nat \<Rightarrow> u64 \<Rightarrow> u8 list" where
  "uprintptr_loop 0 x = []"
| "uprintptr_loop (Suc n) x = udigit (unat (drop_bit 60 x)) # uprintptr_loop n (push_bit 4 x)"

definition uprintptr :: "'w os \<Rightarrow> int \<Rightarrow> u64 \<Rightarrow> 'w \<Rightarrow> (unit, 'w) outcome" where
  "uprintptr u fd x w = uputs u fd (48 # 120 # uprintptr_loop 16 x) w"

text \<open>
  A conversion of \<open>vprintf\<close>, with \<open>fmt\<close> the format after the percent sign; the result is what remains
  of the format and of the arguments.  A 64-bit argument is passed on to \<open>printint\<close> as an \<open>int\<close>.
\<close>

definition uprintf_conv :: "'w os \<Rightarrow> int \<Rightarrow> u8 list \<Rightarrow> printf_arg list \<Rightarrow> 'w
    \<Rightarrow> (u8 list \<times> printf_arg list, 'w) outcome" where
  "uprintf_conv u fd fmt as w =
     (let c0 = nth0 fmt 0; c1 = (if c0 \<noteq> 0 then nth0 fmt 1 else 0); c2 = (if c1 \<noteq> 0 then nth0 fmt 2 else 0);
          int_arg = (\<lambda>base sign skip. case va_int as of None \<Rightarrow> Undef
            | Some (x, as) \<Rightarrow> obind (uprintint u fd x base sign w) (\<lambda>_ w. Ok (drop skip fmt, as) w));
          long_arg = (\<lambda>base sign skip. case va_long as of None \<Rightarrow> Undef
            | Some (x, as) \<Rightarrow> obind (uprintint u fd (ucast x) base sign w) (\<lambda>_ w. Ok (drop skip fmt, as) w))
      in if c0 = 100 then int_arg 10 True 1
      else if c0 = 108 \<and> c1 = 100 then long_arg 10 True 2
      else if c0 = 108 \<and> c1 = 108 \<and> c2 = 100 then long_arg 10 True 3
      else if c0 = 117 then int_arg 10 False 1
      else if c0 = 108 \<and> c1 = 117 then long_arg 10 False 2
      else if c0 = 108 \<and> c1 = 108 \<and> c2 = 117 then long_arg 10 False 3
      else if c0 = 120 then int_arg 16 False 1
      else if c0 = 108 \<and> c1 = 120 then long_arg 16 False 2
      else if c0 = 108 \<and> c1 = 108 \<and> c2 = 120 then long_arg 16 False 3
      else if c0 = 112 then
        (case va_long as of None \<Rightarrow> Undef
         | Some (x, as) \<Rightarrow> obind (uprintptr u fd x w) (\<lambda>_ w. Ok (drop 1 fmt, as) w))
      else if c0 = 115 then
        (case va_str as of None \<Rightarrow> Undef
         | Some (s, as) \<Rightarrow>
             obind (uputs u fd (case s of None \<Rightarrow> str ''(null)'' | Some cs \<Rightarrow> cs) w) (\<lambda>_ w. Ok (drop 1 fmt, as) w))
      else if c0 = 37 then obind (uputc u fd 37 w) (\<lambda>_ w. Ok (drop 1 fmt, as) w)
      else obind (uputc u fd 37 w) (\<lambda>_ w. obind (uputc u fd c0 w) (\<lambda>_ w. Ok (drop 1 fmt, as) w)))"

text \<open>
  The loop over the format.  A percent sign at the end only changes the state of the loop; each turn
  consumes at least one character, so the length of the format bounds the turns.
\<close>

fun vprintf_loop :: "nat \<Rightarrow> 'w os \<Rightarrow> int \<Rightarrow> u8 list \<Rightarrow> printf_arg list \<Rightarrow> 'w \<Rightarrow> (unit, 'w) outcome" where
  "vprintf_loop 0 u fd fmt as w = Ok () w"
| "vprintf_loop (Suc n) u fd fmt as w =
     (case fmt of [] \<Rightarrow> Ok () w
      | c # fmt \<Rightarrow>
          if c \<noteq> 37 then obind (uputc u fd c w) (\<lambda>_ w. vprintf_loop n u fd fmt as w)
          else if fmt = [] then Ok () w
          else obind (uprintf_conv u fd fmt as w) (\<lambda>(fmt, as) w. vprintf_loop n u fd fmt as w))"

definition vprintf :: "'w os \<Rightarrow> int \<Rightarrow> u8 list \<Rightarrow> printf_arg list \<Rightarrow> 'w \<Rightarrow> (unit, 'w) outcome" where
  "vprintf u fd fmt as w = vprintf_loop (length fmt) u fd fmt as w"

definition fprintf :: "'w os \<Rightarrow> int \<Rightarrow> u8 list \<Rightarrow> printf_arg list \<Rightarrow> 'w \<Rightarrow> (unit, 'w) outcome" where
  "fprintf u fd fmt as w = vprintf u fd fmt as w"

definition uprintf :: "'w os \<Rightarrow> u8 list \<Rightarrow> printf_arg list \<Rightarrow> 'w \<Rightarrow> (unit, 'w) outcome" where
  "uprintf u fmt as w = vprintf u 1 fmt as w"

end
