(* ===== verification/Grep.thy ===== *)
theory Grep
  imports Ulib
begin

text \<open>
  The pattern matcher of user/grep.c and its line loop.  A C string is the list of its bytes before
  the NUL, and \<open>nth0\<close> reads it at an index, the NUL included.
\<close>

section \<open>The matcher\<close>

definition CARET :: u8 where "CARET = 94"
definition STAR :: u8 where "STAR = 42"
definition DOT :: u8 where "DOT = 46"
definition DOLLAR :: u8 where "DOLLAR = 36"

function matchhere :: "u8 list \<Rightarrow> u8 list \<Rightarrow> bool" and matchstar :: "u8 \<Rightarrow> u8 list \<Rightarrow> u8 list \<Rightarrow> bool" where
  "matchhere re tx =
     (if re = [] then True
      else if nth0 re 1 = STAR then matchstar (nth0 re 0) (drop 2 re) tx
      else if nth0 re 0 = DOLLAR \<and> length re = 1 then tx = []
      else if tx \<noteq> [] \<and> (nth0 re 0 = DOT \<or> nth0 re 0 = nth0 tx 0)
        then matchhere (tl re) (tl tx)
      else False)"
| "matchstar c re tx =
     (if matchhere re tx then True
      else if tx \<noteq> [] \<and> (nth0 tx 0 = c \<or> c = DOT) then matchstar c re (tl tx)
      else False)"
  by pat_completeness auto
termination
  by (relation "measures [\<lambda>x. case x of Inl (re, t) \<Rightarrow> length re | Inr (c, re, t) \<Rightarrow> Suc (length re),
      \<lambda>x. case x of Inl (re, t) \<Rightarrow> length t | Inr (c, re, t) \<Rightarrow> length t]")
    (auto simp: STAR_def nth0_def split: if_splits)

declare matchhere.simps [simp del] matchstar.simps [simp del]

fun match_loop :: "u8 list \<Rightarrow> u8 list \<Rightarrow> bool" where
  "match_loop re [] = matchhere re []"
| "match_loop re (x # tx) = (if matchhere re (x # tx) then True else match_loop re tx)"

definition match :: "u8 list \<Rightarrow> u8 list \<Rightarrow> bool" where
  "match re tx =
     (if nth0 re 0 = CARET then matchhere (tl re) tx else match_loop re tx)"

section \<open>The meaning of a pattern\<close>

text \<open>
  A pattern is a sequence of items, each one character class or any number of characters of a
  class, and may be tied to the end of the text.
\<close>

datatype item = One u8 | Many u8

fun items :: "u8 list \<Rightarrow> item list" where
  "items [] = []"
| "items [c] = (if c = DOLLAR then [] else [One c])"
| "items (c # d # re) = (if d = STAR then Many c # items re else One c # items (d # re))"

fun tied :: "u8 list \<Rightarrow> bool" where
  "tied [] = False"
| "tied [c] = (c = DOLLAR)"
| "tied (c # d # re) = (if d = STAR then tied re else tied (d # re))"

definition cls :: "u8 \<Rightarrow> u8 set" where
  "cls c = (if c = DOT then UNIV else {c})"

fun lang :: "item list \<Rightarrow> u8 list set" where
  "lang [] = {[]}"
| "lang (One c # is) = {x # w |x w. x \<in> cls c \<and> w \<in> lang is}"
| "lang (Many c # is) = {v @ w |v w. set v \<subseteq> cls c \<and> w \<in> lang is}"

definition here :: "u8 list \<Rightarrow> u8 list \<Rightarrow> bool" where
  "here re tx \<longleftrightarrow> (\<exists>w post. tx = w @ post \<and> w \<in> lang (items re) \<and> (tied re \<longrightarrow> post = []))"

lemma in_cls: "x \<in> cls c \<longleftrightarrow> c = DOT \<or> c = x"
  by (auto simp: cls_def)

lemma hereI: "tx = w @ post \<Longrightarrow> w \<in> lang (items re) \<Longrightarrow> (tied re \<longrightarrow> post = []) \<Longrightarrow> here re tx"
  unfolding here_def by blast

lemma hereE:
  assumes "here re tx"
  obtains w post where "tx = w @ post" "w \<in> lang (items re)" "tied re \<longrightarrow> post = []"
  using assms unfolding here_def by blast

lemma lang_many: "w \<in> lang (Many c # is) \<longleftrightarrow> (\<exists>v u. w = v @ u \<and> set v \<subseteq> cls c \<and> u \<in> lang is)"
  by auto

lemma here_many: "here (c # STAR # re) tx \<longleftrightarrow> (\<exists>v t. tx = v @ t \<and> set v \<subseteq> cls c \<and> here re t)"
proof
  assume "here (c # STAR # re) tx"
  then obtain w post where 1: "tx = w @ post" "w \<in> lang (Many c # items re)" "tied re \<longrightarrow> post = []"
    by (elim hereE) simp
  then obtain v u where 2: "w = v @ u" "set v \<subseteq> cls c" "u \<in> lang (items re)" unfolding lang_many by blast
  have "here re (u @ post)" by (rule hereI [OF refl 2(3) 1(3)])
  then show "\<exists>v t. tx = v @ t \<and> set v \<subseteq> cls c \<and> here re t"
    using 1(1) 2(1,2) by (intro exI [of _ v] exI [of _ "u @ post"]) simp
next
  assume "\<exists>v t. tx = v @ t \<and> set v \<subseteq> cls c \<and> here re t"
  then obtain v t where 1: "tx = v @ t" "set v \<subseteq> cls c" "here re t" by blast
  from 1(3) obtain u post where 2: "t = u @ post" "u \<in> lang (items re)" "tied re \<longrightarrow> post = []" by (rule hereE)
  have "v @ u \<in> lang (Many c # items re)" unfolding lang_many using 1(2) 2(2) by blast
  then show "here (c # STAR # re) tx"
    by (intro hereI [of _ "v @ u" post]) (use 1 2 in simp_all)
qed

lemma here_star: "here (c # STAR # re) tx \<longleftrightarrow>
    here re tx \<or> (tx \<noteq> [] \<and> hd tx \<in> cls c \<and> here (c # STAR # re) (tl tx))"
proof
  assume "here (c # STAR # re) tx"
  then obtain v t where *: "tx = v @ t" "set v \<subseteq> cls c" "here re t" unfolding here_many by blast
  then show "here re tx \<or> (tx \<noteq> [] \<and> hd tx \<in> cls c \<and> here (c # STAR # re) (tl tx))"
    by (cases v) (auto simp: here_many)
next
  assume "here re tx \<or> (tx \<noteq> [] \<and> hd tx \<in> cls c \<and> here (c # STAR # re) (tl tx))"
  then consider "here re tx" | v t where "tx \<noteq> []" "hd tx \<in> cls c" "tl tx = v @ t" "set v \<subseteq> cls c" "here re t"
    unfolding here_many by blast
  then show "here (c # STAR # re) tx"
  proof cases
    case 1
    then show ?thesis unfolding here_many by (intro exI [of _ "[]"] exI [of _ tx]) simp
  next
    case 2
    then show ?thesis unfolding here_many
      by (intro exI [of _ "hd tx # v"] exI [of _ t]) (cases tx; auto)
  qed
qed

lemma here_one:
  assumes "re = [] \<or> hd re \<noteq> STAR" and "\<not> (c = DOLLAR \<and> re = [])"
  shows "here (c # re) tx \<longleftrightarrow> (\<exists>x t. tx = x # t \<and> x \<in> cls c \<and> here re t)"
proof -
  have i: "items (c # re) = One c # items re" "tied (c # re) = tied re"
    using assms by (cases re; auto)+
  show ?thesis
  proof
    assume "here (c # re) tx"
    then obtain w post where 1: "tx = w @ post" "w \<in> lang (One c # items re)" "tied re \<longrightarrow> post = []"
      by (elim hereE) (simp add: i)
    then obtain x u where 2: "w = x # u" "x \<in> cls c" "u \<in> lang (items re)" by auto
    have "here re (u @ post)" by (rule hereI [OF refl 2(3) 1(3)])
    then show "\<exists>x t. tx = x # t \<and> x \<in> cls c \<and> here re t" using 1(1) 2(1,2) by simp
  next
    assume "\<exists>x t. tx = x # t \<and> x \<in> cls c \<and> here re t"
    then obtain x t where 1: "tx = x # t" "x \<in> cls c" "here re t" by blast
    from 1(3) obtain u post where 2: "t = u @ post" "u \<in> lang (items re)" "tied re \<longrightarrow> post = []" by (rule hereE)
    show "here (c # re) tx" by (intro hereI [of _ "x # u" post]) (use 1 2 in \<open>simp_all add: i\<close>)
  qed
qed

lemma here_simple [simp]: "here [] tx" "here [DOLLAR] tx = (tx = [])"
  by (auto simp: here_def)

lemma matchhere_matchstar:
  "matchhere re tx = here re tx"
  "matchstar c re tx = here (c # STAR # re) tx"
proof (induction re tx and c re tx rule: matchhere_matchstar.induct)
  case (1 re tx)
  show ?case
  proof (cases re)
    case Nil
    then show ?thesis by (simp add: matchhere.simps)
  next
    case (Cons c r)
    show ?thesis
    proof (cases "r \<noteq> [] \<and> hd r = STAR")
      case True
      then obtain r' where "r = STAR # r'" by (cases r) auto
      then show ?thesis using 1(1) Cons by (subst matchhere.simps) simp
    next
      case False
      then have n: "nth0 re 1 \<noteq> STAR" using Cons by (cases r) (auto simp: STAR_def)
      show ?thesis
      proof (cases "c = DOLLAR \<and> r = []")
        case True
        then show ?thesis using Cons n by (subst matchhere.simps) simp
      next
        case 2: False
        have "matchhere re tx \<longleftrightarrow> tx \<noteq> [] \<and> hd tx \<in> cls c \<and> matchhere (tl re) (tl tx)"
          using 2 n Cons by (subst matchhere.simps) (auto simp: in_cls nth0_def hd_conv_nth)
        also have "\<dots> \<longleftrightarrow> tx \<noteq> [] \<and> hd tx \<in> cls c \<and> here r (tl tx)"
          using 1(2) 2 n Cons by (auto simp: in_cls nth0_def hd_conv_nth)
        also have "\<dots> \<longleftrightarrow> here re tx"
          using here_one [of r c tx] False 2 Cons by (cases tx) auto
        finally show ?thesis .
      qed
    qed
  qed
next
  case (2 c re tx)
  show ?case
    using 2 by (subst matchstar.simps, subst here_star) (auto simp: in_cls nth0_def hd_conv_nth)
qed

lemma match_loop_iff: "match_loop re tx \<longleftrightarrow> (\<exists>pre t. tx = pre @ t \<and> here re t)"
proof (induction tx)
  case (Cons x tx)
  have "(\<exists>pre t. x # tx = pre @ t \<and> here re t) \<longleftrightarrow> here re (x # tx) \<or> (\<exists>pre t. tx = pre @ t \<and> here re t)"
    unfolding Cons_eq_append_conv by blast
  then show ?case using Cons by (simp add: matchhere_matchstar)
qed (simp add: matchhere_matchstar)

definition caret :: "u8 list \<Rightarrow> bool" where
  "caret re \<longleftrightarrow> re \<noteq> [] \<and> hd re = CARET"

text \<open>
  C16: \<open>match\<close> decides the language of the pattern: it says yes exactly when some part of the text, cut
  anywhere, is a sequence of characters the items of the pattern describe, where a leading
  \<open>^\<close> ties that part to the start of the text and a final \<open>$\<close> to its end.
\<close>

theorem match_correct:
  "match re tx \<longleftrightarrow>
     (let body = (if caret re then tl re else re)
      in \<exists>pre w post. tx = pre @ w @ post \<and> w \<in> lang (items body) \<and>
           (caret re \<longrightarrow> pre = []) \<and> (tied body \<longrightarrow> post = []))"
proof (cases "caret re")
  case True
  then have "match re tx = here (tl re) tx"
    by (cases re) (simp_all add: match_def caret_def matchhere_matchstar)
  then show ?thesis using True by (simp add: here_def Let_def)
next
  case False
  then have "match re tx = (\<exists>pre t. tx = pre @ t \<and> here re t)"
    by (cases re) (simp_all add: match_def caret_def match_loop_iff CARET_def)
  also have "\<dots> \<longleftrightarrow> (\<exists>pre w post. tx = pre @ w @ post \<and> w \<in> lang (items re) \<and> (tied re \<longrightarrow> post = []))"
    by (rule iff_exI) (auto simp: here_def)
  finally show ?thesis using False by (simp add: Let_def)
qed

text \<open>\<open>bd$\<close> matches \<open>abd\<close>, at its end.\<close>

theorem match_correct_witness:
  "match [98, 100, 36] [97, 98, 100] \<and>
   (\<exists>pre w post. [97, 98, 100] = pre @ w @ post \<and> w \<in> lang [One 98, One 100] \<and> (tied [98, 100, 36] \<longrightarrow> post = []))"
proof -
  have m: "match [98, 100, 36] [97, 98, 100]"
    by (simp add: match_def matchhere.simps CARET_def STAR_def DOT_def DOLLAR_def nth0_def)
  have "items [98, 100, 36] = [One 98, One 100]" "\<not> caret [98, 100, 36]"
    by (simp_all add: STAR_def DOLLAR_def caret_def CARET_def)
  then show ?thesis using m match_correct [of "[98, 100, 36]" "[97, 98, 100]"] by (simp add: Let_def)
qed

section \<open>The line loop\<close>

definition NL :: u8 where "NL = 10"

text \<open>
  The inner loop of \<open>grep\<close>, with \<open>p\<close> the bytes of the buffer from \<open>p\<close> up to the terminating NUL that
  \<open>grep\<close> stores after the input; the result is what is left.
\<close>

function grep_lines :: "'w os \<Rightarrow> u8 list \<Rightarrow> u8 list \<Rightarrow> 'w \<Rightarrow> (u8 list, 'w) outcome" where
  "grep_lines u pat p w =
     (case find0 NL p of None \<Rightarrow> Ok p w
      | Some k \<Rightarrow>
          obind (if match pat (take k p)
                 then obind (ucall (os_write u 1 (take (Suc k) p) w)) (\<lambda>_ w. Ok () w) else Ok () w) (\<lambda>_ w.
          grep_lines u pat (drop (Suc k) p) w))"
  by pat_completeness auto
termination
  by (relation "measure (\<lambda>(u, pat, p, w). length p)") (auto dest: find0_less)

declare grep_lines.simps [simp del]

text \<open>
  The outer loop: \<open>rest\<close> are the \<open>m\<close> bytes at the start of \<open>buf\<close>, and \<open>fuel\<close> bounds the number of
  reads.
\<close>

definition GREP_BUF :: int where "GREP_BUF = 1024"

fun grep_loop :: "nat \<Rightarrow> 'w os \<Rightarrow> u8 list \<Rightarrow> int \<Rightarrow> u8 list \<Rightarrow> 'w \<Rightarrow> (unit, 'w) outcome" where
  "grep_loop 0 u pat fd rest w = Spin"
| "grep_loop (Suc fuel) u pat fd rest w =
     obind (ucall (os_read u fd (GREP_BUF - int (length rest) - 1) w)) (\<lambda>(n, bs) w.
       if n > 0 then obind (grep_lines u pat (rest @ bs) w) (\<lambda>rest w. grep_loop fuel u pat fd rest w)
       else Ok () w)"

definition grep :: "nat \<Rightarrow> 'w os \<Rightarrow> u8 list \<Rightarrow> int \<Rightarrow> 'w \<Rightarrow> (unit, 'w) outcome" where
  "grep fuel u pat fd w = grep_loop fuel u pat fd [] w"

fun grep_files :: "nat \<Rightarrow> 'w os \<Rightarrow> u8 list \<Rightarrow> u8 list list \<Rightarrow> 'w \<Rightarrow> (unit, 'w) outcome" where
  "grep_files fuel u pat [] w = uexit u 0 w"
| "grep_files fuel u pat (a # as) w =
     obind (ucall (os_open u a O_RDONLY w)) (\<lambda>fd w.
       if fd < 0
       then obind (uprintf u (str ''grep: cannot open %s'' @ [10]) [AStr (Some a)] w) (\<lambda>_ w. uexit u 1 w)
       else obind (grep fuel u pat fd w) (\<lambda>_ w.
         obind (ucall (os_close u fd w)) (\<lambda>_ w. grep_files fuel u pat as w)))"

definition grep_main :: "nat \<Rightarrow> 'w os \<Rightarrow> u8 list list \<Rightarrow> 'w \<Rightarrow> (unit, 'w) outcome" where
  "grep_main fuel u argv w =
     (if length argv \<le> 1
      then obind (fprintf u 2 (str ''usage: grep pattern [file ...]'' @ [10]) [] w) (\<lambda>_ w. uexit u 1 w)
      else if length argv \<le> 2 then obind (grep fuel u (argv ! 1) 0 w) (\<lambda>_ w. uexit u 0 w)
      else grep_files fuel u (argv ! 1) (drop 2 argv) w)"

section \<open>Matching lines\<close>

text \<open>The lines of a text that end in a newline, and what follows the last newline.\<close>

fun nl_split :: "u8 list \<Rightarrow> u8 list list \<times> u8 list" where
  "nl_split [] = ([], [])"
| "nl_split (x # xs) =
     (case nl_split xs of (ls, r) \<Rightarrow>
        if x = NL then ([] # ls, r) else case ls of [] \<Rightarrow> ([], x # r) | l # ls \<Rightarrow> ((x # l) # ls, r))"

definition grep_out :: "u8 list \<Rightarrow> u8 list list \<Rightarrow> u8 list" where
  "grep_out pat ls = concat (map (\<lambda>l. l @ [NL]) (filter (match pat) ls))"

lemma nl_split_none: "NL \<notin> set xs \<Longrightarrow> nl_split xs = ([], xs)"
  by (induction xs) auto

lemma nl_split_line: "NL \<notin> set l \<Longrightarrow> nl_split (l @ NL # xs) = (l # fst (nl_split xs), snd (nl_split xs))"
  by (induction l) (auto split: prod.split)

lemma nl_split_cases:
  obtains "NL \<notin> set xs" | l ys where "xs = l @ NL # ys" "NL \<notin> set l"
  by (metis split_list_first)

lemma nl_split_rest: "NL \<notin> set (snd (nl_split xs))"
  by (induction xs) (auto split: prod.splits list.splits)

lemma nl_split_append:
  "nl_split (xs @ ys) =
     (fst (nl_split xs) @ fst (nl_split (snd (nl_split xs) @ ys)), snd (nl_split (snd (nl_split xs) @ ys)))"
proof (induction xs rule: length_induct)
  case (1 xs)
  show ?case
  proof (cases xs rule: nl_split_cases)
    case 1
    then show ?thesis by (simp add: nl_split_none)
  next
    case (2 l zs)
    then have "length zs < length xs" by simp
    note IH = 1 [rule_format, OF this]
    show ?thesis by (simp add: 2 nl_split_line IH)
  qed
qed

lemma nl_split_concat: "concat (map (\<lambda>l. l @ [NL]) (fst (nl_split xs))) @ snd (nl_split xs) = xs"
  by (induction xs) (auto split: prod.splits list.splits)

lemma find0_none: "NL \<notin> set xs \<Longrightarrow> find0 NL xs = None"
  by (induction xs) auto

lemma find0_line: "NL \<notin> set l \<Longrightarrow> 0 \<notin> set l \<Longrightarrow> find0 NL (l @ NL # xs) = Some (length l)"
  by (induction l) (auto simp: NL_def)

text \<open>A world in which reading from \<open>fd\<close> yields the bytes \<open>inp\<close> and output to descriptor 1 goes to \<open>outp\<close>.\<close>

definition stream_os :: "'w os \<Rightarrow> int \<Rightarrow> ('w \<Rightarrow> u8 list) \<Rightarrow> ('w \<Rightarrow> u8 list) \<Rightarrow> bool" where
  "stream_os u fd inp outp \<longleftrightarrow>
     (\<forall>n w. \<exists>k w'. os_read u fd n w = ((int k, take k (inp w)), w') \<and> inp w' = drop k (inp w) \<and>
        outp w' = outp w \<and> k \<le> length (inp w) \<and> int k \<le> max 0 n \<and> (n > 0 \<and> inp w \<noteq> [] \<longrightarrow> 0 < k)) \<and>
     (\<forall>cs w. \<exists>r w'. os_write u 1 cs w = (r, w') \<and> inp w' = inp w \<and> outp w' = outp w @ cs)"

lemma stream_read:
  assumes "stream_os u fd inp outp"
  obtains k w' where "os_read u fd n w = ((int k, take k (inp w)), w')" "inp w' = drop k (inp w)"
    "outp w' = outp w" "k \<le> length (inp w)" "int k \<le> max 0 n" "n > 0 \<and> inp w \<noteq> [] \<longrightarrow> 0 < k"
  using assms unfolding stream_os_def by metis

lemma stream_write:
  assumes "stream_os u fd inp outp"
  obtains r w' where "os_write u 1 cs w = (r, w')" "inp w' = inp w" "outp w' = outp w @ cs"
  using assms unfolding stream_os_def by metis

lemma grep_lines_eq:
  assumes "stream_os u fd inp outp" and "0 \<notin> set p"
  shows "\<exists>w'. grep_lines u pat p w = Ok (snd (nl_split p)) w' \<and> inp w' = inp w \<and>
    outp w' = outp w @ grep_out pat (fst (nl_split p))"
  using assms(2)
proof (induction p arbitrary: w rule: length_induct)
  case (1 p)
  show ?case
  proof (cases p rule: nl_split_cases)
    case 1
    then show ?thesis
      by (subst grep_lines.simps) (simp add: find0_none nl_split_none grep_out_def)
  next
    case (2 l q)
    have l: "0 \<notin> set l" "0 \<notin> set q" "length q < length p" using 2 1(2) by auto
    obtain r w1 where w: "os_write u 1 (l @ [NL]) w = (r, w1)" "inp w1 = inp w" "outp w1 = outp w @ l @ [NL]"
      using stream_write [OF assms(1)] by metis
    define w2 where "w2 = (if match pat l then w1 else w)"
    obtain w' where 3: "grep_lines u pat q w2 = Ok (snd (nl_split q)) w'" "inp w' = inp w2"
      "outp w' = outp w2 @ grep_out pat (fst (nl_split q))"
      using 1(1) l by metis
    have "grep_lines u pat p w = grep_lines u pat q w2"
      by (subst grep_lines.simps) (simp add: 2 find0_line l w w2_def ucall_def)
    then show ?thesis
      using 3 w by (auto simp: 2 nl_split_line grep_out_def w2_def)
  qed
qed

definition short_lines :: "u8 list \<Rightarrow> bool" where
  "short_lines xs \<longleftrightarrow> (\<forall>l \<in> set (snd (nl_split xs) # fst (nl_split xs)). length l < 1023)"

lemma short_rest:
  assumes "NL \<notin> set r" and "short_lines (r @ xs)"
  shows "length r < 1023"
proof (cases xs rule: nl_split_cases)
  case 1
  then show ?thesis using assms by (simp add: short_lines_def nl_split_none)
next
  case (2 l ys)
  then have "nl_split (r @ xs) = ((r @ l) # fst (nl_split ys), snd (nl_split ys))"
    using assms(1) nl_split_line [of "r @ l" ys] by simp
  then show ?thesis using assms(2) by (simp add: short_lines_def)
qed

lemma short_append: "short_lines (xs @ ys) \<Longrightarrow> short_lines (snd (nl_split xs) @ ys)"
  by (simp add: short_lines_def nl_split_append [of xs ys])

lemma grep_out_append: "grep_out pat (xs @ ys) = grep_out pat xs @ grep_out pat ys"
  by (simp add: grep_out_def)

lemma nl_split_sub: "set (snd (nl_split xs)) \<subseteq> set xs"
  using nl_split_concat [of xs] by (metis Un_upper2 set_append)

lemma grep_loop_eq:
  assumes os: "stream_os u fd inp outp"
  shows "NL \<notin> set r \<Longrightarrow> 0 \<notin> set (r @ inp w) \<Longrightarrow> short_lines (r @ inp w) \<Longrightarrow> length (inp w) < fuel \<Longrightarrow>
    \<exists>w'. grep_loop fuel u pat fd r w = Ok () w' \<and> outp w' = outp w @ grep_out pat (fst (nl_split (r @ inp w)))"
proof (induction fuel arbitrary: r w)
  case (Suc fuel)
  have r: "length r < 1023" using short_rest Suc.prems by blast
  obtain k w1 where k: "os_read u fd (GREP_BUF - int (length r) - 1) w = ((int k, take k (inp w)), w1)"
    "inp w1 = drop k (inp w)" "outp w1 = outp w" "k \<le> length (inp w)"
    "int k \<le> max 0 (GREP_BUF - int (length r) - 1)" "GREP_BUF - int (length r) - 1 > 0 \<and> inp w \<noteq> [] \<longrightarrow> 0 < k"
    by (rule stream_read [OF os])
  then have nz: "inp w \<noteq> [] \<longrightarrow> 0 < k" using r by (simp add: GREP_BUF_def)
  show ?case
  proof (cases "k = 0")
    case True
    then show ?thesis using k nz Suc.prems by (simp add: ucall_def nl_split_none grep_out_def)
  next
    case False
    let ?p = "r @ take k (inp w)"
    have p: "0 \<notin> set ?p" using Suc.prems(2) by (auto dest: in_set_takeD)
    obtain w2 where w2: "grep_lines u pat ?p w1 = Ok (snd (nl_split ?p)) w2" "inp w2 = inp w1"
      "outp w2 = outp w1 @ grep_out pat (fst (nl_split ?p))"
      using grep_lines_eq [OF os p] by metis
    have e: "r @ inp w = ?p @ inp w2" using w2 k by simp
    have "0 \<notin> set (snd (nl_split ?p) @ inp w2)" using Suc.prems(2) nl_split_sub [of ?p] unfolding e by auto
    moreover have "short_lines (snd (nl_split ?p) @ inp w2)" using short_append Suc.prems(3) unfolding e by blast
    moreover have "length (inp w2) < fuel" using k w2 False Suc.prems(4) by simp
    ultimately obtain w' where "grep_loop fuel u pat fd (snd (nl_split ?p)) w2 = Ok () w'"
      "outp w' = outp w2 @ grep_out pat (fst (nl_split (snd (nl_split ?p) @ inp w2)))"
      using Suc.IH nl_split_rest by blast
    moreover have "grep_out pat (fst (nl_split (r @ inp w))) =
        grep_out pat (fst (nl_split ?p)) @ grep_out pat (fst (nl_split (snd (nl_split ?p) @ inp w2)))"
      unfolding e nl_split_append [of ?p "inp w2"] by (simp add: grep_out_append)
    ultimately show ?thesis using k(1,3) w2(1,3) False by (simp add: ucall_def)
  qed
qed simp

text \<open>
  C8: \<open>grep\<close> copies to its output exactly the lines that match the pattern, in order and complete with
  their newline, however the input is cut into reads, provided no line is longer than its buffer
  allows and the input has no NUL.  (What follows the last newline is never matched.)  It ends
  after at most one read more than there are bytes.
\<close>

theorem grep_prints_matches:
  assumes "stream_os u fd inp outp" and "0 \<notin> set (inp w)" and "short_lines (inp w)"
    and "length (inp w) < fuel"
  shows "\<exists>w'. grep fuel u pat fd w = Ok () w' \<and>
    outp w' = outp w @ concat (map (\<lambda>l. l @ [NL]) (filter (match pat) (fst (nl_split (inp w)))))"
  using grep_loop_eq [OF assms(1), of "[]"] assms(2-) by (simp add: grep_def grep_out_def)

text \<open>A world with one input and one output, whose reads deliver at most three bytes.\<close>

definition demo_os :: "(u8 list \<times> u8 list) os" where
  "demo_os = \<lparr>os_exit = (\<lambda>_ w. w),
     os_read = (\<lambda>fd n (i, o1). let k = min (min 3 (nat n)) (length i) in ((int k, take k i), (drop k i, o1))),
     os_write = (\<lambda>fd cs (i, o1). (int (length cs), (i, o1 @ cs))),
     os_open = (\<lambda>_ _ w. (3, w)), os_close = (\<lambda>_ w. (0, w)),
     os_fstat = (\<lambda>_ w. ((-1, \<lparr>st_dev = 0, st_ino = 0, st_type = 0, st_nlink = 0, st_size = 0\<rparr>), w)),
     os_link = (\<lambda>_ _ w. (-1, w)), os_unlink = (\<lambda>_ w. (-1, w)), os_mkdir = (\<lambda>_ w. (-1, w)),
     os_mknod = (\<lambda>_ _ _ w. (-1, w)), os_kill = (\<lambda>_ w. (-1, w)), os_dup = (\<lambda>_ w. (-1, w)),
     os_chdir = (\<lambda>_ w. (-1, w)), os_pipe = (\<lambda>w. ((-1, 0, 0), w)), os_fork = (\<lambda>_ w. (-1, w)),
     os_wait = (\<lambda>w. (-1, w)), os_exec = (\<lambda>_ _ w. Ok (-1) w), os_sleep = (\<lambda>_ w. (0, w)), os_sbrk = (\<lambda>_ w. (-1, w))\<rparr>"

lemma demo_stream: "stream_os demo_os fd fst snd"
  unfolding stream_os_def
proof (intro conjI allI)
  fix n :: int and w :: "u8 list \<times> u8 list"
  show "\<exists>k w'. os_read demo_os fd n w = ((int k, take k (fst w)), w') \<and> fst w' = drop k (fst w) \<and>
      snd w' = snd w \<and> k \<le> length (fst w) \<and> int k \<le> max 0 n \<and> (n > 0 \<and> fst w \<noteq> [] \<longrightarrow> 0 < k)"
    by (intro exI [of _ "min (min 3 (nat n)) (length (fst w))"]) (auto simp: demo_os_def Let_def split: prod.split)
next
  fix cs and w :: "u8 list \<times> u8 list"
  show "\<exists>r w'. os_write demo_os 1 cs w = (r, w') \<and> fst w' = fst w \<and> snd w' = snd w @ cs"
    by (simp add: demo_os_def split: prod.split)
qed

text \<open>\<open>grep b.*d\<close> on four lines, the last of them not ended by a newline.\<close>

theorem grep_prints_matches_witness:
  "\<exists>w'. grep 20 demo_os [98, 46, 42, 100] 0 ([97, 98, 99, 100, 10, 98, 10, 98, 100, 10, 98, 100], []) = Ok () w' \<and>
     snd w' = [97, 98, 99, 100, 10, 98, 100, 10]"
proof -
  let ?i = "[97, 98, 99, 100, 10, 98, 10, 98, 100, 10, 98, 100] :: u8 list"
  have s: "nl_split ?i = ([[97, 98, 99, 100], [98], [98, 100]], [98, 100])" by (simp add: NL_def)
  have m: "match [98, 46, 42, 100] [97, 98, 99, 100]" "\<not> match [98, 46, 42, 100] [98]" "match [98, 46, 42, 100] [98, 100]"
    by (simp_all add: match_def matchhere.simps matchstar.simps CARET_def STAR_def DOT_def DOLLAR_def nth0_def)
  show ?thesis
    using grep_prints_matches [OF demo_stream, of "(?i, [])" 20 "[98, 46, 42, 100]" 0] m
    by (simp add: s short_lines_def NL_def)
qed

end
