(* ===== verification/Uprogs.thy ===== *)
theory Uprogs
  imports Ulib
begin

text \<open>
  The small user programs: cat, wc, echo, kill, ln, ls, mkdir, rm, init, zombie and forktest.  A
  program is its \<open>main\<close>, applied to the list of its arguments (\<open>argv\<close>, the name of the program
  included); \<open>fuel\<close> bounds the turns of a loop that runs until the system says so.
\<close>

section \<open>cat\<close>

fun cat_loop :: "nat \<Rightarrow> 'w os \<Rightarrow> int \<Rightarrow> 'w \<Rightarrow> (unit, 'w) outcome" where
  "cat_loop 0 u fd w = Spin"
| "cat_loop (Suc fuel) u fd w =
     obind (ucall (os_read u fd 512 w)) (\<lambda>(n, bs) w.
       if n > 0 then
         obind (ucall (os_write u 1 bs w)) (\<lambda>r w.
           if r \<noteq> n then obind (fprintf u 2 (str ''cat: write error'' @ [10]) [] w) (\<lambda>_ w. uexit u 1 w)
           else cat_loop fuel u fd w)
       else if n < 0 then obind (fprintf u 2 (str ''cat: read error'' @ [10]) [] w) (\<lambda>_ w. uexit u 1 w)
       else Ok () w)"

definition cat :: "nat \<Rightarrow> 'w os \<Rightarrow> int \<Rightarrow> 'w \<Rightarrow> (unit, 'w) outcome" where
  "cat fuel u fd w = cat_loop fuel u fd w"

fun cat_files :: "nat \<Rightarrow> 'w os \<Rightarrow> u8 list list \<Rightarrow> 'w \<Rightarrow> (unit, 'w) outcome" where
  "cat_files fuel u [] w = uexit u 0 w"
| "cat_files fuel u (a # as) w =
     obind (ucall (os_open u a O_RDONLY w)) (\<lambda>fd w.
       if fd < 0
       then obind (fprintf u 2 (str ''cat: cannot open %s'' @ [10]) [AStr (Some a)] w) (\<lambda>_ w. uexit u 1 w)
       else obind (cat fuel u fd w) (\<lambda>_ w. obind (ucall (os_close u fd w)) (\<lambda>_ w. cat_files fuel u as w)))"

definition cat_main :: "nat \<Rightarrow> 'w os \<Rightarrow> u8 list list \<Rightarrow> 'w \<Rightarrow> (unit, 'w) outcome" where
  "cat_main fuel u argv w =
     (if length argv \<le> 1 then obind (cat fuel u 0 w) (\<lambda>_ w. uexit u 0 w)
      else cat_files fuel u (tl argv) w)"

section \<open>wc\<close>

text \<open>The counters of lines, words and characters, and whether the last byte was in a word.\<close>

type_synonym wc_counts = "int \<times> int \<times> int \<times> bool"

definition wc_space :: "u8 list" where
  "wc_space = [32, 13, 9, 10, 11]"

definition wc_byte :: "u8 \<Rightarrow> wc_counts \<Rightarrow> wc_counts" where
  "wc_byte b = (\<lambda>(l, n, c, inword).
     let c = c + 1; l = (if b = 10 then l + 1 else l) in
     if find0 b wc_space \<noteq> None then (l, n, c, False)
     else if \<not> inword then (l, n + 1, c, True)
     else (l, n, c, inword))"

text \<open>An \<open>int\<close> holds the counters; more bytes than that overflow it.\<close>

fun wc_loop :: "nat \<Rightarrow> 'w os \<Rightarrow> int \<Rightarrow> u8 list \<Rightarrow> wc_counts \<Rightarrow> 'w \<Rightarrow> (unit, 'w) outcome" where
  "wc_loop 0 u fd name st w = Spin"
| "wc_loop (Suc fuel) u fd name st w =
     obind (ucall (os_read u fd 512 w)) (\<lambda>(n, bs) w.
       if n > 0 then
         (let st = fold wc_byte bs st in
          if fst (snd (snd st)) \<ge> 2 ^ 31 then Undef else wc_loop fuel u fd name st w)
       else if n < 0 then obind (uprintf u (str ''wc: read error'' @ [10]) [] w) (\<lambda>_ w. uexit u 1 w)
       else case st of (l, nw, c, inword) \<Rightarrow>
         uprintf u (str ''%d %d %d %s'' @ [10])
           [AInt (word_of_int l), AInt (word_of_int nw), AInt (word_of_int c), AStr (Some name)] w)"

definition wc :: "nat \<Rightarrow> 'w os \<Rightarrow> int \<Rightarrow> u8 list \<Rightarrow> 'w \<Rightarrow> (unit, 'w) outcome" where
  "wc fuel u fd name w = wc_loop fuel u fd name (0, 0, 0, False) w"

fun wc_files :: "nat \<Rightarrow> 'w os \<Rightarrow> u8 list list \<Rightarrow> 'w \<Rightarrow> (unit, 'w) outcome" where
  "wc_files fuel u [] w = uexit u 0 w"
| "wc_files fuel u (a # as) w =
     obind (ucall (os_open u a O_RDONLY w)) (\<lambda>fd w.
       if fd < 0
       then obind (uprintf u (str ''wc: cannot open %s'' @ [10]) [AStr (Some a)] w) (\<lambda>_ w. uexit u 1 w)
       else obind (wc fuel u fd a w) (\<lambda>_ w. obind (ucall (os_close u fd w)) (\<lambda>_ w. wc_files fuel u as w)))"

definition wc_main :: "nat \<Rightarrow> 'w os \<Rightarrow> u8 list list \<Rightarrow> 'w \<Rightarrow> (unit, 'w) outcome" where
  "wc_main fuel u argv w =
     (if length argv \<le> 1 then obind (wc fuel u 0 [] w) (\<lambda>_ w. uexit u 0 w)
      else wc_files fuel u (tl argv) w)"

section \<open>echo, kill, ln, mkdir, rm\<close>

fun echo_loop :: "'w os \<Rightarrow> u8 list list \<Rightarrow> 'w \<Rightarrow> (unit, 'w) outcome" where
  "echo_loop u [] w = uexit u 0 w"
| "echo_loop u (a # as) w =
     obind (ucall (os_write u 1 a w)) (\<lambda>_ w.
     obind (ucall (os_write u 1 (if as \<noteq> [] then [32] else [10]) w)) (\<lambda>_ w. echo_loop u as w))"

definition echo_main :: "'w os \<Rightarrow> u8 list list \<Rightarrow> 'w \<Rightarrow> (unit, 'w) outcome" where
  "echo_main u argv w = echo_loop u (tl argv) w"

fun kill_args :: "'w os \<Rightarrow> u8 list list \<Rightarrow> 'w \<Rightarrow> (unit, 'w) outcome" where
  "kill_args u [] w = uexit u 0 w"
| "kill_args u (a # as) w =
     (case atoi a of None \<Rightarrow> Undef
      | Some i \<Rightarrow> obind (ucall (os_kill u i w)) (\<lambda>_ w. kill_args u as w))"

definition kill_main :: "'w os \<Rightarrow> u8 list list \<Rightarrow> 'w \<Rightarrow> (unit, 'w) outcome" where
  "kill_main u argv w =
     (if length argv < 2
      then obind (fprintf u 2 (str ''usage: kill pid...'' @ [10]) [] w) (\<lambda>_ w. uexit u 1 w)
      else kill_args u (tl argv) w)"

definition ln_main :: "'w os \<Rightarrow> u8 list list \<Rightarrow> 'w \<Rightarrow> (unit, 'w) outcome" where
  "ln_main u argv w =
     (if length argv \<noteq> 3
      then obind (fprintf u 2 (str ''Usage: ln old new'' @ [10]) [] w) (\<lambda>_ w. uexit u 1 w)
      else obind (ucall (os_link u (argv ! 1) (argv ! 2) w)) (\<lambda>r w.
        obind (if r < 0 then fprintf u 2 (str ''link %s %s: failed'' @ [10])
                 [AStr (Some (argv ! 1)), AStr (Some (argv ! 2))] w else Ok () w) (\<lambda>_ w. uexit u 0 w)))"

fun mkdir_loop :: "'w os \<Rightarrow> u8 list list \<Rightarrow> 'w \<Rightarrow> (unit, 'w) outcome" where
  "mkdir_loop u [] w = uexit u 0 w"
| "mkdir_loop u (a # as) w =
     obind (ucall (os_mkdir u a w)) (\<lambda>r w.
       if r < 0
       then obind (fprintf u 2 (str ''mkdir: %s failed to create'' @ [10]) [AStr (Some a)] w) (\<lambda>_ w. uexit u 0 w)
       else mkdir_loop u as w)"

definition mkdir_main :: "'w os \<Rightarrow> u8 list list \<Rightarrow> 'w \<Rightarrow> (unit, 'w) outcome" where
  "mkdir_main u argv w =
     (if length argv < 2
      then obind (fprintf u 2 (str ''Usage: mkdir files...'' @ [10]) [] w) (\<lambda>_ w. uexit u 1 w)
      else mkdir_loop u (tl argv) w)"

fun rm_loop :: "'w os \<Rightarrow> u8 list list \<Rightarrow> 'w \<Rightarrow> (unit, 'w) outcome" where
  "rm_loop u [] w = uexit u 0 w"
| "rm_loop u (a # as) w =
     obind (ucall (os_unlink u a w)) (\<lambda>r w.
       if r < 0
       then obind (fprintf u 2 (str ''rm: %s failed to delete'' @ [10]) [AStr (Some a)] w) (\<lambda>_ w. uexit u 0 w)
       else rm_loop u as w)"

definition rm_main :: "'w os \<Rightarrow> u8 list list \<Rightarrow> 'w \<Rightarrow> (unit, 'w) outcome" where
  "rm_main u argv w =
     (if length argv < 2
      then obind (fprintf u 2 (str ''Usage: rm files...'' @ [10]) [] w) (\<lambda>_ w. uexit u 1 w)
      else rm_loop u (tl argv) w)"

section \<open>ls\<close>

text \<open>The index \<open>fmtname\<close> arrives at, one past the last slash at or before \<open>i\<close>.\<close>

fun fmtname_start :: "u8 list \<Rightarrow> nat \<Rightarrow> nat" where
  "fmtname_start path 0 = (if nth0 path 0 \<noteq> 47 then 0 else 1)"
| "fmtname_start path (Suc i) = (if nth0 path (Suc i) \<noteq> 47 then fmtname_start path i else Suc (Suc i))"

definition fmtname :: "u8 list \<Rightarrow> u8 list" where
  "fmtname path =
     (let p = drop (fmtname_start path (length path)) path in
      if length p \<ge> DIRSIZ then p else p @ replicate (DIRSIZ - length p) 32)"

definition ls_entry :: "'w os \<Rightarrow> u8 list \<Rightarrow> stat \<Rightarrow> 'w \<Rightarrow> (unit, 'w) outcome" where
  "ls_entry u path st w =
     uprintf u (str ''%s %d %d %d'' @ [10])
       [AStr (Some (fmtname path)), AInt (scast (st_type st)), AInt (st_ino st), AInt (ucast (st_size st))] w"

fun ls_dir :: "nat \<Rightarrow> 'w os \<Rightarrow> u8 list \<Rightarrow> int \<Rightarrow> 'w \<Rightarrow> (unit, 'w) outcome" where
  "ls_dir 0 u path fd w = Spin"
| "ls_dir (Suc fuel) u path fd w =
     obind (ucall (os_read u fd 16 w)) (\<lambda>(n, de) w.
       if n \<noteq> 16 then Ok () w
       else if nth0 de 0 = 0 \<and> nth0 de 1 = 0 then ls_dir fuel u path fd w
       else
         let buf = path @ [47] @ takeWhile (\<lambda>c. c \<noteq> 0) (drop 2 de) in
         obind (ustat_call u buf w) (\<lambda>(r, st) w.
           obind (if r < 0 then uprintf u (str ''ls: cannot stat %s'' @ [10]) [AStr (Some buf)] w
                  else case st of None \<Rightarrow> Undef | Some st \<Rightarrow> ls_entry u buf st w) (\<lambda>_ w.
           ls_dir fuel u path fd w)))"

definition ls :: "nat \<Rightarrow> 'w os \<Rightarrow> u8 list \<Rightarrow> 'w \<Rightarrow> (unit, 'w) outcome" where
  "ls fuel u path w =
     obind (ucall (os_open u path O_RDONLY w)) (\<lambda>fd w.
       if fd < 0 then fprintf u 2 (str ''ls: cannot open %s'' @ [10]) [AStr (Some path)] w
       else obind (ucall (os_fstat u fd w)) (\<lambda>(r, st) w.
         if r < 0 then
           obind (fprintf u 2 (str ''ls: cannot stat %s'' @ [10]) [AStr (Some path)] w) (\<lambda>_ w.
           obind (ucall (os_close u fd w)) (\<lambda>_ w. Ok () w))
         else obind
           (if st_type st = T_DEVICE \<or> st_type st = T_FILE then ls_entry u path st w
            else if st_type st = T_DIR then
              (if length path + 1 + DIRSIZ + 1 > 512 then uprintf u (str ''ls: path too long'' @ [10]) [] w
               else ls_dir fuel u path fd w)
            else Ok () w) (\<lambda>_ w.
           obind (ucall (os_close u fd w)) (\<lambda>_ w. Ok () w))))"

fun ls_args :: "nat \<Rightarrow> 'w os \<Rightarrow> u8 list list \<Rightarrow> 'w \<Rightarrow> (unit, 'w) outcome" where
  "ls_args fuel u [] w = uexit u 0 w"
| "ls_args fuel u (a # as) w = obind (ls fuel u a w) (\<lambda>_ w. ls_args fuel u as w)"

definition ls_main :: "nat \<Rightarrow> 'w os \<Rightarrow> u8 list list \<Rightarrow> 'w \<Rightarrow> (unit, 'w) outcome" where
  "ls_main fuel u argv w =
     (if length argv < 2 then obind (ls fuel u [46] w) (\<lambda>_ w. uexit u 0 w)
      else ls_args fuel u (tl argv) w)"

section \<open>init, zombie, forktest\<close>

fun init_wait :: "nat \<Rightarrow> 'w os \<Rightarrow> int \<Rightarrow> 'w \<Rightarrow> (unit, 'w) outcome" where
  "init_wait 0 u pid w = Spin"
| "init_wait (Suc fuel) u pid w =
     obind (ucall (os_wait u w)) (\<lambda>wpid w.
       if wpid = pid then Ok () w
       else if wpid < 0
       then obind (uprintf u (str ''init: wait returned an error'' @ [10]) [] w) (\<lambda>_ w. uexit u 1 w)
       else init_wait fuel u pid w)"

definition init_child :: "'w os \<Rightarrow> 'w \<Rightarrow> (unit, 'w) outcome" where
  "init_child u w =
     obind (os_exec u (str ''sh'') [str ''sh''] w) (\<lambda>_ w.
     obind (uprintf u (str ''init: exec sh failed'' @ [10]) [] w) (\<lambda>_ w. uexit u 1 w))"

fun init_loop :: "nat \<Rightarrow> 'w os \<Rightarrow> 'w \<Rightarrow> (unit, 'w) outcome" where
  "init_loop 0 u w = Spin"
| "init_loop (Suc fuel) u w =
     obind (uprintf u (str ''init: starting sh'' @ [10]) [] w) (\<lambda>_ w.
     obind (ucall (os_fork u (init_child u) w)) (\<lambda>pid w.
       if pid < 0 then obind (uprintf u (str ''init: fork failed'' @ [10]) [] w) (\<lambda>_ w. uexit u 1 w)
       else obind (init_wait fuel u pid w) (\<lambda>_ w. init_loop fuel u w)))"

definition init_main :: "nat \<Rightarrow> 'w os \<Rightarrow> 'w \<Rightarrow> (unit, 'w) outcome" where
  "init_main fuel u w =
     obind (ucall (os_open u (str ''console'') O_RDWR w)) (\<lambda>fd w.
     obind (if fd < 0 then
         obind (ucall (os_mknod u (str ''console'') 1 0 w)) (\<lambda>_ w.
         obind (ucall (os_open u (str ''console'') O_RDWR w)) (\<lambda>_ w. Ok () w))
       else Ok () w) (\<lambda>_ w.
     obind (ucall (os_dup u 0 w)) (\<lambda>_ w.
     obind (ucall (os_dup u 0 w)) (\<lambda>_ w. init_loop fuel u w))))"

definition zombie_main :: "'w os \<Rightarrow> 'w \<Rightarrow> (unit, 'w) outcome" where
  "zombie_main u w =
     obind (ucall (os_fork u (\<lambda>w. uexit u 0 w) w)) (\<lambda>pid w.
     obind (if pid > 0 then obind (ucall (os_sleep u 5 w)) (\<lambda>_ w. Ok () w) else Ok () w) (\<lambda>_ w.
     uexit u 0 w))"

definition uprint :: "'w os \<Rightarrow> u8 list \<Rightarrow> 'w \<Rightarrow> (unit, 'w) outcome" where
  "uprint u s w = obind (ucall (os_write u 1 s w)) (\<lambda>_ w. Ok () w)"

definition FORKTEST_N :: nat where "FORKTEST_N = 1000"

text \<open>The number of children forked; the child leaves at once.\<close>

fun forktest_fork :: "nat \<Rightarrow> 'w os \<Rightarrow> 'w \<Rightarrow> (nat, 'w) outcome" where
  "forktest_fork 0 u w = Ok FORKTEST_N w"
| "forktest_fork (Suc left) u w =
     obind (ucall (os_fork u (\<lambda>w. uexit u 0 w) w)) (\<lambda>pid w.
       if pid < 0 then Ok (FORKTEST_N - Suc left) w else forktest_fork left u w)"

fun forktest_wait :: "nat \<Rightarrow> 'w os \<Rightarrow> 'w \<Rightarrow> (unit, 'w) outcome" where
  "forktest_wait 0 u w = Ok () w"
| "forktest_wait (Suc n) u w =
     obind (ucall (os_wait u w)) (\<lambda>r w.
       if r < 0 then obind (uprint u (str ''wait stopped early'' @ [10]) w) (\<lambda>_ w. uexit u 1 w)
       else forktest_wait n u w)"

definition forktest :: "'w os \<Rightarrow> 'w \<Rightarrow> (unit, 'w) outcome" where
  "forktest u w =
     obind (uprint u (str ''fork test'' @ [10]) w) (\<lambda>_ w.
     obind (forktest_fork FORKTEST_N u w) (\<lambda>n w.
       if n = FORKTEST_N
       then obind (uprint u (str ''fork claimed to work N times!'' @ [10]) w) (\<lambda>_ w. uexit u 1 w)
       else obind (forktest_wait n u w) (\<lambda>_ w.
         obind (ucall (os_wait u w)) (\<lambda>r w.
           if r \<noteq> -1 then obind (uprint u (str ''wait got too many'' @ [10]) w) (\<lambda>_ w. uexit u 1 w)
           else uprint u (str ''fork test OK'' @ [10]) w))))"

definition forktest_main :: "'w os \<Rightarrow> 'w \<Rightarrow> (unit, 'w) outcome" where
  "forktest_main u w = obind (forktest u w) (\<lambda>_ w. uexit u 0 w)"

end
