(* ===== verification/Sh.thy ===== *)
theory Sh
  imports Ulib
begin

text \<open>
  The shell (user/sh.c): its parser, \<open>runcmd\<close> and the main loop.  A line is the list of its bytes before the NUL.  The parser works on the part
  of the line it has not read (\<open>*ps\<close>), and a pointer into the line is the offset of the byte it points
  to, which is the length \<open>n\<close> of the line less the length of the rest.  The tree of a command has
  pointers to the start and to the end of every word; \<open>nulterminate\<close> writes the NULs.
\<close>

section \<open>Commands\<close>

definition MAXARGS :: nat where "MAXARGS = 10"

datatype cmd =
    EXEC "(nat \<times> nat) list"
  | REDIR cmd nat nat u32 int
  | PIPE cmd cmd
  | LIST cmd cmd
  | BACK cmd

definition whitespace :: "u8 list" where "whitespace = [32, 9, 13, 10, 11]"
definition symbols :: "u8 list" where "symbols = [60, 124, 62, 38, 59, 40, 41]"

abbreviation is_ws :: "u8 \<Rightarrow> bool" where "is_ws c \<equiv> find0 c whitespace \<noteq> None"
abbreviation is_sym :: "u8 \<Rightarrow> bool" where "is_sym c \<equiv> find0 c symbols \<noteq> None"

section \<open>Tokens\<close>

fun skip_ws :: "u8 list \<Rightarrow> u8 list" where
  "skip_ws [] = []"
| "skip_ws (c # s) = (if is_ws c then skip_ws s else c # s)"

fun skip_word :: "u8 list \<Rightarrow> u8 list" where
  "skip_word [] = []"
| "skip_word (c # s) = (if \<not> is_ws c \<and> \<not> is_sym c then skip_word s else c # s)"

text \<open>
  The token read by \<open>gettoken\<close>: its kind (the character, \<open>+\<close> for \<open>>>\<close>, \<open>a\<close> for a word, 0 at the end), the
  offsets \<open>*q\<close> and \<open>*eq\<close>, and the rest of the line.
\<close>

definition gettoken :: "nat \<Rightarrow> u8 list \<Rightarrow> u8 \<times> nat \<times> nat \<times> u8 list" where
  "gettoken n s =
     (let s = skip_ws s; q = n - length s; c = nth0 s 0;
          (ret, s) =
            (if c = 0 then (c, s)
             else if c = 124 \<or> c = 40 \<or> c = 41 \<or> c = 59 \<or> c = 38 \<or> c = 60 then (c, tl s)
             else if c = 62 then (if nth0 s 1 = 62 then (43, tl (tl s)) else (c, tl s))
             else (97, skip_word s))
      in (ret, q, n - length s, skip_ws s))"

definition peek :: "u8 list \<Rightarrow> u8 list \<Rightarrow> bool \<times> u8 list" where
  "peek s toks = (let s = skip_ws s; c = nth0 s 0 in (c \<noteq> 0 \<and> find0 c toks \<noteq> None, s))"

section \<open>The parser\<close>

text \<open>
  An error is the argument of \<open>panic\<close>, or the rest of the line that \<open>parsecmd\<close> complains about.  The first argument of a loop bounds its turns and that of a
  parsing function the nesting of calls; \<open>None\<close> means that the bound was too small.
\<close>

datatype sh_error = ShPanic string | Leftovers "u8 list"

type_synonym 'a parse = "(sh_error + 'a \<times> u8 list) option"

definition pbind :: "'a parse \<Rightarrow> ('a \<Rightarrow> u8 list \<Rightarrow> 'b parse) \<Rightarrow> 'b parse" where
  "pbind m f = (case m of None \<Rightarrow> None | Some (Inl e) \<Rightarrow> Some (Inl e) | Some (Inr (a, s)) \<Rightarrow> f a s)"

fun parseredirs :: "nat \<Rightarrow> nat \<Rightarrow> cmd \<Rightarrow> u8 list \<Rightarrow> cmd parse" where
  "parseredirs 0 n c s = None"
| "parseredirs (Suc k) n c s =
     (case peek s [60, 62] of (False, s) \<Rightarrow> Some (Inr (c, s))
      | (True, s) \<Rightarrow>
          (case gettoken n s of (tok, _, _, s) \<Rightarrow>
           case gettoken n s of (tok2, q, eq, s) \<Rightarrow>
             if tok2 \<noteq> 97 then Some (Inl (ShPanic ''missing file for redirection''))
             else parseredirs k n
               (if tok = 60 then REDIR c q eq O_RDONLY 0
                else if tok = 62 then REDIR c q eq (O_WRONLY OR O_CREATE OR O_TRUNC) 1
                else if tok = 43 then REDIR c q eq (O_WRONLY OR O_CREATE) 1
                else c) s))"

text \<open>
  The loop over the words of a simple command.  The redirections \<open>ret\<close> wrap the \<open>execcmd\<close> whose
  arguments are being filled in, so the tree is built from the arguments and the wrapping.
\<close>

fun set_args :: "(nat \<times> nat) list \<Rightarrow> cmd \<Rightarrow> cmd" where
  "set_args as (EXEC _) = EXEC as"
| "set_args as (REDIR c q eq m fd) = REDIR (set_args as c) q eq m fd"
| "set_args as c = c"

fun parseargs :: "nat \<Rightarrow> nat \<Rightarrow> (nat \<times> nat) list \<Rightarrow> cmd \<Rightarrow> u8 list \<Rightarrow> cmd parse" where
  "parseargs 0 n as ret s = None"
| "parseargs (Suc k) n as ret s =
     (case peek s [124, 41, 38, 59] of (True, s) \<Rightarrow> Some (Inr (set_args as ret, s))
      | (False, s) \<Rightarrow>
          (case gettoken n s of (tok, q, eq, s) \<Rightarrow>
             if tok = 0 then Some (Inr (set_args as ret, s))
             else if tok \<noteq> 97 then Some (Inl (ShPanic ''syntax''))
             else let as = as @ [(q, eq)] in
               if length as \<ge> MAXARGS then Some (Inl (ShPanic ''too many args''))
               else pbind (parseredirs (Suc (length s)) n ret s) (\<lambda>ret s. parseargs k n as ret s)))"

definition parsesimple :: "nat \<Rightarrow> u8 list \<Rightarrow> cmd parse" where
  "parsesimple n s =
     pbind (parseredirs (Suc (length s)) n (EXEC []) s) (\<lambda>ret s. parseargs (Suc (length s)) n [] ret s)"

fun parseback :: "nat \<Rightarrow> nat \<Rightarrow> cmd \<Rightarrow> u8 list \<Rightarrow> cmd parse" where
  "parseback 0 n c s = None"
| "parseback (Suc k) n c s =
     (case peek s [38] of (False, s) \<Rightarrow> Some (Inr (c, s))
      | (True, s) \<Rightarrow> parseback k n (BACK c) (snd (snd (snd (gettoken n s)))))"

fun parseline :: "nat \<Rightarrow> nat \<Rightarrow> u8 list \<Rightarrow> cmd parse"
  and parsepipe :: "nat \<Rightarrow> nat \<Rightarrow> u8 list \<Rightarrow> cmd parse"
  and parseexec :: "nat \<Rightarrow> nat \<Rightarrow> u8 list \<Rightarrow> cmd parse"
  and parseblock :: "nat \<Rightarrow> nat \<Rightarrow> u8 list \<Rightarrow> cmd parse" where
  "parseline 0 n s = None"
| "parseline (Suc d) n s =
     pbind (parsepipe d n s) (\<lambda>c s.
     pbind (parseback (Suc (length s)) n c s) (\<lambda>c s.
       case peek s [59] of (False, s) \<Rightarrow> Some (Inr (c, s))
       | (True, s) \<Rightarrow>
           pbind (parseline d n (snd (snd (snd (gettoken n s))))) (\<lambda>c' s. Some (Inr (LIST c c', s)))))"
| "parsepipe 0 n s = None"
| "parsepipe (Suc d) n s =
     pbind (parseexec d n s) (\<lambda>c s.
       case peek s [124] of (False, s) \<Rightarrow> Some (Inr (c, s))
       | (True, s) \<Rightarrow>
           pbind (parsepipe d n (snd (snd (snd (gettoken n s))))) (\<lambda>c' s. Some (Inr (PIPE c c', s))))"
| "parseexec 0 n s = None"
| "parseexec (Suc d) n s =
     (case peek s [40] of (True, s) \<Rightarrow> parseblock d n s | (False, s) \<Rightarrow> parsesimple n s)"
| "parseblock 0 n s = None"
| "parseblock (Suc d) n s =
     (case peek s [40] of (False, s) \<Rightarrow> Some (Inl (ShPanic ''parseblock''))
      | (True, s) \<Rightarrow>
          pbind (parseline d n (snd (snd (snd (gettoken n s))))) (\<lambda>c s.
            case peek s [41] of (False, s) \<Rightarrow> Some (Inl (ShPanic ''syntax - missing )''))
            | (True, s) \<Rightarrow>
                let s = snd (snd (snd (gettoken n s))) in parseredirs (Suc (length s)) n c s))"

text \<open>\<open>nulterminate\<close> on the line with its final NUL.\<close>

fun nulterminate :: "cmd \<Rightarrow> u8 list \<Rightarrow> u8 list" where
  "nulterminate (EXEC as) buf = fold (\<lambda>(q, eq) buf. buf[eq := 0]) as buf"
| "nulterminate (REDIR c q eq m fd) buf = (nulterminate c buf)[eq := 0]"
| "nulterminate (PIPE c d) buf = nulterminate d (nulterminate c buf)"
| "nulterminate (LIST c d) buf = nulterminate d (nulterminate c buf)"
| "nulterminate (BACK c) buf = nulterminate c buf"

text \<open>
  \<open>parsecmd\<close>: the tree and the line after \<open>nulterminate\<close>.  The nesting of calls is bounded by
  four per character.
\<close>

definition PARSE_DEPTH :: "nat \<Rightarrow> nat" where
  "PARSE_DEPTH n = 4 * n + 4"

definition parsecmd :: "u8 list \<Rightarrow> (sh_error + cmd \<times> u8 list) option" where
  "parsecmd s =
     (let n = length s in
      case parseline (PARSE_DEPTH n) n s of
        None \<Rightarrow> None
      | Some (Inl e) \<Rightarrow> Some (Inl e)
      | Some (Inr (c, s')) \<Rightarrow>
          let s' = snd (peek s' []) in if s' \<noteq> [] then Some (Inl (Leftovers s'))
          else Some (Inr (c, nulterminate c (s @ [0]))))"

section \<open>Running a command\<close>

text \<open>The string at a pointer into the line.\<close>

definition cstring :: "u8 list \<Rightarrow> nat \<times> nat \<Rightarrow> u8 list" where
  "cstring b = (\<lambda>(q, eq). takeWhile (\<lambda>c. c \<noteq> 0) (drop q b))"

definition sh_panic :: "'w os \<Rightarrow> string \<Rightarrow> 'w \<Rightarrow> (unit, 'w) outcome" where
  "sh_panic u msg w = obind (fprintf u 2 (str ''%s'' @ [10]) [AStr (Some (str msg))] w) (\<lambda>_ w. uexit u 1 w)"

definition fork1 :: "'w os \<Rightarrow> ('w \<Rightarrow> (unit, 'w) outcome) \<Rightarrow> 'w \<Rightarrow> (unit, 'w) outcome" where
  "fork1 u child w =
     obind (ucall (os_fork u child w)) (\<lambda>pid w. if pid = -1 then sh_panic u ''fork'' w else Ok () w)"

abbreviation do_sys :: "'a \<times> 'w \<Rightarrow> ('w \<Rightarrow> ('b, 'w) outcome) \<Rightarrow> ('b, 'w) outcome" where
  "do_sys r f \<equiv> obind (ucall r) (\<lambda>_ w. f w)"

text \<open>
  \<open>runcmd\<close> on a tree over the line \<open>b\<close>; what a child does is the first argument of \<open>fork1\<close>.  The parser
  builds no other nodes, so the default case of the code does not arise.
\<close>

fun runcmd :: "'w os \<Rightarrow> u8 list \<Rightarrow> cmd \<Rightarrow> 'w \<Rightarrow> (unit, 'w) outcome" where
  "runcmd u b (EXEC as) w =
     (case as of [] \<Rightarrow> uexit u 1 w
      | a # _ \<Rightarrow>
          obind (os_exec u (cstring b a) (map (cstring b) as) w) (\<lambda>_ w.
          obind (fprintf u 2 (str ''exec %s failed'' @ [10]) [AStr (Some (cstring b a))] w) (\<lambda>_ w. uexit u 0 w)))"
| "runcmd u b (REDIR c q eq mode fd) w =
     do_sys (os_close u fd w) (\<lambda>w.
     obind (ucall (os_open u (cstring b (q, eq)) mode w)) (\<lambda>r w.
       if r < 0
       then obind (fprintf u 2 (str ''open %s failed'' @ [10]) [AStr (Some (cstring b (q, eq)))] w) (\<lambda>_ w. uexit u 1 w)
       else runcmd u b c w))"
| "runcmd u b (LIST c d) w =
     obind (fork1 u (\<lambda>w. runcmd u b c w) w) (\<lambda>_ w. do_sys (os_wait u w) (\<lambda>w. runcmd u b d w))"
| "runcmd u b (PIPE c d) w =
     obind (ucall (os_pipe u w)) (\<lambda>(r, p0, p1) w.
       if r < 0 then sh_panic u ''pipe'' w
       else
         obind (fork1 u (\<lambda>w.
             do_sys (os_close u 1 w) (\<lambda>w. do_sys (os_dup u p1 w) (\<lambda>w. do_sys (os_close u p0 w) (\<lambda>w.
             do_sys (os_close u p1 w) (\<lambda>w. runcmd u b c w))))) w) (\<lambda>_ w.
         obind (fork1 u (\<lambda>w.
             do_sys (os_close u 0 w) (\<lambda>w. do_sys (os_dup u p0 w) (\<lambda>w. do_sys (os_close u p0 w) (\<lambda>w.
             do_sys (os_close u p1 w) (\<lambda>w. runcmd u b d w))))) w) (\<lambda>_ w.
         do_sys (os_close u p0 w) (\<lambda>w. do_sys (os_close u p1 w) (\<lambda>w.
         do_sys (os_wait u w) (\<lambda>w. do_sys (os_wait u w) (\<lambda>w. uexit u 0 w)))))))"
| "runcmd u b (BACK c) w = obind (fork1 u (\<lambda>w. runcmd u b c w) w) (\<lambda>_ w. uexit u 0 w)"

section \<open>The loop of the shell\<close>

text \<open>The line read by \<open>getcmd\<close>, up to its NUL; the empty line means the end of the input.\<close>

definition getcmd :: "'w os \<Rightarrow> nat \<Rightarrow> 'w \<Rightarrow> (u8 list, 'w) outcome" where
  "getcmd u nbuf w =
     do_sys (os_write u 2 [36, 32] w) (\<lambda>w.
     obind (gets u nbuf w) (\<lambda>buf w. Ok (takeWhile (\<lambda>c. c \<noteq> 0) buf) w))"

definition sh_child :: "'w os \<Rightarrow> u8 list \<Rightarrow> 'w \<Rightarrow> (unit, 'w) outcome" where
  "sh_child u line w =
     (case parsecmd line of
        None \<Rightarrow> Spin
      | Some (Inl (ShPanic msg)) \<Rightarrow> sh_panic u msg w
      | Some (Inl (Leftovers s)) \<Rightarrow>
          obind (fprintf u 2 (str ''leftovers: %s'' @ [10]) [AStr (Some s)] w) (\<lambda>_ w. sh_panic u ''syntax'' w)
      | Some (Inr (c, b)) \<Rightarrow> runcmd u b c w)"

fun sh_open :: "nat \<Rightarrow> 'w os \<Rightarrow> 'w \<Rightarrow> (unit, 'w) outcome" where
  "sh_open 0 u w = Spin"
| "sh_open (Suc fuel) u w =
     obind (ucall (os_open u (str ''console'') O_RDWR w)) (\<lambda>fd w.
       if fd < 0 then Ok () w
       else if fd \<ge> 3 then do_sys (os_close u fd w) (\<lambda>w. Ok () w)
       else sh_open fuel u w)"

fun sh_loop :: "nat \<Rightarrow> 'w os \<Rightarrow> 'w \<Rightarrow> (unit, 'w) outcome" where
  "sh_loop 0 u w = Spin"
| "sh_loop (Suc fuel) u w =
     obind (getcmd u 100 w) (\<lambda>buf w.
       if buf = [] then uexit u 0 w
       else if nth0 buf 0 = 99 \<and> nth0 buf 1 = 100 \<and> nth0 buf 2 = 32 then
         (let dir = drop 3 (butlast buf) in
          obind (ucall (os_chdir u dir w)) (\<lambda>r w.
          obind (if r < 0 then fprintf u 2 (str ''cannot cd %s'' @ [10]) [AStr (Some dir)] w else Ok () w) (\<lambda>_ w.
          sh_loop fuel u w)))
       else obind (fork1 u (sh_child u buf) w) (\<lambda>_ w. do_sys (os_wait u w) (\<lambda>w. sh_loop fuel u w)))"

definition sh_main :: "nat \<Rightarrow> 'w os \<Rightarrow> 'w \<Rightarrow> (unit, 'w) outcome" where
  "sh_main fuel u w = obind (sh_open fuel u w) (\<lambda>_ w. sh_loop fuel u w)"

section \<open>The parser always returns\<close>

declare parseline.simps [simp del] parsepipe.simps [simp del] parseexec.simps [simp del] parseblock.simps [simp del]
  parseredirs.simps [simp del] parseargs.simps [simp del] parseback.simps [simp del]

lemma skip_ws_length: "length (skip_ws s) \<le> length s"
  by (induction s) auto

lemma skip_word_length: "length (skip_word s) \<le> length s"
  by (induction s) auto

lemma skip_ws_hd: "skip_ws s = c # s' \<Longrightarrow> \<not> is_ws c"
  by (induction s) (auto split: if_splits)

lemma symbol_cases: "is_sym c \<longleftrightarrow> c = 60 \<or> c = 124 \<or> c = 62 \<or> c = 38 \<or> c = 59 \<or> c = 40 \<or> c = 41"
  by (auto simp: symbols_def)

text \<open>The rest of the line after a token; only the end of the line does not make it shorter.\<close>

abbreviation tok_rest :: "nat \<Rightarrow> u8 list \<Rightarrow> u8 list" where
  "tok_rest n s \<equiv> snd (snd (snd (gettoken n s)))"

lemma gettoken_shorter:
  assumes "nth0 (skip_ws s) 0 \<noteq> 0"
  shows "length (tok_rest n s) < length s"
proof -
  obtain c t where s: "skip_ws s = c # t" using assms by (cases "skip_ws s") auto
  have l: "length t < length s" using skip_ws_length [of s] s by simp
  have b: "length (skip_ws r) < length s" if "length r \<le> length t" for r
    using skip_ws_length [of r] that l by simp
  have "length (skip_word (c # t)) \<le> length t" if "\<not> is_sym c"
    using skip_ws_hd [OF s] that skip_word_length [of t] by simp
  then show ?thesis
    using s b b [of "tl t"] b [of t] assms symbol_cases [of c] by (auto simp: gettoken_def Let_def)
qed

lemma gettoken_end: "nth0 (skip_ws s) 0 = 0 \<Longrightarrow> fst (gettoken n s) = 0 \<and> length (tok_rest n s) \<le> length s"
  using skip_ws_length [of s] skip_ws_length [of "skip_ws s"] by (simp add: gettoken_def Let_def)

lemma gettoken_length: "length (tok_rest n s) \<le> length s"
  using gettoken_shorter [of s n] gettoken_end [of s n] by force

lemma gettoken_nz: "fst (gettoken n s) \<noteq> 0 \<Longrightarrow> length (tok_rest n s) < length s"
  using gettoken_shorter gettoken_end by blast

lemma peek_eq: "peek s ts = (let c = nth0 (skip_ws s) 0 in c \<noteq> 0 \<and> find0 c ts \<noteq> None, skip_ws s)"
  by (simp add: peek_def Let_def)

lemma skip_ws_idem [simp]: "skip_ws (skip_ws s) = skip_ws s"
proof (cases "skip_ws s")
  case (Cons c t)
  then show ?thesis using skip_ws_hd [OF Cons] by simp
qed simp

lemma peek_length: "peek s ts = (b, t) \<Longrightarrow> length t \<le> length s"
  using skip_ws_length [of s] by (auto simp: peek_eq)

lemma peek_shorter: "peek s ts = (True, t) \<Longrightarrow> length (tok_rest n t) < length s"
  using gettoken_shorter [of t n] skip_ws_length [of s] by (force simp: peek_eq Let_def)

text \<open>The call returns, with an error or with a rest that is not longer.\<close>

definition returns :: "cmd parse \<Rightarrow> u8 list \<Rightarrow> bool" where
  "returns m s \<longleftrightarrow> (case m of None \<Rightarrow> False | Some (Inl e) \<Rightarrow> True | Some (Inr (c, t)) \<Rightarrow> length t \<le> length s)"

lemma returns_simps [simp]:
  "\<not> returns None s" "returns (Some (Inl e)) s" "returns (Some (Inr (c, t))) s \<longleftrightarrow> length t \<le> length s"
  by (simp_all add: returns_def)

lemma returns_mono: "returns m t \<Longrightarrow> length t \<le> length s \<Longrightarrow> returns m s"
  by (auto simp: returns_def split: option.splits sum.splits)

lemma returns_pbind:
  assumes "returns m s" and "\<And>c t. length t \<le> length s \<Longrightarrow> returns (f c t) s"
  shows "returns (pbind m f) s"
proof (cases m)
  case (Some r)
  show ?thesis
  proof (cases r)
    case (Inr x)
    then show ?thesis using Some assms by (cases x) (simp add: pbind_def)
  qed (use Some in \<open>simp add: pbind_def\<close>)
qed (use assms in simp)

lemma parseredirs_returns: "length s < k \<Longrightarrow> returns (parseredirs k n c s) s"
proof (induction k arbitrary: c s)
  case (Suc k)
  obtain b t where p: "peek s [60, 62] = (b, t)" by force
  show ?case
  proof (cases b)
    case False
    then show ?thesis using p peek_length [OF p] by (simp add: parseredirs.simps)
  next
    case True
    have 1: "length (tok_rest n t) < length s" using peek_shorter p True by simp
    have 2: "length (tok_rest n (tok_rest n t)) < length s"
      using 1 gettoken_length [of n "tok_rest n t"] by simp
    have "returns (parseredirs k n c' (tok_rest n (tok_rest n t))) s" for c'
      using Suc 2 by (intro returns_mono [OF Suc.IH]) auto
    then show ?thesis
      using p True by (auto simp: parseredirs.simps split: prod.splits)
  qed
qed simp

lemma parseargs_returns: "length s < k \<Longrightarrow> returns (parseargs k n as ret s) s"
proof (induction k arbitrary: as ret s)
  case (Suc k)
  obtain b t where p: "peek s [124, 41, 38, 59] = (b, t)" by force
  have t: "length t \<le> length s" by (rule peek_length [OF p])
  obtain tok q eq r where g: "gettoken n t = (tok, q, eq, r)" by (cases "gettoken n t") auto
  have r: "length r \<le> length s" "tok \<noteq> 0 \<Longrightarrow> length r < length s"
    using g t gettoken_length [of n t] gettoken_nz [of n t] by auto
  have "returns (pbind (parseredirs (Suc (length r)) n ret r) (\<lambda>ret s. parseargs k n as' ret s)) s" if "tok \<noteq> 0" for as'
  proof (rule returns_mono [OF returns_pbind])
    show "returns (parseredirs (Suc (length r)) n ret r) r" by (rule parseredirs_returns) simp
    show "length r \<le> length s" by (rule r)
    fix c' and t' :: "u8 list" assume "length t' \<le> length r"
    then show "returns (parseargs k n as' c' t') r" using Suc r(2) [OF that] by (intro returns_mono [OF Suc.IH]) auto
  qed
  then show ?case using p t g r by (auto simp: parseargs.simps Let_def split: bool.split)
qed simp

lemma parseback_returns: "length s < k \<Longrightarrow> returns (parseback k n c s) s"
proof (induction k arbitrary: c s)
  case (Suc k)
  obtain b t where p: "peek s [38] = (b, t)" by force
  show ?case
  proof (cases b)
    case False
    then show ?thesis using p peek_length [OF p] by (simp add: parseback.simps)
  next
    case True
    then have 1: "length (tok_rest n t) < length s" using peek_shorter p by simp
    then have "returns (parseback k n (BACK c) (tok_rest n t)) s" using Suc by (intro returns_mono [OF Suc.IH]) auto
    then show ?thesis using p True by (simp add: parseback.simps)
  qed
qed simp

lemma parsesimple_returns: "returns (parsesimple n s) s"
  unfolding parsesimple_def
proof (rule returns_pbind)
  show "returns (parseredirs (Suc (length s)) n (EXEC []) s) s" by (rule parseredirs_returns) simp
  fix c and t :: "u8 list" assume "length t \<le> length s"
  then show "returns (parseargs (Suc (length t)) n [] c t) s" by (intro returns_mono [OF parseargs_returns]) auto
qed

lemma returns_peek:
  assumes "length s \<le> length r" and "\<And>t. length t \<le> length r \<Longrightarrow> returns (f t) r"
    and "\<And>t. length (tok_rest n t) < length r \<Longrightarrow> returns (g t) r"
  shows "returns (case peek s ts of (False, s) \<Rightarrow> f s | (True, s) \<Rightarrow> g s) r"
    and "returns (case peek s ts of (True, s) \<Rightarrow> g s | (False, s) \<Rightarrow> f s) r"
proof -
  obtain b t where p: "peek s ts = (b, t)" by force
  have "length t \<le> length r" using peek_length [OF p] assms(1) by simp
  moreover have "b \<Longrightarrow> length (tok_rest n t) < length r" using peek_shorter [of s ts t n] p assms(1) by simp
  ultimately show "returns (case peek s ts of (False, s) \<Rightarrow> f s | (True, s) \<Rightarrow> g s) r"
    "returns (case peek s ts of (True, s) \<Rightarrow> g s | (False, s) \<Rightarrow> f s) r"
    using p assms(2,3) by (cases b; simp)+
qed

lemma parse_returns:
  "4 * length s + 4 \<le> d \<Longrightarrow> returns (parseline d n s) s"
  "4 * length s + 3 \<le> d \<Longrightarrow> returns (parsepipe d n s) s"
  "4 * length s + 2 \<le> d \<Longrightarrow> returns (parseexec d n s) s"
  "4 * length s + 1 \<le> d \<Longrightarrow> returns (parseblock d n s) s"
proof (induction d arbitrary: s)
  case (Suc d)
  {
    case 1
    have "returns (case peek t [59] of (False, s) \<Rightarrow> Some (Inr (c, s))
       | (True, s) \<Rightarrow> pbind (parseline d n (tok_rest n s)) (\<lambda>c' s. Some (Inr (LIST c c', s)))) s"
      if "length t \<le> length s" for c t
      by (rule returns_peek [OF that, where n = n], simp, rule returns_pbind, rule returns_mono [OF Suc.IH(1)]) (use 1 in auto)
    moreover have "returns (parseback (Suc (length t)) n c t) s" if "length t \<le> length s" for c t
      by (rule returns_mono [OF parseback_returns]) (use that in auto)
    moreover have "returns (parsepipe d n s) s" using 1 Suc.IH(2) by simp
    ultimately show ?case unfolding parseline.simps by (intro returns_pbind) auto
  next
    case 2
    have "returns (case peek t [124] of (False, s) \<Rightarrow> Some (Inr (c, s))
       | (True, s) \<Rightarrow> pbind (parsepipe d n (tok_rest n s)) (\<lambda>c' s. Some (Inr (PIPE c c', s)))) s"
      if "length t \<le> length s" for c t
      by (rule returns_peek [OF that, where n = n], simp, rule returns_pbind, rule returns_mono [OF Suc.IH(2)]) (use 2 in auto)
    moreover have "returns (parseexec d n s) s" using 2 Suc.IH(3) by simp
    ultimately show ?case unfolding parsepipe.simps by (intro returns_pbind) auto
  next
    case 3
    obtain b t where p: "peek s [40] = (b, t)" by force
    have t: "length t \<le> length s" by (rule peek_length [OF p])
    show ?case
      using p 3 t returns_mono [OF Suc.IH(4) t] returns_mono [OF parsesimple_returns t]
      by (auto simp: parseexec.simps split: bool.split)
  next
    case 4
    have "returns (case peek t [41] of (False, s) \<Rightarrow> Some (Inl (ShPanic ''syntax - missing )''))
        | (True, s) \<Rightarrow> let s = tok_rest n s in parseredirs (Suc (length s)) n c s) s"
      if "length t \<le> length s" for c t
      unfolding Let_def by (rule returns_peek [OF that, where n = n], simp, rule returns_mono [OF parseredirs_returns]) auto
    note * = this
    show ?case unfolding parseblock.simps
      by (rule returns_peek [OF order_refl, where n = n], simp, rule returns_pbind, rule returns_mono [OF Suc.IH(1)])
        (use 4 * in auto)
  }
qed simp_all

text \<open>
  C19: the parser of the shell ends on every line: the nesting of its calls never exceeds four per
  character of the line plus four, and its loops advance at every turn, so \<open>parsecmd\<close> yields a tree
  or a syntax error.
\<close>

theorem parsecmd_returns: "\<exists>r. parsecmd line = Some r"
proof -
  have "returns (parseline (PARSE_DEPTH (length line)) (length line) line) line"
    by (rule parse_returns) (simp add: PARSE_DEPTH_def)
  then show ?thesis
    by (auto simp: parsecmd_def Let_def returns_def split: option.splits sum.splits)
qed

end
