(* ===== verification/Sh_Parse.thy ===== *)
theory Sh_Parse
  imports Sh "HOL-Library.Sublist"
begin

text \<open>
  The parser of the shell inverts printing.  The strings of a command are those the tree points to
  after \<open>nulterminate\<close>; the grammar is followed on the level of tokens (\<open>reads\<close>), one lemma for every
  parsing function.
\<close>

section \<open>Words and their NULs\<close>

text \<open>A command with its strings; \<open>strings\<close> reads them off the line, \<open>cstrings\<close> up to the next NUL.\<close>

datatype scmd =
    SExec "u8 list list"
  | SRedir scmd "u8 list" u32 int
  | SPipe scmd scmd
  | SList scmd scmd
  | SBack scmd

definition piece :: "u8 list \<Rightarrow> nat \<times> nat \<Rightarrow> u8 list" where
  "piece line = (\<lambda>(q, eq). take (eq - q) (drop q line))"

fun strings :: "u8 list \<Rightarrow> cmd \<Rightarrow> scmd" where
  "strings b (EXEC as) = SExec (map (piece b) as)"
| "strings b (REDIR c q eq m fd) = SRedir (strings b c) (piece b (q, eq)) m fd"
| "strings b (PIPE c d) = SPipe (strings b c) (strings b d)"
| "strings b (LIST c d) = SList (strings b c) (strings b d)"
| "strings b (BACK c) = SBack (strings b c)"

fun cstrings :: "u8 list \<Rightarrow> cmd \<Rightarrow> scmd" where
  "cstrings b (EXEC as) = SExec (map (cstring b) as)"
| "cstrings b (REDIR c q eq m fd) = SRedir (cstrings b c) (cstring b (q, eq)) m fd"
| "cstrings b (PIPE c d) = SPipe (cstrings b c) (cstrings b d)"
| "cstrings b (LIST c d) = SList (cstrings b c) (cstrings b d)"
| "cstrings b (BACK c) = SBack (cstrings b c)"

fun ptrs :: "cmd \<Rightarrow> (nat \<times> nat) set" where
  "ptrs (EXEC as) = set as"
| "ptrs (REDIR c q eq m fd) = insert (q, eq) (ptrs c)"
| "ptrs (PIPE c d) = ptrs c \<union> ptrs d"
| "ptrs (LIST c d) = ptrs c \<union> ptrs d"
| "ptrs (BACK c) = ptrs c"

definition wordchar :: "u8 \<Rightarrow> bool" where
  "wordchar c \<longleftrightarrow> c \<noteq> 0 \<and> \<not> is_ws c \<and> \<not> is_sym c"

text \<open>The pointers delimit a word that cannot be made longer.\<close>

definition word_at :: "u8 list \<Rightarrow> nat \<times> nat \<Rightarrow> bool" where
  "word_at b = (\<lambda>(q, eq). q \<le> eq \<and> eq \<le> length b \<and> (\<forall>i. q \<le> i \<and> i < eq \<longrightarrow> wordchar (b ! i)) \<and>
     (eq < length b \<longrightarrow> \<not> wordchar (b ! eq)))"

lemma nulterminate_length [simp]: "length (nulterminate c b) = length b"
proof (induction c arbitrary: b)
  case (EXEC as)
  show ?case by (induction as arbitrary: b) auto
qed auto

lemma nulterminate_nth:
  "i < length b \<Longrightarrow> nulterminate c b ! i = (if \<exists>q. (q, i) \<in> ptrs c then 0 else b ! i)"
proof (induction c arbitrary: b)
  case (EXEC as)
  then show ?case
  proof (induction as arbitrary: b)
    case (Cons a as)
    have "(\<exists>q. (q, i) \<in> set (a # as)) \<longleftrightarrow> snd a = i \<or> (\<exists>q. (q, i) \<in> set as)" by (cases a) auto
    then show ?case using Cons by (cases a) (auto simp: nth_list_update)
  qed simp
next
  case (REDIR c q eq m fd)
  have "(\<exists>q'. (q', i) \<in> ptrs (REDIR c q eq m fd)) \<longleftrightarrow> eq = i \<or> (\<exists>q. (q, i) \<in> ptrs c)" by auto
  then show ?case using REDIR by (cases "eq = i") (simp_all add: nth_list_update)
qed auto

lemma cstring_nulterminate:
  assumes w: "\<forall>p \<in> ptrs c. word_at line p" and p: "p \<in> ptrs c"
  shows "cstring (nulterminate c (line @ [0])) p = piece line p"
proof -
  let ?b = "nulterminate c (line @ [0])"
  obtain q eq where pq: "p = (q, eq)" by force
  have wp: "q \<le> eq" "eq \<le> length line" "\<And>i. q \<le> i \<Longrightarrow> i < eq \<Longrightarrow> wordchar (line ! i)"
    using w p by (auto simp: word_at_def pq)
  have keep: "?b ! i = line ! i \<and> line ! i \<noteq> 0" if i: "q \<le> i" "i < eq" for i
  proof -
    have "wordchar (line ! i)" "i < length line" using wp i by auto
    moreover have "\<not> (\<exists>q. (q, i) \<in> ptrs c)"
      using w calculation by (auto simp: word_at_def)
    ultimately show ?thesis by (simp add: nulterminate_nth nth_append wordchar_def)
  qed
  have z: "?b ! eq = 0" using p pq wp by (auto simp: nulterminate_nth)
  have sl: "length (piece line p) = eq - q" using wp by (simp add: piece_def pq)
  have "drop q ?b = piece line p @ 0 # drop (Suc eq) ?b"
  proof (rule nth_equalityI)
    show "length (drop q ?b) = length (piece line p @ 0 # drop (Suc eq) ?b)"
      using wp sl by simp
    fix i assume i: "i < length (drop q ?b)"
    consider "i < eq - q" | "i = eq - q" | "eq - q < i" by linarith
    then show "drop q ?b ! i = (piece line p @ 0 # drop (Suc eq) ?b) ! i"
    proof cases
      case 1
      then show ?thesis using wp keep [of "q + i"] sl i by (simp add: nth_append piece_def pq)
    next
      case 2
      then show ?thesis using wp z sl i by (simp add: nth_append)
    next
      case 3
      then obtain j where "i = Suc (eq - q + j)" using less_imp_Suc_add by blast
      then have "i - (eq - q) = Suc j" "q + i = Suc eq + j" "\<not> i < eq - q" using wp by auto
      then show ?thesis using wp sl i by (simp add: nth_append)
    qed
  qed
  moreover have "\<forall>x \<in> set (piece line p). x \<noteq> 0"
    using wp keep by (auto simp: piece_def pq in_set_conv_nth)
  ultimately show ?thesis by (simp add: cstring_def pq takeWhile_tail takeWhile_eq_all_conv [THEN iffD2])
qed

lemma cstrings_nulterminate:
  assumes "\<forall>p \<in> ptrs c. word_at line p"
  shows "cstrings (nulterminate c (line @ [0])) c = strings line c"
proof -
  have "ptrs d \<subseteq> ptrs c \<Longrightarrow> cstrings (nulterminate c (line @ [0])) d = strings line d" for d
    using cstring_nulterminate [OF assms] by (induction d) auto
  then show ?thesis by blast
qed

section \<open>Reading a sequence of tokens\<close>

definition is_word :: "u8 list \<Rightarrow> bool" where
  "is_word t \<longleftrightarrow> t \<noteq> [] \<and> (\<forall>c \<in> set t. wordchar c)"

definition is_tok :: "u8 list \<Rightarrow> bool" where
  "is_tok t \<longleftrightarrow> is_word t \<or> t = [62, 62] \<or> (\<exists>c. t = [c] \<and> is_sym c)"

definition kind :: "u8 list \<Rightarrow> u8" where
  "kind t = (if t = [62, 62] then 43 else if is_sym (hd t) then hd t else 97)"

text \<open>The text of a sequence of tokens, each after a blank.\<close>

definition spell :: "u8 list list \<Rightarrow> u8 list" where
  "spell ts = concat (map (\<lambda>t. 32 # t) ts)"

lemma spell_simps [simp]: "spell [] = []" "spell (t # ts) = 32 # t @ spell ts"
  by (simp_all add: spell_def)

text \<open>The parser has \<open>s\<close> left of the line \<open>b\<close>, which reads as the tokens \<open>ts\<close>.\<close>

definition reads :: "u8 list \<Rightarrow> u8 list \<Rightarrow> u8 list list \<Rightarrow> bool" where
  "reads b s ts \<longleftrightarrow> suffix s b \<and> skip_ws s = skip_ws (spell ts) \<and> (\<forall>t \<in> set ts. is_tok t)"

definition first :: "u8 list list \<Rightarrow> u8" where
  "first ts = (if ts = [] then 0 else hd (hd ts))"

lemma sym_nws: "is_sym c \<Longrightarrow> \<not> is_ws c \<and> c \<noteq> 0"
  by (auto simp: symbols_def whitespace_def split: if_splits)

lemma tok_hd: "is_tok t \<Longrightarrow> \<exists>c t'. t = c # t' \<and> \<not> is_ws c \<and> c \<noteq> 0"
proof -
  have "\<not> is_ws 62" by (simp add: whitespace_def)
  then show "is_tok t \<Longrightarrow> ?thesis"
    unfolding is_tok_def is_word_def wordchar_def using sym_nws by (cases t) auto
qed

lemma skip_spell: "is_tok t \<Longrightarrow> skip_ws (spell (t # ts)) = t @ spell ts"
  using tok_hd [of t] by (auto simp: whitespace_def)

lemma suffix_skip: "suffix (skip_ws s) s"
  by (induction s) (auto simp: suffix_ConsI)

lemma reads_skip: "reads b s ts \<Longrightarrow> reads b (skip_ws s) ts"
  unfolding reads_def using suffix_skip suffix_order.trans by fastforce

lemma reads_peek:
  assumes "reads b s ts"
  shows "\<exists>s'. peek s X = (first ts \<noteq> 0 \<and> find0 (first ts) X \<noteq> None, s') \<and> reads b s' ts"
proof (cases ts)
  case Nil
  then show ?thesis using assms reads_skip [OF assms] by (simp add: peek_eq reads_def first_def)
next
  case (Cons t ts')
  then have "is_tok t" using assms by (simp add: reads_def)
  moreover have "skip_ws s = t @ spell ts'" using assms Cons skip_spell [of t ts'] by (simp add: reads_def)
  ultimately show ?thesis using reads_skip [OF assms] tok_hd [of t] Cons by (auto simp: peek_eq first_def)
qed

lemma reads_end: "reads b s [] \<Longrightarrow> fst (gettoken n s) = 0 \<and> reads b (tok_rest n s) []"
  using suffix_skip [of s] suffix_order.trans by (fastforce simp: reads_def gettoken_def)

lemma skip_word_spell: "(\<forall>c \<in> set t. wordchar c) \<Longrightarrow> skip_word (t @ spell ts) = spell ts"
  by (induction t) (cases ts, auto simp: wordchar_def whitespace_def)

lemma reads_rest: "suffix (t @ spell ts) b \<Longrightarrow> \<forall>t \<in> set ts. is_tok t \<Longrightarrow> reads b (skip_ws (spell ts)) ts"
  unfolding reads_def
  using suffix_skip [of "spell ts"] suffix_appendD [of t "spell ts" b] suffix_order.trans by fastforce

lemma word_spell:
  assumes "suffix (t @ spell ts) b" and "is_word t"
  shows "piece b (length b - length (t @ spell ts), length b - length (spell ts)) = t"
    "word_at b (length b - length (t @ spell ts), length b - length (spell ts))"
proof -
  obtain pre where b: "b = pre @ t @ spell ts" using assms(1) by (auto simp: suffix_def)
  show "piece b (length b - length (t @ spell ts), length b - length (spell ts)) = t"
    by (simp add: b piece_def)
  have "\<not> wordchar 32" by (simp add: wordchar_def whitespace_def)
  then show "word_at b (length b - length (t @ spell ts), length b - length (spell ts))"
    using assms(2) by (cases ts) (auto simp: word_at_def b is_word_def nth_append)
qed

lemma spell_nth0: "nth0 (spell ts) 0 \<noteq> 62"
  by (cases ts) auto

lemma reads_token:
  assumes "reads b s (t # ts)"
  shows "\<exists>q eq s'. gettoken (length b) s = (kind t, q, eq, s') \<and> reads b s' ts \<and> length s' < length s \<and>
    (is_word t \<longrightarrow> piece b (q, eq) = t \<and> word_at b (q, eq))"
proof -
  have t: "is_tok t" "\<forall>t \<in> set ts. is_tok t" using assms by (auto simp: reads_def)
  have s: "skip_ws s = t @ spell ts" using assms t skip_spell [of t ts] by (simp add: reads_def)
  have suf: "suffix (t @ spell ts) b"
    using assms suffix_skip [of s] suffix_order.trans unfolding s [symmetric] reads_def by blast
  have r: "reads b (skip_ws (spell ts)) ts" by (rule reads_rest [OF suf t(2)])
  have "nth0 (skip_ws s) 0 \<noteq> 0" using tok_hd [OF t(1)] s by auto
  note sh = gettoken_shorter [OF this, of "length b"]
  show ?thesis
  proof (cases "is_word t")
    case True
    then have "\<not> is_sym (hd t)" "hd t \<noteq> 0" "t \<noteq> []" by (auto simp: is_word_def wordchar_def)
    then have "gettoken (length b) s =
        (97, length b - length (t @ spell ts), length b - length (spell ts), skip_ws (spell ts))"
      using s True skip_word_spell [of t ts] unfolding symbol_cases
      by (cases t) (auto simp: gettoken_def Let_def is_word_def)
    moreover have "kind t = 97" using True \<open>\<not> is_sym (hd t)\<close> by (auto simp: kind_def symbols_def)
    ultimately show ?thesis using word_spell [OF suf True] r sh by auto
  next
    case False
    then have "t = [62, 62] \<or> t = [60] \<or> t = [124] \<or> t = [62] \<or> t = [38] \<or> t = [59] \<or> t = [40] \<or> t = [41]"
      using t(1) unfolding is_tok_def symbol_cases by blast
    then have "fst (gettoken (length b) s) = kind t \<and> tok_rest (length b) s = skip_ws (spell ts)"
      using spell_nth0 [of ts] by (elim disjE) (simp_all add: gettoken_def s kind_def symbols_def)
    then show ?thesis using r sh False by (cases "gettoken (length b) s") auto
  qed
qed

section \<open>Writing a command down\<close>

definition redir_op :: "u32 \<Rightarrow> u8 list" where
  "redir_op m = (if m = O_RDONLY then [60] else if m AND O_TRUNC \<noteq> 0 then [62] else [62, 62])"

text \<open>
  The tokens of a command where a whole line can stand, in front of \<open>;\<close>, beside \<open>|\<close>, and where
  only a simple command or a block can; the latter puts the others in parentheses.
\<close>

function tk_line :: "scmd \<Rightarrow> u8 list list" and tk_bg :: "scmd \<Rightarrow> u8 list list"
  and tk_pipe :: "scmd \<Rightarrow> u8 list list" and tk_ex :: "scmd \<Rightarrow> u8 list list" where
  "tk_line c = (case c of SList l r \<Rightarrow> tk_bg l @ [59] # tk_line r | _ \<Rightarrow> tk_bg c)"
| "tk_bg c = (case c of SBack d \<Rightarrow> tk_bg d @ [[38]] | _ \<Rightarrow> tk_pipe c)"
| "tk_pipe c = (case c of SPipe l r \<Rightarrow> tk_ex l @ [124] # tk_pipe r | _ \<Rightarrow> tk_ex c)"
| "tk_ex c =
     (case c of SExec as \<Rightarrow> as
      | SRedir d f m fd \<Rightarrow> tk_ex d @ [redir_op m, f]
      | SList l r \<Rightarrow> [40] # tk_bg l @ [59] # tk_line r @ [[41]]
      | SBack d \<Rightarrow> [40] # tk_bg d @ [[38], [41]]
      | SPipe l r \<Rightarrow> [40] # tk_ex l @ [124] # tk_pipe r @ [[41]])"
  by pat_completeness auto
termination
  by (relation "measures
    [\<lambda>x. case x of Inl (Inl c) \<Rightarrow> size c | Inl (Inr c) \<Rightarrow> size c | Inr (Inl c) \<Rightarrow> size c | Inr (Inr c) \<Rightarrow> size c,
     \<lambda>x. case x of Inl (Inl c) \<Rightarrow> 3 | Inl (Inr c) \<Rightarrow> 2 | Inr (Inl c) \<Rightarrow> 1 | Inr (Inr c) \<Rightarrow> 0]") auto

declare tk_line.simps [simp del] tk_bg.simps [simp del] tk_pipe.simps [simp del] tk_ex.simps [simp del]

lemmas tk_unfold = tk_line.simps tk_bg.simps tk_pipe.simps tk_ex.simps

definition redir_ok :: "u8 list \<Rightarrow> u32 \<Rightarrow> int \<Rightarrow> bool" where
  "redir_ok f m fd \<longleftrightarrow> is_word f \<and>
     (m, fd) \<in> {(O_RDONLY, 0), (O_WRONLY OR O_CREATE OR O_TRUNC, 1), (O_WRONLY OR O_CREATE, 1)}"

text \<open>The commands the syntax can express.\<close>

fun scmd_ok :: "scmd \<Rightarrow> bool" where
  "scmd_ok (SExec as) \<longleftrightarrow> length as < MAXARGS \<and> (\<forall>a \<in> set as. is_word a)"
| "scmd_ok (SRedir c f m fd) \<longleftrightarrow> scmd_ok c \<and> redir_ok f m fd"
| "scmd_ok (SPipe c d) \<longleftrightarrow> scmd_ok c \<and> scmd_ok d"
| "scmd_ok (SList c d) \<longleftrightarrow> scmd_ok c \<and> scmd_ok d"
| "scmd_ok (SBack c) \<longleftrightarrow> scmd_ok c"

definition show_cmd :: "scmd \<Rightarrow> u8 list" where
  "show_cmd c = spell (tk_line c)"

text \<open>The tree \<open>c'\<close> in the line \<open>b\<close> stands for the command \<open>c\<close>.\<close>

definition stands :: "u8 list \<Rightarrow> cmd \<Rightarrow> scmd \<Rightarrow> bool" where
  "stands b c' c \<longleftrightarrow> strings b c' = c \<and> (\<forall>p \<in> ptrs c'. word_at b p)"

lemma pbind_Inr [simp]: "pbind (Some (Inr (a, s))) f = f a s"
  by (simp add: pbind_def)

subsection \<open>Redirections\<close>

type_synonym redir = "u8 list \<times> u32 \<times> int"

fun rtoks :: "redir \<Rightarrow> u8 list list" where
  "rtoks (f, m, fd) = [redir_op m, f]"

definition wrap :: "redir list \<Rightarrow> scmd \<Rightarrow> scmd" where
  "wrap rs c = foldl (\<lambda>c (f, m, fd). SRedir c f m fd) c rs"

lemma wrap_simps [simp]: "wrap [] c = c" "wrap ((f, m, fd) # rs) c = wrap rs (SRedir c f m fd)"
  by (simp_all add: wrap_def)

abbreviation redirs_ok :: "redir list \<Rightarrow> bool" where
  "redirs_ok rs \<equiv> \<forall>(f, m, fd) \<in> set rs. redir_ok f m fd"

lemma redir_tok:
  assumes "redir_ok f m fd"
  shows "kind (redir_op m) = (if m = O_RDONLY then 60 else if m AND O_TRUNC \<noteq> 0 then 62 else 43)"
    "hd (redir_op m) = 60 \<or> hd (redir_op m) = 62" "redir_op m \<noteq> []"
    "m = O_RDONLY \<and> fd = 0 \<or> m = (O_WRONLY OR O_CREATE OR O_TRUNC) \<and> fd = 1 \<or> m = (O_WRONLY OR O_CREATE) \<and> fd = 1"
  using assms by (auto simp: redir_ok_def redir_op_def kind_def symbols_def)

lemma word_kind: "is_word t \<Longrightarrow> kind t = 97"
  by (cases t) (auto simp: kind_def is_word_def wordchar_def symbols_def split: if_splits)

lemma parseredirs_toks:
  assumes "reads b s (concat (map rtoks rs) @ ts)" and "redirs_ok rs" and "first ts \<noteq> 60" "first ts \<noteq> 62"
    and "length s < k" and "stands b c' c"
  shows "\<exists>d s'. parseredirs k (length b) c' s = Some (Inr (d, s')) \<and> reads b s' ts \<and> stands b d (wrap rs c)"
  using assms
proof (induction rs arbitrary: s k c c')
  case Nil
  then obtain k' where k: "k = Suc k'" by (cases k) auto
  obtain s' where "peek s [60, 62] = (False, s')" "reads b s' ts"
    using reads_peek [of b s ts "[60, 62]"] Nil by auto
  then show ?case using Nil k by (simp add: parseredirs.simps)
next
  case (Cons r rs)
  obtain f m fd where r: "r = (f, m, fd)" by (cases r)
  obtain k' where k: "k = Suc k'" using Cons.prems by (cases k) auto
  have ok: "redir_ok f m fd" "redirs_ok rs" using Cons.prems r by auto
  let ?ts = "concat (map rtoks rs) @ ts"
  have rd: "reads b s (redir_op m # f # ?ts)" using Cons.prems(1) r by simp
  have "first (redir_op m # f # ?ts) = 60 \<or> first (redir_op m # f # ?ts) = 62"
    using redir_tok [OF ok(1)] by (simp add: first_def)
  then obtain s1 where s1: "peek s [60, 62] = (True, s1)" "reads b s1 (redir_op m # f # ?ts)"
    using reads_peek [OF rd, of "[60, 62]"] by auto
  obtain q1 e1 s2 where s2: "gettoken (length b) s1 = (kind (redir_op m), q1, e1, s2)" "reads b s2 (f # ?ts)" "length s2 < length s1"
    using reads_token [OF s1(2)] by blast
  have f: "is_word f" using ok(1) by (simp add: redir_ok_def)
  obtain q e s3 where s3: "gettoken (length b) s2 = (97, q, e, s3)" "reads b s3 ?ts" "length s3 < length s2"
    "piece b (q, e) = f" "word_at b (q, e)"
    using reads_token [OF s2(2)] f word_kind [OF f] by auto
  have st: "stands b (REDIR c' q e m fd) (SRedir c f m fd)"
    using Cons.prems(6) s3(4,5) by (simp add: stands_def)
  have "length s3 < k'" using Cons.prems(5) k s2(3) s3(3) peek_length [OF s1(1)] by simp
  from Cons.IH [OF s3(2) ok(2) Cons.prems(3,4) this st]
  obtain d s' where "parseredirs k' (length b) (REDIR c' q e m fd) s3 = Some (Inr (d, s'))" "reads b s' ts"
    "stands b d (wrap rs (SRedir c f m fd))" by blast
  moreover have "parseredirs k (length b) c' s = parseredirs k' (length b) (REDIR c' q e m fd) s3"
    using redir_tok(1,4) [OF ok(1)] by (auto simp: k parseredirs.simps s1(1) s2(1) s3(1))
  ultimately show ?case using r by simp
qed

subsection \<open>Simple commands\<close>

fun sset :: "u8 list list \<Rightarrow> scmd \<Rightarrow> scmd" where
  "sset as (SExec _) = SExec as"
| "sset as (SRedir c f m fd) = SRedir (sset as c) f m fd"
| "sset as c = c"

lemma sset_wrap: "sset as (wrap rs (SExec xs)) = wrap rs (SExec as)"
proof -
  have "sset as (wrap rs c) = wrap rs (sset as c)" for c
    by (induction rs arbitrary: c) auto
  then show ?thesis by simp
qed

lemma stands_set_args:
  assumes "stands b ret r" and "\<forall>p \<in> set as. word_at b p"
  shows "stands b (set_args as ret) (sset (map (piece b) as) r)"
proof -
  have "strings b (set_args as ret) = sset (map (piece b) as) (strings b ret)" by (induction ret) auto
  moreover have "ptrs (set_args as ret) \<subseteq> set as \<union> ptrs ret" by (induction ret) auto
  ultimately show ?thesis using assms by (auto simp: stands_def)
qed

text \<open>The tokens at which a simple command ends.\<close>

definition stop :: "u8 list list \<Rightarrow> bool" where
  "stop ts \<longleftrightarrow> first ts \<in> {0, 124, 41, 38, 59}"

lemma first_zero: "reads b s ts \<Longrightarrow> first ts = 0 \<Longrightarrow> ts = []"
  using tok_hd [of "hd ts"] by (cases ts) (auto simp: reads_def first_def)

lemma parseargs_stop:
  assumes "reads b s ts" and "stop ts"
  shows "\<exists>s'. parseargs (Suc k) (length b) as ret s = Some (Inr (set_args as ret, s')) \<and> reads b s' ts"
proof -
  obtain s1 where s1: "peek s [124, 41, 38, 59] = (first ts \<noteq> 0 \<and> find0 (first ts) [124, 41, 38, 59] \<noteq> None, s1)" "reads b s1 ts"
    using reads_peek [OF assms(1)] by blast
  show ?thesis
  proof (cases "first ts = 0")
    case True
    then have "ts = []" using first_zero assms(1) by blast
    then have "fst (gettoken (length b) s1) = 0" "reads b (tok_rest (length b) s1) ts"
      using reads_end [of b s1 "length b"] s1(2) by auto
    then show ?thesis using s1 True by (cases "gettoken (length b) s1") (auto simp: parseargs.simps)
  next
    case False
    then show ?thesis using s1 assms(2) by (auto simp: parseargs.simps stop_def)
  qed
qed

lemma first_word: "is_word w \<Longrightarrow> \<not> is_sym (first (w # ts)) \<and> first (w # ts) \<noteq> 0"
  by (cases w) (auto simp: first_def is_word_def wordchar_def)

lemma parseargs_word:
  assumes "reads b s (w # ts)" and "is_word w" and "Suc (length as) < MAXARGS"
  shows "\<exists>q e r. piece b (q, e) = w \<and> word_at b (q, e) \<and> reads b r ts \<and> length r < length s \<and>
    parseargs (Suc k) (length b) as ret s = pbind (parseredirs (Suc (length r)) (length b) ret r)
      (\<lambda>ret s. parseargs k (length b) (as @ [(q, e)]) ret s)"
proof -
  have "find0 (first (w # ts)) [124, 41, 38, 59] = None"
    using first_word [OF assms(2), of ts] by (auto simp: symbols_def split: if_splits)
  then obtain s1 where s1: "peek s [124, 41, 38, 59] = (False, s1)" "reads b s1 (w # ts)"
    using reads_peek [OF assms(1), of "[124, 41, 38, 59]"] by auto
  obtain q e r where "gettoken (length b) s1 = (97, q, e, r)" "reads b r ts" "length r < length s1"
    "piece b (q, e) = w" "word_at b (q, e)"
    using reads_token [OF s1(2)] assms(2) word_kind [OF assms(2)] by auto
  then show ?thesis
    using s1 peek_length [OF s1(1)] assms(3)
    by (intro exI [of _ q] exI [of _ e] exI [of _ r]) (simp add: parseargs.simps)
qed

lemma stands_empty: "stands b (EXEC []) (SExec [])" "stands b d (SExec []) \<Longrightarrow> d = EXEC []"
  by (simp add: stands_def) (cases d; simp add: stands_def)

lemma stop_redir: "stop ts \<Longrightarrow> first ts \<noteq> 60 \<and> first ts \<noteq> 62"
  by (auto simp: stop_def)

lemma word_redir: "is_word w \<Longrightarrow> first (w # ts) \<noteq> 60 \<and> first (w # ts) \<noteq> 62"
  using first_word [of w ts] by (auto simp: symbols_def)

lemma parseargs_toks:
  assumes "reads b s (w # ws @ concat (map rtoks rs) @ ts)" and "\<forall>a \<in> set (w # ws). is_word a" and "redirs_ok rs"
    and "stop ts" and "length s < k" and "\<forall>p \<in> set as. word_at b p" and "length as + length (w # ws) < MAXARGS"
  shows "\<exists>d s'. parseargs k (length b) as (EXEC []) s = Some (Inr (d, s')) \<and> reads b s' ts \<and>
    stands b d (wrap rs (SExec (map (piece b) as @ w # ws)))"
  using assms
proof (induction ws arbitrary: w s k as)
  case Nil
  obtain k' where k: "k = Suc k'" using Nil.prems by (cases k) auto
  have w: "is_word w" "Suc (length as) < MAXARGS" using Nil.prems by auto
  obtain q e r where r: "piece b (q, e) = w" "word_at b (q, e)" "reads b r (concat (map rtoks rs) @ ts)" "length r < length s"
    "parseargs (Suc k') (length b) as (EXEC []) s = pbind (parseredirs (Suc (length r)) (length b) (EXEC []) r)
      (\<lambda>ret s. parseargs k' (length b) (as @ [(q, e)]) ret s)"
    using parseargs_word [OF _ w] Nil.prems(1) unfolding append_Nil by blast
  obtain d r' where d: "parseredirs (Suc (length r)) (length b) (EXEC []) r = Some (Inr (d, r'))" "reads b r' ts"
    "stands b d (wrap rs (SExec []))"
    using parseredirs_toks [OF r(3) Nil.prems(3)] stop_redir [OF Nil.prems(4)] stands_empty(1) by blast
  obtain j where j: "k' = Suc j" using r(4) Nil.prems(5) k by (cases k') auto
  obtain s' where s': "parseargs k' (length b) (as @ [(q, e)]) d r' = Some (Inr (set_args (as @ [(q, e)]) d, s'))" "reads b s' ts"
    using parseargs_stop [OF d(2) Nil.prems(4)] j by blast
  have "\<forall>p \<in> set (as @ [(q, e)]). word_at b p" using Nil.prems(6) r(2) by auto
  then have "stands b (set_args (as @ [(q, e)]) d) (wrap rs (SExec (map (piece b) as @ [w])))"
    using stands_set_args [OF d(3), of "as @ [(q, e)]"] r(1) by (simp add: sset_wrap)
  then show ?case using r(5) d(1) s' k by simp
next
  case (Cons w' ws)
  obtain k' where k: "k = Suc k'" using Cons.prems by (cases k) auto
  have w: "is_word w" "Suc (length as) < MAXARGS" "is_word w'" using Cons.prems by auto
  let ?ts = "w' # ws @ concat (map rtoks rs) @ ts"
  obtain q e r where r: "piece b (q, e) = w" "word_at b (q, e)" "reads b r ?ts" "length r < length s"
    "parseargs (Suc k') (length b) as (EXEC []) s = pbind (parseredirs (Suc (length r)) (length b) (EXEC []) r)
      (\<lambda>ret s. parseargs k' (length b) (as @ [(q, e)]) ret s)"
    using parseargs_word [OF _ w(1,2)] Cons.prems(1) unfolding append_Cons by blast
  have rs: "reads b r (concat (map rtoks []) @ ?ts)" using r(3) by simp
  obtain d r' where "parseredirs (Suc (length r)) (length b) (EXEC []) r = Some (Inr (d, r'))" "reads b r' ?ts"
    "stands b d (wrap [] (SExec []))"
    using parseredirs_toks [OF rs _ _ _ _ stands_empty(1), of "Suc (length r)"] word_redir [OF w(3)] by auto
  then have d: "parseredirs (Suc (length r)) (length b) (EXEC []) r = Some (Inr (EXEC [], r'))" "reads b r' ?ts"
    using stands_empty(2) by auto
  have "length r' < k'"
    using parseredirs_returns [of r "Suc (length r)" "length b" "EXEC []"] d(1) r(4) Cons.prems(5) k by simp
  then have "\<exists>d s'. parseargs k' (length b) (as @ [(q, e)]) (EXEC []) r' = Some (Inr (d, s')) \<and> reads b s' ts \<and>
      stands b d (wrap rs (SExec (map (piece b) (as @ [(q, e)]) @ w' # ws)))"
    using Cons.prems r(2) by (intro Cons.IH [OF d(2)]) auto
  then show ?case using r(1,5) d(1) k by simp
qed

lemma parsesimple_toks:
  assumes "reads b s (as @ concat (map rtoks rs) @ ts)" and "\<forall>a \<in> set as. is_word a" and "redirs_ok rs"
    and "stop ts" and "length as < MAXARGS"
  shows "\<exists>d s'. parsesimple (length b) s = Some (Inr (d, s')) \<and> reads b s' ts \<and> stands b d (wrap rs (SExec as))"
proof (cases as)
  case Nil
  obtain d r where d: "parseredirs (Suc (length s)) (length b) (EXEC []) s = Some (Inr (d, r))" "reads b r ts"
    "stands b d (wrap rs (SExec []))"
    using parseredirs_toks [OF _ assms(3)] assms(1) stop_redir [OF assms(4)] stands_empty(1) unfolding Nil append_Nil by blast
  obtain s' where s': "parseargs (Suc (length r)) (length b) [] d r = Some (Inr (set_args [] d, s'))" "reads b s' ts"
    using parseargs_stop [OF d(2) assms(4)] by blast
  have "stands b (set_args [] d) (wrap rs (SExec []))"
    using stands_set_args [OF d(3), of "[]"] by (simp add: sset_wrap)
  then show ?thesis using d s' Nil by (simp add: parsesimple_def)
next
  case (Cons w ws)
  have rd: "reads b s (concat (map rtoks []) @ w # ws @ concat (map rtoks rs) @ ts)" using assms(1) Cons by simp
  have w: "is_word w" using assms(2) Cons by simp
  obtain d r where "parseredirs (Suc (length s)) (length b) (EXEC []) s = Some (Inr (d, r))"
    "reads b r (w # ws @ concat (map rtoks rs) @ ts)" "stands b d (wrap [] (SExec []))"
    using parseredirs_toks [OF rd _ _ _ _ stands_empty(1), of "Suc (length s)"] word_redir [OF w] by auto
  then have d: "parseredirs (Suc (length s)) (length b) (EXEC []) s = Some (Inr (EXEC [], r))"
    "reads b r (w # ws @ concat (map rtoks rs) @ ts)"
    using stands_empty(2) by auto
  show ?thesis
    using parseargs_toks [OF d(2), of "Suc (length r)" "[]"] assms Cons d(1) by (simp add: parsesimple_def)
qed

subsection \<open>Lines, pipelines and blocks\<close>

lemma peek_not: "reads b s ts \<Longrightarrow> find0 (first ts) X = None \<Longrightarrow> \<exists>s'. peek s X = (False, s') \<and> reads b s' ts"
  using reads_peek [of b s ts X] by simp

lemma peek_tok:
  assumes "reads b s ([c] # ts)" and "is_sym c"
  shows "\<exists>s'. peek s [c] = (True, s') \<and> reads b (tok_rest (length b) s') ts \<and> length (tok_rest (length b) s') < length s"
proof -
  have "c \<noteq> 0" using sym_nws [OF assms(2)] by simp
  then obtain s' where s': "peek s [c] = (True, s')" "reads b s' ([c] # ts)"
    using reads_peek [OF assms(1), of "[c]"] by (auto simp: first_def)
  obtain q e r where "gettoken (length b) s' = (kind [c], q, e, r)" "reads b r ts" "length r < length s'"
    using reads_token [OF s'(2)] by blast
  then show ?thesis using s' peek_length [OF s'(1)] by simp
qed

lemma parseback_toks:
  assumes "reads b s (replicate j [38] @ ts)" and "first ts \<noteq> 38" and "length s < k" and "stands b c' c"
  shows "\<exists>d s'. parseback k (length b) c' s = Some (Inr (d, s')) \<and> reads b s' ts \<and> stands b d ((SBack ^^ j) c)"
  using assms
proof (induction j arbitrary: s k c c')
  case 0
  obtain k' where k: "k = Suc k'" using 0 by (cases k) auto
  obtain s' where "peek s [38] = (False, s')" "reads b s' ts" using peek_not [of b s ts "[38]"] 0 by auto
  then show ?case using 0 k by (simp add: parseback.simps)
next
  case (Suc j)
  obtain k' where k: "k = Suc k'" using Suc.prems by (cases k) auto
  have "reads b s ([38] # replicate j [38] @ ts)" using Suc.prems(1) by simp
  then obtain s' where s': "peek s [38] = (True, s')" "reads b (tok_rest (length b) s') (replicate j [38] @ ts)"
    "length (tok_rest (length b) s') < length s"
    using peek_tok [of b s 38 "replicate j [38] @ ts"] by (auto simp: symbols_def)
  have "stands b (BACK c') (SBack c)" using Suc.prems(4) by (simp add: stands_def)
  then obtain d t where "parseback k' (length b) (BACK c') (tok_rest (length b) s') = Some (Inr (d, t))" "reads b t ts"
    "stands b d ((SBack ^^ j) (SBack c))"
    using Suc.IH [OF s'(2) Suc.prems(2), of k' "BACK c'" "SBack c"] s'(3) Suc.prems(3) k by auto
  then show ?case using s'(1) k by (simp add: parseback.simps funpow_swap1)
qed

text \<open>What the three parsing functions do on the tokens of \<open>c\<close>.\<close>

definition line_spec :: "u8 list \<Rightarrow> scmd \<Rightarrow> bool" where
  "line_spec b c \<longleftrightarrow> (\<forall>s ts d. reads b s (tk_line c @ ts) \<longrightarrow> first ts \<in> {0, 41} \<longrightarrow> 4 * length s + 4 \<le> d \<longrightarrow>
     (\<exists>c' s'. parseline d (length b) s = Some (Inr (c', s')) \<and> reads b s' ts \<and> stands b c' c))"

definition pipe_spec :: "u8 list \<Rightarrow> scmd \<Rightarrow> bool" where
  "pipe_spec b c \<longleftrightarrow> (\<forall>s ts d. reads b s (tk_pipe c @ ts) \<longrightarrow> first ts \<in> {0, 41, 38, 59} \<longrightarrow> 4 * length s + 3 \<le> d \<longrightarrow>
     (\<exists>c' s'. parsepipe d (length b) s = Some (Inr (c', s')) \<and> reads b s' ts \<and> stands b c' c))"

definition exec_spec :: "u8 list \<Rightarrow> scmd \<Rightarrow> bool" where
  "exec_spec b c \<longleftrightarrow> (\<forall>s ts d. reads b s (tk_ex c @ ts) \<longrightarrow> stop ts \<longrightarrow> 4 * length s + 2 \<le> d \<longrightarrow>
     (\<exists>c' s'. parseexec d (length b) s = Some (Inr (c', s')) \<and> reads b s' ts \<and> stands b c' c))"

lemma tk_back: "tk_bg ((SBack ^^ j) c) = tk_bg c @ replicate j [38]"
  by (induction j) (simp_all add: tk_bg.simps [of "SBack _"] replicate_append_same)

lemma back_form: "\<exists>j c0. c = (SBack ^^ j) c0 \<and> (\<forall>d. c0 \<noteq> SBack d) \<and> (c0 = c \<or> size c0 < size c)"
proof (induction c)
  case (SBack c)
  then obtain j c0 where "c = (SBack ^^ j) c0" "\<forall>d. c0 \<noteq> SBack d" "c0 = c \<or> size c0 < size c" by blast
  then show ?case by (intro exI [of _ "Suc j"] exI [of _ c0]) auto
qed (metis funpow_0 scmd.distinct)+

lemma back_first: "first ts \<in> {0, 41, 59} \<Longrightarrow> first (replicate j [38] @ ts) \<in> {0, 41, 38, 59}"
  by (cases j) (auto simp: first_def)

lemma background:
  assumes "pipe_spec b c0" and "\<forall>d. c0 \<noteq> SBack d" and "reads b s (tk_bg ((SBack ^^ j) c0) @ ts)"
    and "first ts \<in> {0, 41, 59}" and "4 * length s + 3 \<le> d"
  shows "\<exists>c1 s1 c' s'. parsepipe d (length b) s = Some (Inr (c1, s1)) \<and> length s1 \<le> length s \<and>
    parseback (Suc (length s1)) (length b) c1 s1 = Some (Inr (c', s')) \<and> length s' \<le> length s1 \<and> reads b s' ts \<and>
    stands b c' ((SBack ^^ j) c0)"
proof -
  have "tk_bg c0 = tk_pipe c0" using assms(2) by (simp add: tk_bg.simps split: scmd.split)
  then have "reads b s (tk_pipe c0 @ replicate j [38] @ ts)" using assms(3) by (simp add: tk_back)
  then obtain c1 s1 where 1: "parsepipe d (length b) s = Some (Inr (c1, s1))" "reads b s1 (replicate j [38] @ ts)" "stands b c1 c0"
    using assms(1,5) back_first [OF assms(4)] unfolding pipe_spec_def by blast
  have l1: "length s1 \<le> length s" using parse_returns(2) [OF assms(5), of "length b"] 1(1) by simp
  obtain c' s' where 2: "parseback (Suc (length s1)) (length b) c1 s1 = Some (Inr (c', s'))" "reads b s' ts"
    "stands b c' ((SBack ^^ j) c0)"
    using parseback_toks [OF 1(2) _ _ 1(3), of "Suc (length s1)"] assms(4) by auto
  have "length s' \<le> length s1" using parseback_returns [of s1 "Suc (length s1)" "length b" c1] 2(1) by simp
  then show ?thesis using 1(1) l1 2 by blast
qed

lemma line_of_pipe:
  assumes "pipe_spec b c0" and "\<forall>d. c0 \<noteq> SBack d" and "\<forall>l r. (SBack ^^ j) c0 \<noteq> SList l r"
  shows "line_spec b ((SBack ^^ j) c0)"
  unfolding line_spec_def
proof (intro allI impI)
  fix s ts d
  let ?c = "(SBack ^^ j) c0"
  assume a: "reads b s (tk_line ?c @ ts)" "first ts \<in> {0, 41}" "4 * length s + 4 \<le> d"
  obtain d' where d: "d = Suc d'" using a(3) by (cases d) auto
  have "tk_line ?c = tk_bg ?c" using assms(3) by (simp add: tk_line.simps split: scmd.split)
  then obtain c1 s1 c' s2 where 1: "parsepipe d' (length b) s = Some (Inr (c1, s1))"
    "parseback (Suc (length s1)) (length b) c1 s1 = Some (Inr (c', s2))" "reads b s2 ts" "stands b c' ?c"
    using background [OF assms(1,2), of s j ts d'] a d by auto
  obtain s3 where "peek s2 [59] = (False, s3)" "reads b s3 ts" using peek_not [OF 1(3), of "[59]"] a(2) by auto
  then show "\<exists>c' s'. parseline d (length b) s = Some (Inr (c', s')) \<and> reads b s' ts \<and> stands b c' ?c"
    using 1 d by (simp add: parseline.simps)
qed

lemma line_of_list:
  assumes "pipe_spec b l0" and "\<forall>d. l0 \<noteq> SBack d" and "line_spec b r"
  shows "line_spec b (SList ((SBack ^^ j) l0) r)"
  unfolding line_spec_def
proof (intro allI impI)
  fix s ts d
  let ?l = "(SBack ^^ j) l0"
  assume a: "reads b s (tk_line (SList ?l r) @ ts)" "first ts \<in> {0, 41}" "4 * length s + 4 \<le> d"
  obtain d' where d: "d = Suc d'" using a(3) by (cases d) auto
  have "reads b s (tk_bg ?l @ [59] # tk_line r @ ts)" using a(1) by (simp add: tk_line.simps [of "SList _ _"])
  then obtain c1 s1 c' s2 where 1: "parsepipe d' (length b) s = Some (Inr (c1, s1))" "length s1 \<le> length s"
    "parseback (Suc (length s1)) (length b) c1 s1 = Some (Inr (c', s2))" "length s2 \<le> length s1"
    "reads b s2 ([59] # tk_line r @ ts)" "stands b c' ?l"
    using background [OF assms(1,2), of s j "[59] # tk_line r @ ts" d'] a d by (auto simp: first_def)
  obtain s3 where s3: "peek s2 [59] = (True, s3)" "reads b (tok_rest (length b) s3) (tk_line r @ ts)"
    "length (tok_rest (length b) s3) < length s2"
    using peek_tok [OF 1(5)] by (auto simp: symbols_def)
  have "4 * length (tok_rest (length b) s3) + 4 \<le> d'" using s3(3) 1(2,4) a(3) d by simp
  then obtain c2 s' where "parseline d' (length b) (tok_rest (length b) s3) = Some (Inr (c2, s'))" "reads b s' ts" "stands b c2 r"
    using assms(3) s3(2) a(2) unfolding line_spec_def by blast
  then show "\<exists>c' s'. parseline d (length b) s = Some (Inr (c', s')) \<and> reads b s' ts \<and> stands b c' (SList ?l r)"
    using 1 s3(1) d by (auto simp: parseline.simps stands_def)
qed

lemma pipe_of_exec:
  assumes "exec_spec b c" and "\<forall>l r. c \<noteq> SPipe l r"
  shows "pipe_spec b c"
  unfolding pipe_spec_def
proof (intro allI impI)
  fix s ts d
  assume a: "reads b s (tk_pipe c @ ts)" "first ts \<in> {0, 41, 38, 59}" "4 * length s + 3 \<le> d"
  obtain d' where d: "d = Suc d'" using a(3) by (cases d) auto
  have "tk_pipe c = tk_ex c" using assms(2) by (simp add: tk_pipe.simps split: scmd.split)
  moreover have "stop ts" using a(2) by (auto simp: stop_def)
  ultimately obtain c' s1 where 1: "parseexec d' (length b) s = Some (Inr (c', s1))" "reads b s1 ts" "stands b c' c"
    using assms(1) a d unfolding exec_spec_def by fastforce
  obtain s2 where "peek s1 [124] = (False, s2)" "reads b s2 ts" using peek_not [OF 1(2), of "[124]"] a(2) by auto
  then show "\<exists>c' s'. parsepipe d (length b) s = Some (Inr (c', s')) \<and> reads b s' ts \<and> stands b c' c"
    using 1 d by (simp add: parsepipe.simps)
qed

lemma pipe_of_pipe:
  assumes "exec_spec b l" and "pipe_spec b r"
  shows "pipe_spec b (SPipe l r)"
  unfolding pipe_spec_def
proof (intro allI impI)
  fix s ts d
  assume a: "reads b s (tk_pipe (SPipe l r) @ ts)" "first ts \<in> {0, 41, 38, 59}" "4 * length s + 3 \<le> d"
  obtain d' where d: "d = Suc d'" using a(3) by (cases d) auto
  have rd: "reads b s (tk_ex l @ [124] # tk_pipe r @ ts)" using a(1) by (simp add: tk_pipe.simps [of "SPipe _ _"])
  have "stop ([124] # tk_pipe r @ ts)" by (simp add: stop_def first_def)
  then obtain c1 s1 where 1: "parseexec d' (length b) s = Some (Inr (c1, s1))" "reads b s1 ([124] # tk_pipe r @ ts)" "stands b c1 l"
    using assms(1) rd a(3) d unfolding exec_spec_def by fastforce
  have l1: "length s1 \<le> length s" using parse_returns(3) [of s d' "length b"] 1(1) a(3) d by simp
  obtain s3 where s3: "peek s1 [124] = (True, s3)" "reads b (tok_rest (length b) s3) (tk_pipe r @ ts)"
    "length (tok_rest (length b) s3) < length s1"
    using peek_tok [OF 1(2)] by (auto simp: symbols_def)
  have "4 * length (tok_rest (length b) s3) + 3 \<le> d'" using s3(3) l1 a(3) d by simp
  then obtain c2 s' where "parsepipe d' (length b) (tok_rest (length b) s3) = Some (Inr (c2, s'))" "reads b s' ts" "stands b c2 r"
    using assms(2) s3(2) a(2) unfolding pipe_spec_def by blast
  then show "\<exists>c' s'. parsepipe d (length b) s = Some (Inr (c', s')) \<and> reads b s' ts \<and> stands b c' (SPipe l r)"
    using 1 s3(1) d by (auto simp: parsepipe.simps stands_def)
qed

lemma redir_form:
  "\<exists>rs c0. c = wrap rs c0 \<and> (\<forall>d f m fd. c0 \<noteq> SRedir d f m fd) \<and> tk_ex c = tk_ex c0 @ concat (map rtoks rs) \<and>
     (scmd_ok c \<longrightarrow> scmd_ok c0 \<and> redirs_ok rs) \<and> (rs = [] \<or> size c0 < size c)"
proof (induction c)
  case (SRedir c f m fd)
  then obtain rs c0 where "c = wrap rs c0" "\<forall>d f m fd. c0 \<noteq> SRedir d f m fd"
    "tk_ex c = tk_ex c0 @ concat (map rtoks rs)" "scmd_ok c \<longrightarrow> scmd_ok c0 \<and> redirs_ok rs" "rs = [] \<or> size c0 < size c"
    by blast
  then show ?case
    by (intro exI [of _ "rs @ [(f, m, fd)]"] exI [of _ c0])
      (auto simp: tk_ex.simps [of "SRedir _ _ _ _"] wrap_def)
qed (rule exI [of _ "[]"], simp)+

lemma first_simple:
  assumes "\<forall>a \<in> set as. is_word a" and "redirs_ok rs" and "stop ts"
  shows "first (as @ concat (map rtoks rs) @ ts) \<noteq> 40"
proof (cases as)
  case (Cons a as')
  then show ?thesis using assms(1) first_word [of a] by (auto simp: symbols_def first_def)
next
  case Nil
  show ?thesis
  proof (cases rs)
    case (Cons r rs')
    then obtain f m fd where "r = (f, m, fd)" "redir_ok f m fd" using assms(2) by (cases r) auto
    then show ?thesis using Nil Cons redir_tok(2) [of f m fd] by (auto simp: first_def)
  qed (use Nil assms(3) in \<open>auto simp: stop_def\<close>)
qed

lemma exec_of_simple:
  assumes "\<forall>a \<in> set as. is_word a" and "redirs_ok rs" and "length as < MAXARGS"
    and "reads b s (as @ concat (map rtoks rs) @ ts)" and "stop ts"
  shows "\<exists>c' s'. parseexec (Suc d) (length b) s = Some (Inr (c', s')) \<and> reads b s' ts \<and> stands b c' (wrap rs (SExec as))"
proof -
  obtain s1 where "peek s [40] = (False, s1)" "reads b s1 (as @ concat (map rtoks rs) @ ts)"
    using peek_not [OF assms(4), of "[40]"] first_simple [OF assms(1,2,5)] by auto
  then show ?thesis using parsesimple_toks [of b s1 as rs ts] assms by (simp add: parseexec.simps)
qed

lemma exec_of_block:
  assumes "line_spec b c0" and "redirs_ok rs" and "reads b s ([40] # tk_line c0 @ [41] # concat (map rtoks rs) @ ts)"
    and "stop ts" and "4 * length s + 2 \<le> d"
  shows "\<exists>c' s'. parseexec d (length b) s = Some (Inr (c', s')) \<and> reads b s' ts \<and> stands b c' (wrap rs c0)"
proof -
  let ?us = "[41] # concat (map rtoks rs) @ ts"
  obtain d1 where d1: "d = Suc (Suc d1)" using assms(5) by (cases d; cases "d - 1") auto
  obtain s1 where s1: "peek s [40] = (True, s1)" "reads b s1 ([40] # tk_line c0 @ ?us)"
    using reads_peek [OF assms(3), of "[40]"] by (auto simp: first_def)
  obtain s2 where s2: "peek s1 [40] = (True, s2)" "reads b (tok_rest (length b) s2) (tk_line c0 @ ?us)"
    "length (tok_rest (length b) s2) < length s1"
    using peek_tok [OF s1(2)] by (auto simp: symbols_def)
  have "4 * length (tok_rest (length b) s2) + 4 \<le> d1" using s2(3) peek_length [OF s1(1)] assms(5) d1 by simp
  moreover have "first ?us \<in> {0, 41}" by (simp add: first_def)
  ultimately obtain c1 s3 where s3: "parseline d1 (length b) (tok_rest (length b) s2) = Some (Inr (c1, s3))" "reads b s3 ?us" "stands b c1 c0"
    using assms(1) s2(2) unfolding line_spec_def by blast
  obtain s4 where s4: "peek s3 [41] = (True, s4)" "reads b (tok_rest (length b) s4) (concat (map rtoks rs) @ ts)"
    using peek_tok [OF s3(2)] by (auto simp: symbols_def)
  obtain c' s' where "parseredirs (Suc (length (tok_rest (length b) s4))) (length b) c1 (tok_rest (length b) s4) = Some (Inr (c', s'))"
    "reads b s' ts" "stands b c' (wrap rs c0)"
    using parseredirs_toks [OF s4(2) assms(2) _ _ _ s3(3), of "Suc (length (tok_rest (length b) s4))"] stop_redir [OF assms(4)] by auto
  then show ?thesis using s1(1) s2(1) s3(1) s4(1) d1 by (simp add: parseexec.simps parseblock.simps)
qed

lemma line_nested:
  assumes "\<And>d. size d < size c \<Longrightarrow> scmd_ok d \<Longrightarrow> line_spec b d \<and> pipe_spec b d \<and> exec_spec b d"
    and "scmd_ok c" and "\<forall>as. c \<noteq> SExec as" and "\<forall>d f m fd. c \<noteq> SRedir d f m fd"
  shows "line_spec b c" "tk_ex c = [40] # tk_line c @ [[41]]"
proof -
  show "tk_ex c = [40] # tk_line c @ [[41]]"
    using assms(3,4)
    by (cases c) (simp_all add: tk_ex.simps [of "SPipe _ _"] tk_ex.simps [of "SList _ _"] tk_ex.simps [of "SBack _"]
      tk_line.simps [of "SPipe _ _"] tk_line.simps [of "SList _ _"] tk_line.simps [of "SBack _"]
      tk_bg.simps [of "SPipe _ _"] tk_bg.simps [of "SBack _"] tk_pipe.simps [of "SPipe _ _"])
  have sub: "pipe_spec b c0" if "d = (SBack ^^ j) c0" "size d < size c" "scmd_ok d" "c0 = d \<or> size c0 < size d" for d j c0
  proof -
    have "scmd_ok ((SBack ^^ j) c0) = scmd_ok c0" by (induction j) auto
    then show ?thesis using assms(1) [of c0] that by auto
  qed
  show "line_spec b c"
  proof (cases c)
    case (SPipe l r)
    then have "pipe_spec b c" using assms(1,2) pipe_of_pipe [of b l r] by simp
    then show ?thesis using line_of_pipe [of b c 0] SPipe by simp
  next
    case (SList l r)
    obtain j l0 where l: "l = (SBack ^^ j) l0" "\<forall>d. l0 \<noteq> SBack d" "l0 = l \<or> size l0 < size l" using back_form by metis
    then show ?thesis using line_of_list [of b l0 r j] sub [OF l(1)] assms(1,2) SList by simp
  next
    case (SBack d)
    obtain j c0 where d: "d = (SBack ^^ j) c0" "\<forall>d. c0 \<noteq> SBack d" "c0 = d \<or> size c0 < size d" using back_form by metis
    then show ?thesis using line_of_pipe [of b c0 "Suc j"] sub [OF d(1)] assms(2) SBack by simp
  qed (use assms in auto)
qed

lemma parse_specs: "scmd_ok c \<Longrightarrow> line_spec b c \<and> pipe_spec b c \<and> exec_spec b c"
proof (induction c rule: measure_induct_rule [where f = size])
  case (less c)
  obtain rs c0 where c: "c = wrap rs c0" "\<forall>d f m fd. c0 \<noteq> SRedir d f m fd" "tk_ex c = tk_ex c0 @ concat (map rtoks rs)"
    "scmd_ok c0" "redirs_ok rs" "rs = [] \<or> size c0 < size c"
    using redir_form [of c] less.prems by blast
  have "size c0 \<le> size c" using c(1,6) by auto
  then have IH: "\<And>d. size d < size c0 \<Longrightarrow> scmd_ok d \<Longrightarrow> line_spec b d \<and> pipe_spec b d \<and> exec_spec b d"
    using less.IH by simp
  have ex: "exec_spec b c"
    unfolding exec_spec_def
  proof (intro allI impI)
    fix s ts d
    assume a: "reads b s (tk_ex c @ ts)" "stop ts" "4 * length s + 2 \<le> d"
    show "\<exists>c' s'. parseexec d (length b) s = Some (Inr (c', s')) \<and> reads b s' ts \<and> stands b c' c"
    proof (cases "\<exists>as. c0 = SExec as")
      case True
      then obtain as where "c0 = SExec as" by blast
      then show ?thesis
        using exec_of_simple [of as rs b s ts "d - 1"] a c by (simp add: tk_ex.simps [of "SExec _"])
    next
      case False
      note n = line_nested [OF IH c(4) _ c(2)]
      have "reads b s ([40] # tk_line c0 @ [41] # concat (map rtoks rs) @ ts)" using a(1) c(3) n(2) False by simp
      from exec_of_block [OF n(1) c(5) this a(2,3)] show ?thesis using False c(1) by simp
    qed
  qed
  have pi: "pipe_spec b c"
  proof (cases "\<exists>l r. c = SPipe l r")
    case True
    then show ?thesis using less pipe_of_pipe by force
  next
    case False
    then show ?thesis using ex pipe_of_exec by blast
  qed
  have "line_spec b c"
  proof (cases "(\<exists>l r. c = SList l r) \<or> (\<exists>d. c = SBack d)")
    case True
    then show ?thesis using line_nested(1) [of c b] less by auto
  next
    case False
    then show ?thesis using line_of_pipe [of b c 0] pi by simp
  qed
  then show ?case using ex pi by blast
qed

lemma is_tok_simps [simp]: "is_tok [59]" "is_tok [38]" "is_tok [124]" "is_tok [40]" "is_tok [41]"
  "is_tok (redir_op m)" "is_word t \<Longrightarrow> is_tok t"
  by (simp_all add: is_tok_def symbols_def redir_op_def)

lemma tk_is_tok:
  "scmd_ok c \<Longrightarrow> \<forall>t \<in> set (tk_line c). is_tok t"
  "scmd_ok c \<Longrightarrow> \<forall>t \<in> set (tk_bg c). is_tok t"
  "scmd_ok c \<Longrightarrow> \<forall>t \<in> set (tk_pipe c). is_tok t"
  "scmd_ok c \<Longrightarrow> \<forall>t \<in> set (tk_ex c). is_tok t"
proof (induction c and c and c and c rule: tk_line_tk_bg_tk_pipe_tk_ex.induct)
  case (1 c)
  then show ?case by (subst tk_line.simps) (cases c; simp add: ball_Un)
next
  case (2 c)
  then show ?case by (subst tk_bg.simps) (cases c; simp add: ball_Un)
next
  case (3 c)
  then show ?case by (subst tk_pipe.simps) (cases c; simp add: ball_Un)
next
  case (4 c)
  then show ?case by (subst tk_ex.simps) (cases c; simp add: redir_ok_def ball_Un)
qed

text \<open>
  C17: parsing undoes printing.  For every command the syntax can express (words without blanks and
  symbols, fewer than MAXARGS arguments, the three redirections), the line that spells it, with
  parentheses where the grammar needs them, is parsed to a tree whose strings, read from the line
  after \<open>nulterminate\<close> has cut it up, are those of the command.
\<close>

theorem parse_show:
  assumes "scmd_ok c"
  shows "\<exists>c' b. parsecmd (show_cmd c) = Some (Inr (c', b)) \<and> cstrings b c' = c"
proof -
  let ?b = "show_cmd c"
  have "\<forall>t \<in> set (tk_line c). is_tok t" using tk_is_tok(1) assms by blast
  then have "reads ?b ?b (tk_line c @ [])" by (simp add: reads_def show_cmd_def)
  moreover have "line_spec ?b c" using parse_specs assms by blast
  moreover have "first [] \<in> {0, 41}" by (simp add: first_def)
  ultimately obtain c' s' where p: "parseline (PARSE_DEPTH (length ?b)) (length ?b) ?b = Some (Inr (c', s'))"
    "reads ?b s' []" "stands ?b c' c"
    unfolding line_spec_def PARSE_DEPTH_def by blast
  have "skip_ws s' = []" using p(2) by (simp add: reads_def)
  then have "parsecmd ?b = Some (Inr (c', nulterminate c' (?b @ [0])))"
    using p(1) by (simp add: parsecmd_def Let_def peek_eq)
  moreover have "cstrings (nulterminate c' (?b @ [0])) c' = c"
    using cstrings_nulterminate [of c' ?b] p(3) by (simp add: stands_def)
  ultimately show ?thesis by blast
qed

text \<open>\<open>a x | b > f ; c &\<close>\<close>

theorem parse_show_witness:
  "\<exists>c' b. parsecmd (str '' a x | b > f ; c &'') = Some (Inr (c', b)) \<and>
     cstrings b c' = SList (SPipe (SExec [str ''a'', str ''x'']) (SRedir (SExec [str ''b'']) (str ''f'') 0x601 1))
       (SBack (SExec [str ''c'']))"
proof -
  let ?c = "SList (SPipe (SExec [str ''a'', str ''x'']) (SRedir (SExec [str ''b'']) (str ''f'') 0x601 1)) (SBack (SExec [str ''c'']))"
  have ok: "scmd_ok ?c"
    by (simp add: MAXARGS_def is_word_def wordchar_def redir_ok_def str_def whitespace_def symbols_def)
  have "show_cmd ?c = str '' a x | b > f ; c &''"
    by (simp add: show_cmd_def tk_unfold redir_op_def str_def)
  then show ?thesis using parse_show [OF ok] by simp
qed

section \<open>Trees of arbitrary lines\<close>

text \<open>
  A well-formed tree over a line: every pair of pointers delimits a non-empty word of the line, argument
  vectors have room for the final null pointer, redirections are of the three kinds.
\<close>

fun cmd_wf :: "u8 list \<Rightarrow> cmd \<Rightarrow> bool" where
  "cmd_wf b (EXEC as) \<longleftrightarrow> length as < MAXARGS \<and> (\<forall>(q, eq) \<in> set as. word_at b (q, eq) \<and> q < eq)"
| "cmd_wf b (REDIR c q eq m fd) \<longleftrightarrow> cmd_wf b c \<and> word_at b (q, eq) \<and> q < eq \<and>
     (m, fd) \<in> {(O_RDONLY, 0), (O_WRONLY OR O_CREATE OR O_TRUNC, 1), (O_WRONLY OR O_CREATE, 1)}"
| "cmd_wf b (PIPE c d) \<longleftrightarrow> cmd_wf b c \<and> cmd_wf b d"
| "cmd_wf b (LIST c d) \<longleftrightarrow> cmd_wf b c \<and> cmd_wf b d"
| "cmd_wf b (BACK c) \<longleftrightarrow> cmd_wf b c"

lemma cmd_wf_ptrs: "cmd_wf b c \<Longrightarrow> p \<in> ptrs c \<Longrightarrow> word_at b p"
  by (induction c) auto

lemma skip_word_split: "0 \<notin> set s \<Longrightarrow> \<exists>t. s = t @ skip_word s \<and> (\<forall>c \<in> set t. wordchar c) \<and>
    (skip_word s = [] \<or> \<not> wordchar (hd (skip_word s)))"
proof (induction s)
  case (Cons c s)
  then obtain t where t: "s = t @ skip_word s" "\<forall>c \<in> set t. wordchar c" "skip_word s = [] \<or> \<not> wordchar (hd (skip_word s))"
    by auto
  show ?case
  proof (cases "is_ws c \<or> is_sym c")
    case True
    then show ?thesis by (intro exI [of _ "[]"]) (auto simp: wordchar_def)
  next
    case False
    then show ?thesis using t Cons.prems by (intro exI [of _ "c # t"]) (auto simp: wordchar_def)
  qed
qed simp

lemma gettoken_rest_suffix: "suffix (tok_rest n s) s"
proof -
  have w: "suffix (skip_word s) s" for s by (induction s) (auto simp: suffix_ConsI)
  have t: "suffix (tl s) s" for s :: "u8 list" by (simp add: suffix_tl)
  let ?s = "skip_ws s"
  have "suffix r s \<Longrightarrow> suffix (skip_ws r) s" for r using suffix_skip suffix_order.trans by blast
  moreover have "suffix (tl ?s) s" "suffix (tl (tl ?s)) s" "suffix (skip_word ?s) s" "suffix ?s s"
    using t [of ?s] t [of "tl ?s"] w [of ?s] suffix_skip [of s] suffix_order.trans by blast+
  ultimately show ?thesis by (auto simp: gettoken_def Let_def)
qed

lemma gettoken_word:
  assumes "suffix s b" and "0 \<notin> set b" and "gettoken (length b) s = (97, q, eq, s')"
  shows "word_at b (q, eq) \<and> q < eq"
proof -
  let ?s = "skip_ws s"
  have su: "suffix ?s b" using suffix_skip assms(1) suffix_order.trans by blast
  then have z: "0 \<notin> set ?s" using assms(2) set_mono_suffix by blast
  obtain t where t: "?s = t @ skip_word ?s" "\<forall>c \<in> set t. wordchar c" "skip_word ?s = [] \<or> \<not> wordchar (hd (skip_word ?s))"
    using skip_word_split [OF z] by blast
  have *: "nth0 ?s 0 \<noteq> 0" "\<not> is_sym (nth0 ?s 0)" "q = length b - length ?s" "eq = length b - length (skip_word ?s)"
    using assms(3) symbol_cases [of "nth0 ?s 0"] by (auto simp: gettoken_def Let_def split: if_splits)
  then obtain c r where c: "?s = c # r" by (cases ?s) auto
  then have wc: "wordchar c" using * skip_ws_hd [OF c] by (simp add: wordchar_def)
  have "skip_word ?s = c # r" if "t = []" using t(1) c that by (metis append_Nil)
  then have ne: "t \<noteq> []" using t(3) wc by auto
  obtain pre where b: "b = pre @ ?s" using su by (auto simp: suffix_def)
  obtain sw where sw: "skip_word ?s = sw" by simp
  have b': "b = pre @ t @ sw" using b t(1) sw by simp
  have q: "q = length pre" "eq = length pre + length t"
    using *(3,4) t(1) sw b' by (metis add_diff_cancel_right' append_assoc length_append)+
  have "wordchar (b ! i)" if "q \<le> i" "i < eq" for i
    using that t(2) by (simp add: q b' nth_append)
  moreover have "\<not> wordchar (b ! eq)" if "eq < length b"
    using that t(3) by (cases sw) (auto simp: q b' nth_append sw)
  ultimately show ?thesis using ne by (simp add: word_at_def q b')
qed

text \<open>A result that is a well-formed tree, if it is a tree.\<close>

definition builds :: "u8 list \<Rightarrow> cmd parse \<Rightarrow> bool" where
  "builds b m \<longleftrightarrow> (case m of Some (Inr (c, s)) \<Rightarrow> cmd_wf b c \<and> suffix s b | _ \<Rightarrow> True)"

lemma builds_simps [simp]:
  "builds b None" "builds b (Some (Inl e))" "builds b (Some (Inr (c, s))) \<longleftrightarrow> cmd_wf b c \<and> suffix s b"
  by (simp_all add: builds_def)

lemma builds_pbind: "builds b m \<Longrightarrow> (\<And>c s. cmd_wf b c \<Longrightarrow> suffix s b \<Longrightarrow> builds b (f c s)) \<Longrightarrow> builds b (pbind m f)"
  by (cases m; cases "the m") (auto simp: pbind_def)

lemma builds_peek:
  assumes "suffix s b" and "\<And>t. suffix t b \<Longrightarrow> builds b (f t)" and "\<And>t. suffix t b \<Longrightarrow> builds b (g t)"
  shows "builds b (case peek s ts of (False, s) \<Rightarrow> f s | (True, s) \<Rightarrow> g s)"
    "builds b (case peek s ts of (True, s) \<Rightarrow> g s | (False, s) \<Rightarrow> f s)"
  using assms suffix_skip [of s] suffix_order.trans by (auto simp: peek_eq split: bool.split)

lemma suffix_rest: "suffix s b \<Longrightarrow> suffix (tok_rest n s) b"
  using gettoken_rest_suffix suffix_order.trans by blast

lemma parseredirs_builds:
  assumes "0 \<notin> set b"
  shows "suffix s b \<Longrightarrow> cmd_wf b c \<Longrightarrow> builds b (parseredirs k (length b) c s)"
proof (induction k arbitrary: c s)
  case (Suc k)
  show ?case unfolding parseredirs.simps
  proof (rule builds_peek(1) [OF Suc.prems(1)])
    fix t assume t: "suffix t b"
    then show "builds b (Some (Inr (c, t)))" using Suc.prems by simp
    obtain tok q1 e1 t1 where 1: "gettoken (length b) t = (tok, q1, e1, t1)" by (cases "gettoken (length b) t") auto
    obtain tok2 q e t2 where 2: "gettoken (length b) t1 = (tok2, q, e, t2)" by (cases "gettoken (length b) t1") auto
    have s1: "suffix t1 b" using suffix_rest [OF t, of "length b"] 1 by simp
    have s2: "suffix t2 b" using suffix_rest [OF s1, of "length b"] 2 by simp
    show "builds b (case gettoken (length b) t of (tok, _, _, s) \<Rightarrow>
           case gettoken (length b) s of (tok2, q, eq, s) \<Rightarrow>
             if tok2 \<noteq> 97 then Some (Inl (ShPanic ''missing file for redirection''))
             else parseredirs k (length b)
               (if tok = 60 then REDIR c q eq O_RDONLY 0
                else if tok = 62 then REDIR c q eq (O_WRONLY OR O_CREATE OR O_TRUNC) 1
                else if tok = 43 then REDIR c q eq (O_WRONLY OR O_CREATE) 1
                else c) s)"
      using Suc.IH [OF s2] gettoken_word [OF s1 assms] Suc.prems(2) 1 2 by auto
  qed
qed (simp add: parseredirs.simps)

lemma set_args_wf:
  "cmd_wf b ret \<Longrightarrow> length as < MAXARGS \<Longrightarrow> \<forall>(q, eq) \<in> set as. word_at b (q, eq) \<and> q < eq \<Longrightarrow> cmd_wf b (set_args as ret)"
  by (induction ret) auto

lemma parseargs_builds:
  assumes "0 \<notin> set b"
  shows "suffix s b \<Longrightarrow> cmd_wf b ret \<Longrightarrow> length as < MAXARGS \<Longrightarrow> \<forall>(q, eq) \<in> set as. word_at b (q, eq) \<and> q < eq \<Longrightarrow>
    builds b (parseargs k (length b) as ret s)"
proof (induction k arbitrary: as ret s)
  case (Suc k)
  show ?case unfolding parseargs.simps
  proof (rule builds_peek(2) [OF Suc.prems(1)])
    fix t assume t: "suffix t b"
    then show "builds b (Some (Inr (set_args as ret, t)))" using Suc.prems set_args_wf by simp
    obtain tok q e t1 where 1: "gettoken (length b) t = (tok, q, e, t1)" by (cases "gettoken (length b) t") auto
    have s1: "suffix t1 b" using suffix_rest [OF t, of "length b"] 1 by simp
    have "builds b (pbind (parseredirs (Suc (length t1)) (length b) ret t1) (\<lambda>ret s. parseargs k (length b) (as @ [(q, e)]) ret s))"
      if "tok = 97" "Suc (length as) < MAXARGS"
      using gettoken_word [OF t assms] 1 that Suc.prems
      by (intro builds_pbind parseredirs_builds [OF assms s1] Suc.IH) auto
    then show "builds b (case gettoken (length b) t of (tok, q, eq, s) \<Rightarrow>
             if tok = 0 then Some (Inr (set_args as ret, s))
             else if tok \<noteq> 97 then Some (Inl (ShPanic ''syntax''))
             else let as = as @ [(q, eq)] in
               if length as \<ge> MAXARGS then Some (Inl (ShPanic ''too many args''))
               else pbind (parseredirs (Suc (length s)) (length b) ret s) (\<lambda>ret s. parseargs k (length b) as ret s))"
      using 1 s1 Suc.prems set_args_wf by (simp add: Let_def not_le)
  qed
qed (simp add: parseargs.simps)

lemma parsesimple_builds: "0 \<notin> set b \<Longrightarrow> suffix s b \<Longrightarrow> builds b (parsesimple (length b) s)"
  unfolding parsesimple_def
  by (intro builds_pbind parseredirs_builds parseargs_builds) (auto simp: MAXARGS_def)

lemma parseback_builds: "suffix s b \<Longrightarrow> cmd_wf b c \<Longrightarrow> builds b (parseback k (length b) c s)"
proof (induction k arbitrary: c s)
  case (Suc k)
  then show ?case unfolding parseback.simps by (intro builds_peek Suc.IH suffix_rest) auto
qed (simp add: parseback.simps)

lemma parse_builds:
  assumes "0 \<notin> set b"
  shows "suffix s b \<Longrightarrow> builds b (parseline d (length b) s)" "suffix s b \<Longrightarrow> builds b (parsepipe d (length b) s)"
    "suffix s b \<Longrightarrow> builds b (parseexec d (length b) s)" "suffix s b \<Longrightarrow> builds b (parseblock d (length b) s)"
proof (induction d arbitrary: s)
  case (Suc d)
  note intros = builds_pbind builds_peek suffix_rest parseback_builds
  {
    case 1
    then show ?case unfolding parseline.simps by (intro intros Suc.IH) auto
  next
    case 2
    then show ?case unfolding parsepipe.simps by (intro intros Suc.IH) auto
  next
    case 3
    then show ?case unfolding parseexec.simps by (intro intros Suc.IH parsesimple_builds [OF assms])
  next
    case 4
    then show ?case unfolding parseblock.simps Let_def by (intro intros Suc.IH parseredirs_builds [OF assms]) auto
  }
qed (simp_all add: parseline.simps parsepipe.simps parseexec.simps parseblock.simps)

text \<open>
  C18: a tree that \<open>parsecmd\<close> returns is well-formed, whatever the line: its pointers stay within the line
  and delimit complete, non-empty words, an argument vector leaves room for its null pointer, and a
  redirection is of one of the three kinds.  Hence the NULs that \<open>nulterminate\<close> writes damage no word: the
  strings of the command are the words the parser saw.
\<close>

theorem parsecmd_well_formed:
  assumes "0 \<notin> set line" and "parsecmd line = Some (Inr (c, b))"
  shows "cmd_wf line c \<and> length b = Suc (length line) \<and> cstrings b c = strings line c"
proof -
  obtain s where "parseline (PARSE_DEPTH (length line)) (length line) line = Some (Inr (c, s))"
    and b: "b = nulterminate c (line @ [0])"
    using assms(2) by (auto simp: parsecmd_def Let_def split: option.splits sum.splits if_splits)
  then have wf: "cmd_wf line c" using parse_builds(1) [OF assms(1), of line "PARSE_DEPTH (length line)"] by simp
  then show ?thesis using cstrings_nulterminate [of c line] cmd_wf_ptrs [OF wf] b by simp
qed

text \<open>The line \<open>a>f\<close>.\<close>

theorem parsecmd_well_formed_witness:
  "cmd_wf [97, 62, 102] (REDIR (EXEC [(0, 1)]) 2 3 0x601 1) \<and>
   cstrings [97, 0, 102, 0] (REDIR (EXEC [(0, 1)]) 2 3 0x601 1) = SRedir (SExec [[97]]) [102] 0x601 1"
proof -
  have "parsecmd [97, 62, 102] = Some (Inr (REDIR (EXEC [(0, 1)]) 2 3 0x601 1, [97, 0, 102, 0]))"
    by code_simp
  from parsecmd_well_formed [OF _ this] show ?thesis by (simp add: piece_def)
qed

end
