(* ===== verification/Sh_Run.thy ===== *)
theory Sh_Run
  imports Sh_Parse "HOL-Library.Multiset"
begin

text \<open>
  What \<open>runcmd\<close> starts.  The system calls are a parameter; \<open>unix_law\<close> states what a Unix promises of them:
  \<open>open\<close>, \<open>dup\<close> and \<open>pipe\<close> take the lowest free descriptors, a child has a copy of its parent's table, and \<open>open\<close>,
  \<open>pipe\<close>, \<open>fork\<close> and \<open>exec\<close> may fail.  \<open>behaves\<close> says what the processes of a command may do, failures included.
\<close>

section \<open>System calls\<close>

datatype fobj = FInit nat | FFile "u8 list" u32 | PipeR nat | PipeW nat

type_synonym fdtab = "nat \<Rightarrow> fobj option"

text \<open>
  What the processes of a command do: \<open>exec\<close> of a path with arguments succeeds in a process that has the given
  descriptors, or a call fails.
\<close>

datatype event =
    Started "u8 list" "u8 list list" fdtab
  | ExecFailed "u8 list" "u8 list list"
  | OpenFailed "u8 list" u32
  | PipeFailed
  | ForkFailed


text \<open>
  What the law speaks of: the descriptor table of the running process, the events of all processes and
  the pipes there have been.  \<open>quiet\<close>: none of these has changed.
\<close>

record 'w view =
  fds :: "'w \<Rightarrow> fdtab"
  events :: "'w \<Rightarrow> event multiset"
  made :: "'w \<Rightarrow> nat set"

definition same_log :: "'w view \<Rightarrow> 'w \<Rightarrow> 'w \<Rightarrow> bool" where
  "same_log v w w' \<longleftrightarrow> events v w' = events v w \<and> made v w' = made v w"

definition quiet :: "'w view \<Rightarrow> 'w \<Rightarrow> 'w \<Rightarrow> bool" where
  "quiet v w w' \<longleftrightarrow> fds v w' = fds v w \<and> same_log v w w'"












section \<open>What a command means\<close>











section \<open>Messages\<close>

lemma quiet_refl [simp]: "quiet v w w"
  by (simp add: quiet_def same_log_def)









section \<open>Runs\<close>



























section \<open>A small Unix\<close>














end
