(* ===== verification/Mkfs.thy ===== *)
theory Mkfs
  imports Fs
begin

text \<open>
  The program that builds the file system image (mkfs/mkfs.c).  The image is the map from block
  numbers to blocks, as the kernel's disk is, with the number of sectors the image file has so far.
  The program runs on the host, whose files are the parameter \<open>host\<close> and whose integers are
  little-endian.  A failed assertion is a \<open>Panic\<close>; \<open>exit(1)\<close>, also from \<open>die\<close>, is \<open>Gone\<close>; \<open>exit(0)\<close> at the end of
  \<open>main\<close> is \<open>Ok\<close>.
\<close>

section \<open>State and layout\<close>

record mkfs_state =
  img :: "u32 \<Rightarrow> bytes"
  nsect :: nat
  msb :: superblock
  freeinode :: u32
  freeblock :: u32

definition FSSIZE :: u32 where [simp]: "FSSIZE = 2000"
definition NINODES :: u32 where [simp]: "NINODES = 200"
definition nbitmap :: u32 where [simp]: "nbitmap = FSSIZE div 8192 + 1"
definition ninodeblocks :: u32 where [simp]: "ninodeblocks = NINODES div 16 + 1"
definition mkfs_nlog :: u32 where [simp]: "mkfs_nlog = 30"
definition nmeta :: u32 where [simp]: "nmeta = 2 + mkfs_nlog + ninodeblocks + nbitmap"

text \<open>The bytes of \<open>y\<close> in \<open>xshort\<close> and \<open>xint\<close>, read back as an integer of the host.\<close>

definition xshort :: "u16 \<Rightarrow> u16" where
  "xshort x = le_word [ucast x, ucast (drop_bit 8 x)]"

definition xint :: "u32 \<Rightarrow> u32" where
  "xint x = le_word [ucast x, ucast (drop_bit 8 x), ucast (drop_bit 16 x), ucast (drop_bit 24 x)]"

lemma xshort [simp]: "xshort x = x"
  using le_word_le_bytes_full [of 2 x] by (simp add: xshort_def numeral_2_eq_2)

lemma xint [simp]: "xint x = x"
proof -
  have "le_bytes 4 x = [ucast x, ucast (drop_bit 8 x), ucast (drop_bit 16 x), ucast (drop_bit 24 x)]"
    by (simp add: eval_nat_numeral)
  then show ?thesis using le_word_le_bytes_full [of 4 x] by (simp add: xint_def del: le_bytes.simps le_word.simps)
qed

definition mkfs_sb :: superblock where
  "mkfs_sb = \<lparr>magic = FSMAGIC, sb_size = xint FSSIZE, nblocks = xint (FSSIZE - nmeta), ninodes = xint NINODES,
     nlog = xint mkfs_nlog, logstart = xint 2, inodestart = xint (2 + mkfs_nlog),
     bmapstart = xint (2 + mkfs_nlog + ninodeblocks)\<rparr>"

definition sb_bytes :: "superblock \<Rightarrow> u8 list" where
  "sb_bytes b = concat (map (le_bytes 4) [magic b, sb_size b, nblocks b, ninodes b, nlog b, logstart b, inodestart b, bmapstart b])"

section \<open>Sectors and inodes\<close>

text \<open>
  The file offset \<open>sec * BSIZE\<close> is a 32-bit product.  A write past the end of the image extends it; a
  read there is short, and the program dies.
\<close>

lemma sector [simp]: "unat sec < 4194304 \<Longrightarrow> sec * 1024 div 1024 = (sec :: u32)"
  by (rule word_unat_eq_iff [THEN iffD2]) (simp add: unat_div unat_word_ariths)

definition wsect :: "u32 \<Rightarrow> bytes \<Rightarrow> mkfs_state \<Rightarrow> mkfs_state" where
  "wsect sec buf s =
     (let k = (sec * 1024) div 1024 in s\<lparr>img := (img s)(k := buf), nsect := max (nsect s) (unat k + 1)\<rparr>)"

definition rsect :: "u32 \<Rightarrow> mkfs_state \<Rightarrow> (bytes, mkfs_state) outcome" where
  "rsect sec s =
     (let k = (sec * 1024) div 1024 in if unat k < nsect s then Ok (img s k) s else Gone s)"

definition winode :: "u32 \<Rightarrow> dinode \<Rightarrow> mkfs_state \<Rightarrow> (unit, mkfs_state) outcome" where
  "winode ino din s =
     (let bn = IBLOCK ino (msb s) in
      obind (rsect bn s) (\<lambda>buf s. Ok () (wsect bn (put_dinode din (unat ino mod IPB) buf) s)))"

definition rinode :: "u32 \<Rightarrow> mkfs_state \<Rightarrow> (dinode, mkfs_state) outcome" where
  "rinode ino s =
     obind (rsect (IBLOCK ino (msb s)) s) (\<lambda>buf s. Ok (get_dinode buf (unat ino mod IPB)) s)"

definition mkfs_ialloc :: "u16 \<Rightarrow> mkfs_state \<Rightarrow> (u32, mkfs_state) outcome" where
  "mkfs_ialloc type s =
     (let ino = freeinode s;
          din = \<lparr>di_type = xshort type, di_major = 0, di_minor = 0, di_nlink = xshort 1, di_size = xint 0,
                 di_addrs = (\<lambda>_. 0)\<rparr>
      in obind (winode ino din (s\<lparr>freeinode := ino + 1\<rparr>)) (\<lambda>_ s. Ok ino s))"

text \<open>The first \<open>n\<close> bits of the bitmap, set one by one.\<close>

fun mkfs_bits :: "nat \<Rightarrow> bytes \<Rightarrow> bytes" where
  "mkfs_bits 0 buf = buf"
| "mkfs_bits (Suc i) buf = (let buf = mkfs_bits i buf in buf(i div 8 := buf (i div 8) OR push_bit (i mod 8) 1))"

definition mkfs_balloc :: "u32 \<Rightarrow> mkfs_state \<Rightarrow> (unit, mkfs_state) outcome" where
  "mkfs_balloc used s =
     (if sint used \<ge> int BPB then Panic ''used < BPB''
      else Ok () (wsect (bmapstart (msb s)) (mkfs_bits (nat (sint used)) (\<lambda>_. 0)) s))"

section \<open>Appending to a file\<close>

text \<open>
  The branches of \<open>iappend\<close> that find the block of the image for block \<open>fbn\<close> of the file, taking the next
  free one where there is none.
\<close>

definition take_block :: "nat \<Rightarrow> dinode \<Rightarrow> mkfs_state \<Rightarrow> dinode \<times> mkfs_state" where
  "take_block k din s =
     (if xint (di_addrs din k) = 0
      then (din\<lparr>di_addrs := (di_addrs din)(k := xint (freeblock s))\<rparr>, s\<lparr>freeblock := freeblock s + 1\<rparr>)
      else (din, s))"

definition mkfs_bmap :: "nat \<Rightarrow> dinode \<Rightarrow> mkfs_state \<Rightarrow> (u32 \<times> dinode, mkfs_state) outcome" where
  "mkfs_bmap fbn din s =
     (if fbn < NDIRECT then
        let (din, s) = take_block fbn din s in Ok (xint (di_addrs din fbn), din) s
      else
        let (din, s) = take_block NDIRECT din s; ib = xint (di_addrs din NDIRECT); k = 4 * (fbn - NDIRECT) in
        obind (rsect ib s) (\<lambda>indirect s.
        if load32 indirect k = 0 then
          let indirect = store32 indirect k (xint (freeblock s));
              s = wsect ib indirect (s\<lparr>freeblock := freeblock s + 1\<rparr>)
          in Ok (xint (load32 indirect k), din) s
        else Ok (xint (load32 indirect k), din) s))"

lemma room: "unat ((off div 1024 + 1) * 1024 - off :: u32) = 1024 - unat off mod 1024"
proof -
  have "(off div 1024 + 1) * 1024 - (off div 1024 * 1024 + off mod 1024) = 1024 - off mod 1024"
    by (simp add: distrib_right)
  then have e: "(off div 1024 + 1) * 1024 - off = 1024 - off mod 1024"
    by (simp only: word_mod_div_equality)
  have "unat (off mod 1024) < 1024" by (simp add: unat_mod)
  then have "unat (1024 - off mod 1024) = 1024 - unat (off mod 1024)"
    by (simp add: unat_sub word_le_nat_alt)
  then show ?thesis unfolding e by (simp add: unat_mod)
qed

function iappend_loop :: "dinode \<Rightarrow> u8 list \<Rightarrow> u32 \<Rightarrow> mkfs_state \<Rightarrow> (dinode \<times> u32, mkfs_state) outcome" where
  "iappend_loop din p off s =
     (if p = [] then Ok (din, off) s
      else
        let fbn = off div 1024 in
        if unat fbn \<ge> MAXFILE then Panic ''fbn < MAXFILE''
        else
          obind (mkfs_bmap (unat fbn) din s) (\<lambda>(x, din) s.
          let n1 = min (length p) (unat ((fbn + 1) * 1024 - off)) in
          obind (rsect x s) (\<lambda>buf s.
          let s = wsect x (write_bytes buf (unat (off - fbn * 1024)) (take n1 p)) s in
          iappend_loop din (drop n1 p) (off + word_of_nat n1) s)))"
  by pat_completeness auto
termination
  by (relation "measure (\<lambda>(din, p, off, s). length p)") (auto simp: room simp del: distrib_right_numeral)

declare iappend_loop.simps [simp del]

definition iappend :: "u32 \<Rightarrow> u8 list \<Rightarrow> mkfs_state \<Rightarrow> (unit, mkfs_state) outcome" where
  "iappend ino p s =
     obind (rinode ino s) (\<lambda>din s.
     obind (iappend_loop din p (xint (di_size din)) s) (\<lambda>(din, off) s.
     winode ino (din\<lparr>di_size := xint off\<rparr>) s))"

section \<open>main\<close>

definition mkfs_dirent :: "u32 \<Rightarrow> u8 list \<Rightarrow> u8 list" where
  "mkfs_dirent ino name =
     put_dirent \<lparr>de_inum = xshort (ucast ino), de_name = take DIRSIZ (name @ replicate DIRSIZ 0)\<rparr>"

definition shortname :: "u8 list \<Rightarrow> u8 list" where
  "shortname arg = (if take 5 arg = str ''user/'' then drop 5 arg else arg)"

text \<open>The reads of a host file, a block at a time.\<close>

function append_file :: "u32 \<Rightarrow> u8 list \<Rightarrow> mkfs_state \<Rightarrow> (unit, mkfs_state) outcome" where
  "append_file ino cs s =
     (if cs = [] then Ok () s
      else obind (iappend ino (take BSIZE cs) s) (\<lambda>_ s. append_file ino (drop BSIZE cs) s))"
  by pat_completeness auto
termination
  by (relation "measure (\<lambda>(ino, cs, s). length cs)") auto

declare append_file.simps [simp del]

fun add_files :: "(u8 list \<Rightarrow> u8 list option) \<Rightarrow> u32 \<Rightarrow> u8 list list \<Rightarrow> mkfs_state \<Rightarrow> (unit, mkfs_state) outcome" where
  "add_files host rootino [] s = Ok () s"
| "add_files host rootino (arg # args) s =
     (let name = shortname arg in
      if SLASH \<in> set name then Panic ''index(shortname, '/') == 0''
      else case host arg of None \<Rightarrow> Gone s
      | Some cs \<Rightarrow>
          let name = (if nth0 name 0 = 95 then tl name else name) in
          if length name > DIRSIZ then Panic ''strlen(shortname) <= DIRSIZ''
          else
            obind (mkfs_ialloc T_FILE s) (\<lambda>ino s.
            obind (iappend rootino (mkfs_dirent ino name) s) (\<lambda>_ s.
            obind (append_file ino cs s) (\<lambda>_ s. add_files host rootino args s))))"

fun zero_sectors :: "nat \<Rightarrow> mkfs_state \<Rightarrow> mkfs_state" where
  "zero_sectors 0 s = s"
| "zero_sectors (Suc i) s = wsect (word_of_nat i) (\<lambda>_. 0) (zero_sectors i s)"

definition mkfs_fix_root :: "u32 \<Rightarrow> mkfs_state \<Rightarrow> (unit, mkfs_state) outcome" where
  "mkfs_fix_root rootino s =
     obind (rinode rootino s) (\<lambda>din s.
     let off = xint (di_size din); off = (off div 1024 + 1) * 1024
     in winode rootino (din\<lparr>di_size := xint off\<rparr>) s)"

definition mkfs_init :: mkfs_state where
  "mkfs_init = \<lparr>img = (\<lambda>_ _. 0), nsect = 0, msb = get_superblock (\<lambda>_. 0), freeinode = 1, freeblock = 0\<rparr>"

text \<open>
  The arguments are those after the program's name; \<open>creat\<close> says whether the image can be opened, which
  truncates it.
\<close>

definition mkfs_main ::
    "(u8 list \<Rightarrow> bool) \<Rightarrow> (u8 list \<Rightarrow> u8 list option) \<Rightarrow> u8 list list \<Rightarrow> (unit, mkfs_state) outcome" where
  "mkfs_main creat host argv =
     (if argv = [] \<or> \<not> creat (hd argv) then Gone mkfs_init
      else
        let s = mkfs_init\<lparr>msb := mkfs_sb, freeblock := nmeta\<rparr>;
            s = zero_sectors (unat FSSIZE) s;
            s = wsect 1 (write_bytes (\<lambda>_. 0) 0 (sb_bytes (msb s))) s
        in
        obind (mkfs_ialloc T_DIR s) (\<lambda>rootino s.
        if rootino \<noteq> ROOTINO then Panic ''rootino == ROOTINO''
        else
          obind (iappend rootino (mkfs_dirent rootino [46]) s) (\<lambda>_ s.
          obind (iappend rootino (mkfs_dirent rootino [46, 46]) s) (\<lambda>_ s.
          obind (add_files host rootino (tl argv) s) (\<lambda>_ s.
          obind (mkfs_fix_root rootino s) (\<lambda>_ s. mkfs_balloc (freeblock s) s))))))"

end
