(* ===== verification/Log_Mkfs.thy ===== *)
theory Log_Mkfs
  imports Mkfs
begin

text \<open>
  The log that mkfs lays out, as the kernel uses it: three file-system calls that \<open>begin_op\<close> admits fill it, each
  within its reservation, and the last block they log makes \<open>log_write\<close> panic.
\<close>

section \<open>Processes in turn\<close>

text \<open>Each process runs on a CPU of its own; a step of process \<open>p\<close> sees it as the current one.\<close>

fun begin_ops :: "nat list \<Rightarrow> 'a log_state_scheme \<Rightarrow> (unit, 'a log_state_scheme) outcome" where
  "begin_ops [] s = Ok () s"
| "begin_ops (p # ps) s = obind (begin_op (s\<lparr>cur := Some p\<rparr>)) (\<lambda>_ s. begin_ops ps s)"

text \<open>A list of updates of blocks, each by a process: read the block, change it, log it, release it.\<close>

fun log_updates :: "(nat \<times> u32) list \<Rightarrow> (u32 \<Rightarrow> bytes \<Rightarrow> bytes) \<Rightarrow> 'a log_state_scheme \<Rightarrow> (unit, 'a log_state_scheme) outcome" where
  "log_updates [] f s = Ok () s"
| "log_updates ((p, bn) # xs) f s = obind (log_update bn (f bn) (s\<lparr>cur := Some p\<rparr>)) (\<lambda>_ s. log_updates xs f s)"

lemma log_updates_append:
  fixes s :: "'a log_state_scheme"
  shows "log_updates (xs @ ys) f s = obind (log_updates xs f s) (\<lambda>_ s. log_updates ys f s)"
proof (induction xs arbitrary: s)
  case (Cons x xs)
  then have "log_updates (xs @ ys) f = (\<lambda>s :: 'a log_state_scheme. obind (log_updates xs f s) (\<lambda>_ s. log_updates ys f s))"
    by (simp add: fun_eq_iff)
  then show ?case by (cases x) (simp add: obind_assoc)
qed simp

text \<open>Nothing is locked, and the blocks referenced are those of the transaction, once each.\<close>

definition crowd :: "u32 set \<Rightarrow> 'a log_state_scheme \<Rightarrow> bool" where
  "crowd B s \<longleftrightarrow> (\<exists>p. in_trans p (card B) s) \<and> finite B \<and> lh_block s ` {..<card B} = B \<and>
     (\<forall>bn. unlocked s bn) \<and> refs s = (\<lambda>bn. if bn \<in> B then 1 else 0) \<and>
     log_start s = 2 \<and> log_size s = 30 \<and> outstanding s = 3"

lemma view_cur:
  "content (s\<lparr>cur := c\<rparr>) = content s" "refs (s\<lparr>cur := c\<rparr>) = refs s" "unlocked (s\<lparr>cur := c\<rparr>) = unlocked s"
  "bcache_ok (s\<lparr>cur := c\<rparr>) = bcache_ok s"
proof -
  have "is_buf (s\<lparr>cur := c\<rparr>) = is_buf s" by (simp add: is_buf_def fun_eq_iff)
  then have i: "idx (s\<lparr>cur := c\<rparr>) = idx s" by (simp only: idx_def [abs_def])
  show "content (s\<lparr>cur := c\<rparr>) = content s" "refs (s\<lparr>cur := c\<rparr>) = refs s" "unlocked (s\<lparr>cur := c\<rparr>) = unlocked s"
    by (simp_all add: fun_eq_iff content_def refs_def unlocked_def i split: option.split)
  show "bcache_ok (s\<lparr>cur := c\<rparr>) = bcache_ok s" by (simp add: bcache_ok_def)
qed

lemma in_trans_cur: "in_trans p n s \<Longrightarrow> in_trans q n (s\<lparr>cur := Some q\<rparr>)"
  by (simp add: in_trans_def Let_def bview_of_def bio_inv_def running_def view_cur)

lemma crowd_cur: "crowd B s \<Longrightarrow> crowd B (s\<lparr>cur := Some q\<rparr>) \<and> in_trans q (card B) (s\<lparr>cur := Some q\<rparr>)"
  by (auto simp: crowd_def view_cur intro: in_trans_cur)

text \<open>What an update of a new block finds.\<close>

lemma crowd_view:
  assumes "crowd B s" and "in_trans p (card B) s" and "bn \<notin> B" and "card B < 30"
  shows "\<not> vlocked (bview_of p s) bn" "vroom (bview_of p s) bn" "vrefs (bview_of p s) bn = 0" "\<not> logged (card B) bn s"
proof -
  have "{bn. refs s bn \<noteq> 0} = B" using assms(1) by (auto simp: crowd_def)
  then show "\<not> vlocked (bview_of p s) bn" "vroom (bview_of p s) bn" "vrefs (bview_of p s) bn = 0" "\<not> logged (card B) bn s"
    using assms by (auto simp: crowd_def bview_of_def vroom_def logged_def)
qed

lemma crowd_update:
  assumes c: "crowd B s" and bn: "bn \<notin> B" "bn \<notin> log_area 2" and n: "card B < 29"
  shows "ensures (log_update bn f (s\<lparr>cur := Some p\<rparr>)) (\<lambda>_ t. crowd (insert bn B) t)"
proof -
  let ?s = "s\<lparr>cur := Some p\<rparr>"
  have t: "crowd B ?s" "in_trans p (card B) ?s" using crowd_cur [OF c] by blast+
  note v = crowd_view [OF t bn(1)]
  have l: "log_start ?s = 2" "log_size ?s = 30" "outstanding ?s = 3" "finite B" "lh_block ?s ` {..<card B} = B"
    using t(1) by (auto simp: crowd_def)
  have "ensures (log_update bn f ?s) (\<lambda>_ u. in_trans p (Suc (card B)) u \<and>
      bview_of p u = (bview_of p ?s)\<lparr>vcontent := (vcontent (bview_of p ?s))(bn := f (vcontent (bview_of p ?s) bn)),
        vrefs := (vrefs (bview_of p ?s))(bn := 1)\<rparr> \<and>
      bio_rest p u = bio_rest p (?s\<lparr>lh_block := (lh_block ?s)(card B := bn), lh_n := int (Suc (card B))\<rparr>))"
    using log_update_ensures [OF t(2), of bn f] v l bn n by (simp del: LOGSIZE_def) (simp add: LOGSIZE_def)
  then show ?thesis
  proof (rule ensures_mono, elim conjE)
    fix u
    assume u: "in_trans p (Suc (card B)) u"
      "bview_of p u = (bview_of p ?s)\<lparr>vcontent := (vcontent (bview_of p ?s))(bn := f (vcontent (bview_of p ?s) bn)),
        vrefs := (vrefs (bview_of p ?s))(bn := 1)\<rparr>"
      "bio_rest p u = bio_rest p (?s\<lparr>lh_block := (lh_block ?s)(card B := bn), lh_n := int (Suc (card B))\<rparr>)"
    note r = rest_log_fields [OF u(3)]
    have k: "card (insert bn B) = Suc (card B)" using l(4) bn(1) by simp
    have "lh_block u ` {..<Suc (card B)} = insert bn B"
      using l(5) by (auto simp: r(7) lessThan_Suc)
    moreover have "unlocked u = unlocked ?s" "refs u = (refs ?s)(bn := 1)"
      using u(2) by (simp_all add: bview_of_def fun_eq_iff)
    ultimately show "crowd (insert bn B) u"
      using u(1) t(1) l r unfolding crowd_def k by auto
  qed
qed

lemma crowd_updates:
  fixes s :: "'a log_state_scheme"
  assumes "crowd B s" and "distinct (map snd xs)" and "snd ` set xs \<inter> (B \<union> log_area 2) = {}" and "card B + length xs \<le> 29"
  shows "ensures (log_updates xs f s) (\<lambda>_ t. crowd (B \<union> snd ` set xs) t)"
  using assms
proof (induction xs arbitrary: B s)
  case (Cons x xs)
  obtain p bn where x: "x = (p, bn)" by fastforce
  have "finite B" using Cons.prems(1) by (simp add: crowd_def)
  then have k: "card (insert bn B) \<le> Suc (card B)" by (simp add: card_insert_if)
  have "ensures (log_update bn (f bn) (s\<lparr>cur := Some p\<rparr>)) (\<lambda>_ t. crowd (insert bn B) t)"
    by (rule crowd_update [OF Cons.prems(1)]) (use Cons.prems x in auto)
  then show ?case
    unfolding x log_updates.simps ensures_obind
  proof (rule ensures_mono)
    fix t :: "'a log_state_scheme"
    assume "crowd (insert bn B) t"
    with Cons.IH [of "insert bn B" t] Cons.prems k x
    show "ensures (log_updates xs f t) (\<lambda>_ u. crowd (B \<union> snd ` set ((p, bn) # xs)) u)" by auto
  qed
qed simp

text \<open>With 29 blocks in the log, \<open>bread\<close> still finds a buffer and \<open>log_write\<close> panics.\<close>

lemma crowd_panic:
  assumes c: "crowd B s" and bn: "bn \<notin> B" and n: "card B = 29"
  shows "log_update bn f (s\<lparr>cur := Some p\<rparr>) = Panic ''too big a transaction''"
proof -
  let ?s = "s\<lparr>cur := Some p\<rparr>"
  have t: "crowd B ?s" "in_trans p (card B) ?s" using crowd_cur [OF c] by blast+
  note v = crowd_view [OF t bn]
  have i: "bio_inv p ?s" "lh_n ?s = 29" "log_size ?s = 30"
    using t n by (simp_all add: in_trans_def crowd_def Let_def)
  obtain b u where u: "bread ROOTDEV bn ?s = Ok b u" "bio_inv p u" "bio_rest p u = bio_rest p ?s"
    using bc.rd [OF i(1) v(1,2)] n by (auto simp: ensures_iff_Ok)
  have "held u = {}" using u(2) by (simp add: bio_inv_def running_def)
  moreover have "lh_n u = 29" "log_size u = 30" using rest_log_fields [OF u(3)] i by simp_all
  ultimately have "log_write b (set_data b d u) = Panic ''too big a transaction''" for d
    by (simp add: log_write_def set_data_def upd_buf_def)
  then show ?thesis by (simp add: log_update_def u(1) del: ROOTDEV_def)
qed

section \<open>The run\<close>

text \<open>After \<open>initlog\<close> on a fresh kernel and three calls of \<open>begin_op\<close>, nothing is logged.\<close>

lemma boot_crowd:
  assumes b: "booted p d s" and wf: "log_wf 2 d" and z: "outstanding s = 0" "\<not> committing s"
  shows "ensures (initlog ROOTDEV mkfs_sb s) (\<lambda>_ s. ensures (begin_ops [p0, p1, p2] s) (\<lambda>_ t. crowd {} t))"
proof -
  have sb: "(2 :: int) = sint (logstart mkfs_sb)" "sint (nlog mkfs_sb) = 30" by (simp_all add: mkfs_sb_def)
  have pl: "log_place 2" by (simp add: log_place_def)
  show ?thesis
  proof (rule ensures_mono [OF initlog_ensures [OF b sb(1) pl wf]], elim conjE)
    fix t
    assume t: "recovers p 2 d t" "log_size t = sint (nlog mkfs_sb)" "outstanding t = outstanding s" "committing t = committing s"
    have r: "bio_inv p t" "lh_n t = 0" "log_start t = 2" "log_dev t = ROOTDEV" "hdr_n (disk t (head_of 2)) = 0"
      "content t = disk t" "refs t = (\<lambda>_. 0)" "\<forall>bn. unlocked t bn"
      using t(1) by (auto simp: recovers_def)
    have h: "held t = {}" using r(1) by (simp add: bio_inv_def running_def)
    let ?u = "t\<lparr>cur := Some p2, outstanding := 3\<rparr>"
    have "begin_ops [p0, p1, p2] t = Ok () ?u"
      using h r(2) t(3,4) z by (simp add: begin_op_def)
    moreover have "in_trans p 0 t"
      using r pl by (simp add: in_trans_def Let_def bview_of_def)
    then have "in_trans p2 0 ?u"
      using in_trans_cur [of p 0 t p2] by (simp add: in_trans_def Let_def)
    moreover have "refs ?u = refs t" "unlocked ?u = unlocked t"
      using truncate_eqD(1) [of "?u" "t\<lparr>cur := Some p2\<rparr>" p] view_cur(2,3) [of "Some p2" t]
      by (auto simp: bview_of_def bio_state.truncate_def fun_eq_iff)
    ultimately show "ensures (begin_ops [p0, p1, p2] t) (\<lambda>_ t. crowd {} t)"
      using r t(2) sb(2) by (auto simp: crowd_def)
  qed
qed

text \<open>Thirty updates of different blocks: 29 succeed.\<close>

lemma crowd_overflow:
  assumes c: "crowd {} t" and d: "distinct (map snd xs)" "set (map snd xs) \<inter> log_area 2 = {}" and l: "length xs = 30"
  shows "ensures (log_updates (butlast xs) f t) (\<lambda>_ u. lh_n u = 29) \<and>
    log_updates xs f t = Panic ''too big a transaction''"
proof -
  obtain ys p bn where xs: "xs = ys @ [(p, bn)]" using l by (cases xs rule: rev_exhaust) auto
  have ys: "distinct (map snd ys)" "snd ` set ys \<inter> ({} \<union> log_area 2) = {}" "length ys = 29" "bn \<notin> snd ` set ys"
    using d l xs by auto
  have card: "card (snd ` set ys) = 29" using distinct_card [OF ys(1)] ys(3) by simp
  have u: "ensures (log_updates ys f t) (\<lambda>_ u. crowd (snd ` set ys) u)"
    using crowd_updates [OF c ys(1,2)] ys(3) by simp
  then obtain v where v: "log_updates ys f t = Ok () v" "crowd (snd ` set ys) v" by (auto simp: ensures_iff_Ok)
  have "lh_n v = 29" using v(2) card by (auto simp: crowd_def in_trans_def Let_def)
  moreover have "log_updates xs f t = Panic ''too big a transaction''"
    unfolding xs log_updates_append v(1) by (simp add: crowd_panic [OF v(2) ys(4) card])
  ultimately show ?thesis by (simp add: xs v(1))
qed

text \<open>
  C30: the log that mkfs lays out is too small for what \<open>begin_op\<close> admits.  Boot a kernel on a disk with the super block
  of mkfs; let three processes begin a call, and each log MAXOPBLOCKS blocks, all different and outside the
  log.  \<open>initlog\<close> and the three \<open>begin_op\<close> return, all updates but the last return with every block in the log,
  and the last one panics in \<open>log_write\<close> with "too big a transaction".
\<close>

theorem mkfs_log_too_small:
  fixes p0 p1 p2 :: nat and as bs cs :: "u32 list"
  assumes b: "booted p d s" "log_wf 2 d" "outstanding s = 0" "\<not> committing s"
    and l: "length as = MAXOPBLOCKS" "length bs = MAXOPBLOCKS" "length cs = MAXOPBLOCKS"
    and d: "distinct (as @ bs @ cs)" "set (as @ bs @ cs) \<inter> log_area 2 = {}"
  defines "xs \<equiv> map (Pair p0) as @ map (Pair p1) bs @ map (Pair p2) cs"
  shows "ensures (initlog ROOTDEV mkfs_sb s) (\<lambda>_ s. ensures (begin_ops [p0, p1, p2] s) (\<lambda>_ s.
    ensures (log_updates (butlast xs) f s) (\<lambda>_ t. lh_n t = 29) \<and>
    log_updates xs f s = Panic ''too big a transaction''))"
proof -
  have "map snd xs = as @ bs @ cs" "length xs = 30" using l by (simp_all add: xs_def comp_def)
  then have "ensures (log_updates (butlast xs) f t) (\<lambda>_ u. lh_n u = 29) \<and> log_updates xs f t = Panic ''too big a transaction''"
    if "crowd {} t" for t
    by (intro crowd_overflow [OF that]) (simp_all only: d)
  then show ?thesis
    by (intro ensures_mono [OF boot_crowd [OF b]]) (rule ensures_mono)
qed

text \<open>On a disk of zeros, with the blocks from 40 on.\<close>

lemma log_area_low: "x \<in> log_area 2 \<Longrightarrow> unat x < 40"
proof -
  have "unat (3 + word_of_nat n :: u32) < 40" if "n < 30" for n
    using that unat_of_nat [where 'a = 32, of "3 + n"] by simp
  then show "x \<in> log_area 2 \<Longrightarrow> unat x < 40" by (auto simp: log_area_def head_of_def slot_of_def)
qed

definition home_blocks :: "nat \<Rightarrow> u32 list" where
  "home_blocks k = map word_of_nat [k..<k + MAXOPBLOCKS]"

theorem mkfs_log_too_small_witness:
  "ensures (initlog ROOTDEV mkfs_sb (binit (log_zero 0))) (\<lambda>_ s. ensures (begin_ops [0, 1, 2] s) (\<lambda>_ s.
    log_updates (map (Pair 0) (home_blocks 40) @ map (Pair 1) (home_blocks 50) @ map (Pair 2) (home_blocks 60)) (\<lambda>_ d. d) s
      = Panic ''too big a transaction''))"
proof -
  let ?s = "binit (log_zero 0)"
  have b: "booted 0 (\<lambda>_ _. 0) ?s" unfolding log_zero_def by (rule binit_zero)
  have wf: "log_wf 2 (\<lambda>_ _. 0)" by (simp add: log_wf_def hdr_n_def load32_zero)
  have "log_vars ?s = log_vars (log_zero 0)" by (rule log_vars_more [OF binit_more])
  then have z: "outstanding ?s = 0" "\<not> committing ?s" by (simp_all add: log_vars_def log_zero_fields)
  have u: "home_blocks 40 @ home_blocks 50 @ home_blocks 60 = map word_of_nat [40..<70]"
    by (simp add: home_blocks_def upt_rec)
  have "inj_on (word_of_nat :: nat \<Rightarrow> u32) {40..<70}"
    by (rule inj_onI) (auto dest!: arg_cong [where f = unat] simp: unat_of_nat)
  then have d: "distinct (home_blocks 40 @ home_blocks 50 @ home_blocks 60)" unfolding u by (simp add: distinct_map)
  have a: "set (home_blocks 40 @ home_blocks 50 @ home_blocks 60) \<inter> log_area 2 = {}"
    unfolding u by (auto dest!: log_area_low simp: unat_of_nat)
  have l: "length (home_blocks k) = MAXOPBLOCKS" for k by (simp add: home_blocks_def)
  show ?thesis
    using mkfs_log_too_small [OF b wf z l l l d a, of 0 1 2 "\<lambda>_ d. d"] by (elim ensures_mono) blast
qed

end
