(* ===== verification/Mkfs_Image.thy ===== *)
theory Mkfs_Image
  imports Mkfs
begin

text \<open>
  What \<open>mkfs\<close> leaves in the image.  \<open>holds\<close> says that the blocks of an inode hold a content followed by zeros,
  \<open>grows\<close> what appending to one file may do to the rest, \<open>is_image\<close> that the image has a given list of files,
  inode after inode, no block in two of them.  Every operation of Mkfs keeps \<open>is_image\<close> and never runs out
  of blocks when the sum of the blocks of the files is within the image.
\<close>

section \<open>Files of the image\<close>

definition nb :: "nat \<Rightarrow> nat" where
  "nb L = (L + 1023) div 1024"

definition fblk :: "(u32 \<Rightarrow> bytes) \<Rightarrow> (nat \<Rightarrow> u32) \<Rightarrow> nat \<Rightarrow> u32" where
  "fblk im a j = (if j < 12 then a j else load32 (im (a 12)) (4 * (j - 12)))"

definition owned :: "(u32 \<Rightarrow> bytes) \<Rightarrow> (nat \<Rightarrow> u32) \<Rightarrow> nat \<Rightarrow> u32 list" where
  "owned im a n = map (fblk im a) [0..<n] @ (if 12 < n then [a 12] else [])"

definition need :: "nat \<Rightarrow> nat" where
  "need n = n + (if 12 < n then 1 else 0)"

definition holds :: "(u32 \<Rightarrow> bytes) \<Rightarrow> (nat \<Rightarrow> u32) \<Rightarrow> nat \<Rightarrow> u8 list \<Rightarrow> bool" where
  "holds im a n c \<longleftrightarrow> n \<le> 268 \<and> length c \<le> 1024 * n \<and> distinct (owned im a n) \<and> 0 \<notin> set (owned im a n) \<and>
     (\<forall>j<12. n \<le> j \<longrightarrow> a j = 0) \<and> (n \<le> 12 \<longrightarrow> a 12 = 0) \<and> (12 < n \<longrightarrow> (\<forall>j<268. n \<le> j \<longrightarrow> fblk im a j = 0)) \<and>
     (\<forall>i<1024 * n. im (fblk im a (i div 1024)) (i mod 1024) = nth0 c i)"

lemma length_owned [simp]: "length (owned im a n) = need n"
  by (simp add: owned_def need_def)

lemma fblk_in_owned: "j < n \<Longrightarrow> fblk im a j \<in> set (owned im a n)"
  by (simp add: owned_def)

lemma indirect_in_owned: "12 < n \<Longrightarrow> a 12 \<in> set (owned im a n)"
  by (simp add: owned_def)

text \<open>A file depends on its own blocks only.\<close>

lemma fblk_frame:
  assumes "\<And>b. b \<in> set (owned im a n) \<Longrightarrow> im' b = im b" "j < n \<or> 12 < n"
  shows "fblk im' a j = fblk im a j"
proof (cases "j < 12")
  case False
  with assms(2) have "12 < n" by auto
  then show ?thesis using assms(1) indirect_in_owned [of n a im] by (simp add: fblk_def)
qed (simp add: fblk_def)

lemma owned_frame:
  assumes "\<And>b. b \<in> set (owned im a n) \<Longrightarrow> im' b = im b"
  shows "owned im' a n = owned im a n"
proof -
  have "map (fblk im' a) [0..<n] = map (fblk im a) [0..<n]"
    using fblk_frame [OF assms] by simp
  then show ?thesis by (simp add: owned_def)
qed

lemma holds_frame:
  assumes h: "holds im a n c" and f: "\<And>b. b \<in> set (owned im a n) \<Longrightarrow> im' b = im b"
  shows "holds im' a n c"
proof -
  have "im' (fblk im' a (i div 1024)) (i mod 1024) = nth0 c i" if i: "i < 1024 * n" for i
  proof -
    from i have "i div 1024 < n" by auto
    then have "fblk im' a (i div 1024) = fblk im a (i div 1024)"
      by (intro fblk_frame [OF f]) auto
    moreover have "im' (fblk im a (i div 1024)) = im (fblk im a (i div 1024))"
      by (rule f) (rule fblk_in_owned [OF \<open>i div 1024 < n\<close>])
    ultimately show ?thesis using h i by (simp add: holds_def)
  qed
  moreover have "fblk im' a j = fblk im a j" if "12 < n" for j
    using that by (intro fblk_frame [OF f]) auto
  ultimately show ?thesis using h by (simp add: holds_def owned_frame [OF f])
qed

lemma nb_block: "0 < k \<Longrightarrow> r + k \<le> 1024 \<Longrightarrow> nb (1024 * q + r + k) = q + 1"
  unfolding nb_def by (rule div_nat_eqI) simp_all

lemma block_lt: "i < 1024 * q + r + k \<Longrightarrow> r + k \<le> 1024 \<Longrightarrow> i < 1024 * (q + 1)" for i :: nat
  by simp

lemma block_le: "r + k \<le> 1024 \<Longrightarrow> 1024 * q + r + k \<le> 1024 * (q + 1)" for q :: nat
  by simp

lemma nb_append: "0 < k \<Longrightarrow> k \<le> 1024 - L mod 1024 \<Longrightarrow> nb (L + k) = L div 1024 + 1"
  using nb_block [of k "L mod 1024" "L div 1024"] by simp

lemma nb_div: "nb L = (if L mod 1024 = 0 then L div 1024 else L div 1024 + 1)"
proof (cases "L mod 1024 = 0")
  case True
  then obtain q where "L = 1024 * q" by auto
  then show ?thesis by (simp add: nb_def div_nat_eqI)
next
  case False
  then show ?thesis using nb_block [of "L mod 1024" 0 "L div 1024"] mod_less_divisor [of 1024 L] by simp
qed

text \<open>Writing the next bytes of the last block.\<close>

lemma owned_inj:
  assumes "distinct (owned im a n)"
  shows "i < n \<Longrightarrow> j < n \<Longrightarrow> fblk im a i = fblk im a j \<longleftrightarrow> i = j"
    and "i < n \<Longrightarrow> 12 < n \<Longrightarrow> fblk im a i \<noteq> a 12"
proof -
  have m: "inj_on (fblk im a) {0..<n}" using assms by (simp add: owned_def distinct_map)
  then show "i < n \<Longrightarrow> j < n \<Longrightarrow> fblk im a i = fblk im a j \<longleftrightarrow> i = j" by (simp add: inj_on_eq_iff)
  assume "i < n" "12 < n"
  then have "fblk im a i \<in> fblk im a ` {0..<n}" "a 12 \<notin> fblk im a ` {0..<n}" using assms by (simp_all add: owned_def)
  then show "fblk im a i \<noteq> a 12" by metis
qed

lemma holds_write:
  assumes h: "holds im a n c" and n: "n = length c div 1024 + 1" and p: "length p \<le> 1024 - length c mod 1024"
    and x: "x = fblk im a (n - 1)"
  shows "holds (im(x := write_bytes (im x) (length c mod 1024) p)) a n (c @ p)" (is "holds ?im a n _")
    and "owned (im(x := write_bytes (im x) (length c mod 1024) p)) a n = owned im a n"
proof -
  have d: "distinct (owned im a n)" using h by (simp add: holds_def)
  have f: "fblk ?im a j = fblk im a j" if "j < n \<or> 12 < n" for j
  proof (cases "j < 12")
    case False
    with that have "12 < n" by auto
    then have "a 12 \<noteq> x" using owned_inj(2) [OF d, of "n - 1"] x n by simp
    then show ?thesis by (simp add: fblk_def)
  qed (simp add: fblk_def)
  show o: "owned ?im a n = owned im a n" by (simp add: owned_def f)
  have "?im (fblk ?im a (i div 1024)) (i mod 1024) = nth0 (c @ p) i" if i: "i < 1024 * n" for i
  proof -
    have l: "i div 1024 < n" using i by auto
    have old: "im (fblk im a (i div 1024)) (i mod 1024) = nth0 c i" using h i by (simp add: holds_def)
    show ?thesis
    proof (cases "i div 1024 = n - 1")
      case True
      then have e: "i div 1024 = length c div 1024" using n by simp
      have dm: "i = 1024 * (i div 1024) + i mod 1024" "length c = 1024 * (length c div 1024) + length c mod 1024" by simp_all
      from dm e have k: "length c mod 1024 \<le> i mod 1024 \<longleftrightarrow> length c \<le> i"
        "i mod 1024 < length c mod 1024 + length p \<longleftrightarrow> i < length c + length p"
        "length c \<le> i \<Longrightarrow> i mod 1024 - length c mod 1024 = i - length c" by linarith+
      show ?thesis using old x e n f [of "i div 1024"] l
        by (auto simp: write_bytes_def k nth0_def nth_append)
    next
      case False
      with l n have "i div 1024 < length c div 1024" by simp
      then have "i < length c" by (metis div_le_mono not_less)
      moreover have "fblk im a (i div 1024) \<noteq> x" using owned_inj(1) [OF d l, of "n - 1"] False n x by simp
      ultimately show ?thesis using old f [of "i div 1024"] l by (simp add: nth0_def nth_append)
    qed
  qed
  moreover have "length (c @ p) \<le> 1024 * n"
    using block_le [of "length c mod 1024" "length p" "length c div 1024"] p n by simp
  ultimately show "holds ?im a n (c @ p)" using h f by (simp add: holds_def o)
qed

text \<open>One more block for a file.\<close>

lemma holds_extend:
  assumes h: "holds im a n c" and n: "n < 268"
    and old: "\<And>j. j < n \<Longrightarrow> fblk im' a' j = fblk im a j" "\<And>j. j < n \<Longrightarrow> im' (fblk im a j) = im (fblk im a j)"
    and new: "fblk im' a' n \<notin> insert 0 (set (owned im a n))" "im' (fblk im' a' n) = (\<lambda>_. 0)"
    and ind: "12 < n \<Longrightarrow> a' 12 = a 12" "n = 12 \<Longrightarrow> a' 12 \<notin> insert 0 (insert (fblk im' a' n) (set (owned im a n)))"
    and zero: "\<And>j. j < 12 \<Longrightarrow> n < j \<Longrightarrow> a' j = 0" "n < 12 \<Longrightarrow> a' 12 = 0"
      "\<And>j. 12 \<le> n \<Longrightarrow> j < 268 \<Longrightarrow> n < j \<Longrightarrow> fblk im' a' j = 0"
  shows "holds im' a' (n + 1) c"
    and "set (owned im' a' (n + 1)) = insert (fblk im' a' n) (set (owned im a n) \<union> (if n = 12 then {a' 12} else {}))"
proof -
  have m: "map (fblk im' a') [0..<n] = map (fblk im a) [0..<n]" using old(1) by simp
  have o: "owned im' a' (n + 1) =
      map (fblk im a) [0..<n] @ [fblk im' a' n] @ (if 12 < n then [a 12] else if n = 12 then [a' 12] else [])"
    using m ind(1) by (auto simp: owned_def)
  then show "set (owned im' a' (n + 1)) = insert (fblk im' a' n) (set (owned im a n) \<union> (if n = 12 then {a' 12} else {}))"
    by (auto simp: owned_def)
  have d: "distinct (owned im' a' (n + 1))" "0 \<notin> set (owned im' a' (n + 1))"
    unfolding o using h new(1) ind(2) by (auto simp: holds_def owned_def split: if_splits)
  have "im' (fblk im' a' (i div 1024)) (i mod 1024) = nth0 c i" if i: "i < 1024 * (n + 1)" for i
  proof (cases "i < 1024 * n")
    case True
    then have "i div 1024 < n" by auto
    then show ?thesis using old h True by (simp add: holds_def)
  next
    case False
    with i have "i div 1024 = n" by (intro div_nat_eqI) simp_all
    moreover have "length c \<le> i" using False h by (simp add: holds_def)
    ultimately show ?thesis using new(2) by (simp add: nth0_def)
  qed
  then show "holds im' a' (n + 1) c" using h n d zero by (simp add: holds_def)
qed

section \<open>Sectors\<close>

lemma rsect_in: "unat sec < nsect s \<Longrightarrow> nsect s \<le> 2000 \<Longrightarrow> rsect sec s = Ok (img s sec) s"
  by (simp add: rsect_def)

lemma wsect_in: "unat sec < nsect s \<Longrightarrow> nsect s \<le> 2000 \<Longrightarrow> wsect sec d s = s\<lparr>img := (img s)(sec := d)\<rparr>"
  by (simp add: wsect_def max_def)

section \<open>The block of an offset\<close>

definition clean :: "mkfs_state \<Rightarrow> bool" where
  "clean s \<longleftrightarrow> nsect s = 2000 \<and> msb s = mkfs_sb \<and> 46 \<le> unat (freeblock s) \<and> unat (freeblock s) \<le> 2000 \<and>
     (\<forall>b. freeblock s \<le> b \<longrightarrow> img s b = (\<lambda>_. 0))"

text \<open>What an operation on one file does to the image.\<close>

definition grows :: "mkfs_state \<Rightarrow> (nat \<Rightarrow> u32) \<Rightarrow> nat \<Rightarrow> mkfs_state \<Rightarrow> (nat \<Rightarrow> u32) \<Rightarrow> nat \<Rightarrow> bool" where
  "grows s a n s' a' n' \<longleftrightarrow> clean s' \<and> freeinode s' = freeinode s \<and> freeblock s \<le> freeblock s' \<and>
     unat (freeblock s') + need n = unat (freeblock s) + need n' \<and>
     set (owned (img s) a n) \<subseteq> set (owned (img s') a' n') \<and>
     set (owned (img s') a' n') \<subseteq> set (owned (img s) a n) \<union> {freeblock s..<freeblock s'} \<and>
     (\<forall>b. b \<notin> set (owned (img s') a' n') \<longrightarrow> img s' b = img s b)"

lemma next_block:
  assumes "clean s" "unat (freeblock s) < 2000"
  shows "unat (freeblock s + 1) = unat (freeblock s) + 1" "freeblock s \<noteq> 0" "freeblock s < freeblock s + 1"
    "img s (freeblock s) = (\<lambda>_. 0)" "b \<in> {46..<freeblock s} \<Longrightarrow> b \<noteq> freeblock s"
proof -
  show u: "unat (freeblock s + 1) = unat (freeblock s) + 1" using assms by (simp add: unat_word_ariths)
  show "freeblock s \<noteq> 0" using assms by (auto simp: clean_def)
  show "freeblock s < freeblock s + 1" by (simp add: word_less_nat_alt u)
  show "img s (freeblock s) = (\<lambda>_. 0)" using assms by (simp add: clean_def)
  show "b \<in> {46..<freeblock s} \<Longrightarrow> b \<noteq> freeblock s" by auto
qed

lemma bmap_direct:
  assumes c: "clean s" and h: "holds (img s) (di_addrs din) n c" and n: "n < 12"
    and own: "set (owned (img s) (di_addrs din) n) \<subseteq> {46..<freeblock s}" and room: "unat (freeblock s) < 2000"
  shows "\<exists>din' s'. mkfs_bmap n din s = Ok (fblk (img s') (di_addrs din') n, din') s' \<and>
    din' = din\<lparr>di_addrs := di_addrs din'\<rparr> \<and>
    holds (img s') (di_addrs din') (n + 1) c \<and> grows s (di_addrs din) n s' (di_addrs din') (n + 1)"
proof -
  let ?a = "(di_addrs din)(n := freeblock s)" and ?s = "s\<lparr>freeblock := freeblock s + 1\<rparr>"
  note nx = next_block [OF c room]
  have z: "di_addrs din n = 0" using h n by (simp add: holds_def)
  have f: "fblk (img s) ?a n = freeblock s" using n by (simp add: fblk_def)
  have nw: "freeblock s \<notin> set (owned (img s) (di_addrs din) n)" using own nx(5) by blast
  have ext: "holds (img s) ?a (n + 1) c \<and>
    set (owned (img s) ?a (n + 1)) = insert (fblk (img s) ?a n) (set (owned (img s) (di_addrs din) n))"
    using holds_extend [OF h, of "img s" ?a] n nw nx(2,4) f h by (simp add: fblk_def holds_def)
  have cl: "clean ?s" using c room nx(1) by (auto simp: clean_def word_le_nat_alt)
  have "mkfs_bmap n din s = Ok (freeblock s, din\<lparr>di_addrs := ?a\<rparr>) ?s"
    using z n by (simp add: mkfs_bmap_def take_block_def)
  moreover have "grows s (di_addrs din) n ?s ?a (n + 1)"
    using ext cl nx f n by (auto simp: grows_def need_def)
  ultimately show ?thesis using ext f by (intro exI [of _ "din\<lparr>di_addrs := ?a\<rparr>"] exI [of _ ?s]) simp
qed

lemma bmap_indirect_first:
  assumes c: "clean s" and h: "holds (img s) (di_addrs din) 12 c"
    and own: "set (owned (img s) (di_addrs din) 12) \<subseteq> {46..<freeblock s}" and room: "unat (freeblock s) + 1 < 2000"
  shows "\<exists>din' s'. mkfs_bmap 12 din s = Ok (fblk (img s') (di_addrs din') 12, din') s' \<and>
    din' = din\<lparr>di_addrs := di_addrs din'\<rparr> \<and>
    holds (img s') (di_addrs din') 13 c \<and> grows s (di_addrs din) 12 s' (di_addrs din') 13"
proof -
  let ?ib = "freeblock s" and ?v = "freeblock s + 1"
  let ?a = "(di_addrs din)(12 := ?ib)"
  let ?s = "s\<lparr>img := (img s)(?ib := store32 (\<lambda>_. 0) 0 ?v), freeblock := ?v + 1\<rparr>"
  have room': "unat (freeblock s) < 2000" using room by simp
  note nx = next_block [OF c room']
  have z: "di_addrs din 12 = 0" using h by (simp add: holds_def)
  have f: "fblk (img ?s) ?a 12 = ?v" by (simp add: fblk_def)
  have v: "unat (?v + 1) = unat (freeblock s) + 2" "?v \<noteq> 0"
    using room nx(1) unat_0 [where 'a = 32] by (simp add: unat_word_ariths, metis add_is_0 zero_neq_one)
  have nw: "?ib \<notin> set (owned (img s) (di_addrs din) 12)" "?v \<notin> set (owned (img s) (di_addrs din) 12)"
    using own nx(3) by (auto dest!: subsetD)
  have z2: "load32 (store32 (\<lambda>_. 0) 0 ?v) k = 0" if "4 \<le> k" for k
    using that by (simp add: load32_store32_disjoint load32_zero)
  have "img ?s (fblk (img s) (di_addrs din) j) = img s (fblk (img s) (di_addrs din) j)" if "j < 12" for j
    using nw(1) fblk_in_owned [OF that, of "img s" "di_addrs din"] by auto
  moreover have "img ?s ?v = (\<lambda>_. 0)" using c nx(3) by (auto simp: clean_def)
  ultimately have ext: "holds (img ?s) ?a 13 c \<and>
    set (owned (img ?s) ?a 13) = insert ?v (insert ?ib (set (owned (img s) (di_addrs din) 12)))"
    using holds_extend [OF h, of "img ?s" ?a] nw nx v f z2 by (simp add: fblk_def)
  have cl: "clean ?s" using c room v nx by (auto simp: clean_def word_le_nat_alt)
  have "mkfs_bmap 12 din s = Ok (?v, din\<lparr>di_addrs := ?a\<rparr>) ?s"
    using z c room' nx(4) by (simp add: mkfs_bmap_def Let_def take_block_def rsect_in wsect_in clean_def load32_zero)
  moreover have "grows s (di_addrs din) 12 ?s ?a 13"
    using ext cl nx v by (auto simp: grows_def need_def word_less_nat_alt word_le_nat_alt)
  ultimately show ?thesis using ext f by (intro exI [of _ "din\<lparr>di_addrs := ?a\<rparr>"] exI [of _ ?s]) simp
qed

lemma bmap_indirect:
  assumes c: "clean s" and h: "holds (img s) (di_addrs din) n c" and n: "12 < n" "n < 268"
    and own: "set (owned (img s) (di_addrs din) n) \<subseteq> {46..<freeblock s}" and room: "unat (freeblock s) < 2000"
  shows "\<exists>din' s'. mkfs_bmap n din s = Ok (fblk (img s') (di_addrs din') n, din') s' \<and>
    din' = din\<lparr>di_addrs := di_addrs din'\<rparr> \<and>
    holds (img s') (di_addrs din') (n + 1) c \<and> grows s (di_addrs din) n s' (di_addrs din') (n + 1)"
proof -
  let ?a = "di_addrs din" and ?v = "freeblock s" and ?k = "4 * (n - 12)"
  let ?s = "s\<lparr>img := (img s)(?a 12 := store32 (img s (?a 12)) ?k ?v), freeblock := freeblock s + 1\<rparr>"
  note nx = next_block [OF c room]
  have ib: "?a 12 \<in> {46..<freeblock s}" using own n indirect_in_owned by blast
  then have ib': "?a 12 \<noteq> 0" "unat (?a 12) < 2000" "?a 12 < freeblock s"
    using room by (auto simp: word_less_nat_alt)
  have z: "load32 (img s (?a 12)) ?k = 0" using h n by (auto simp: holds_def fblk_def)
  have f: "fblk (img ?s) ?a n = ?v" using n by (simp add: fblk_def)
  have nw: "?v \<notin> set (owned (img s) ?a n)" using own nx(5) by blast
  have o: "fblk (img ?s) ?a j = fblk (img s) ?a j" if "j \<noteq> n" for j
  proof (cases "j < 12")
    case False
    with that n have "4 * (j - 12) + 4 \<le> ?k \<or> ?k + 4 \<le> 4 * (j - 12)" by arith
    then show ?thesis using False by (simp add: fblk_def load32_store32_disjoint)
  qed (simp add: fblk_def)
  have dat: "img ?s (fblk (img s) ?a j) = img s (fblk (img s) ?a j)" if "j < n" for j
    using that n owned_inj(2) [of "img s" ?a n j] h by (simp add: holds_def)
  have iv: "img ?s ?v = (\<lambda>_. 0)" using nx(4) ib'(3) by auto
  have zs: "fblk (img s) ?a j = 0" if "n < j" "j < 268" for j using h n that by (simp add: holds_def)
  note ex = holds_extend [OF h n(2), of "img ?s" ?a, OF o dat]
  have ext: "holds (img ?s) ?a (n + 1) c" "set (owned (img ?s) ?a (n + 1)) = insert ?v (set (owned (img s) ?a n))"
    using ex(1) ex(2) nw nx(2) n f iv o zs by (simp_all del: fun_upd_apply)
  have cl: "clean ?s" using c room nx ib' by (auto simp: clean_def word_le_nat_alt word_less_nat_alt)
  have "mkfs_bmap n din s = Ok (?v, din) ?s"
    using z c n ib' by (simp add: mkfs_bmap_def Let_def take_block_def rsect_in wsect_in clean_def)
  moreover have "grows s ?a n ?s ?a (n + 1)"
    using ext cl nx n indirect_in_owned [OF n(1), of ?a "img s"] by (auto simp: grows_def need_def)
  ultimately show ?thesis using ext f by (intro exI [of _ din] exI [of _ ?s]) simp
qed

lemma bmap_present:
  assumes c: "clean s" and h: "holds (img s) (di_addrs din) (n + 1) c"
    and own: "set (owned (img s) (di_addrs din) (n + 1)) \<subseteq> {46..<freeblock s}"
  shows "mkfs_bmap n din s = Ok (fblk (img s) (di_addrs din) n, din) s"
proof -
  have nz: "fblk (img s) (di_addrs din) n \<noteq> 0"
    using h fblk_in_owned [of n "n + 1" "img s" "di_addrs din"] by (auto simp: holds_def)
  show ?thesis
  proof (cases "n < 12")
    case True
    with nz show ?thesis by (simp add: mkfs_bmap_def take_block_def fblk_def)
  next
    case False
    then have ib: "di_addrs din 12 \<in> set (owned (img s) (di_addrs din) (n + 1))" by (simp add: indirect_in_owned)
    then have "di_addrs din 12 \<noteq> 0" "unat (di_addrs din 12) < 2000"
      using h own c by (auto simp: holds_def clean_def word_less_nat_alt dest!: subsetD)
    with nz False c show ?thesis by (simp add: mkfs_bmap_def Let_def take_block_def fblk_def rsect_in clean_def)
  qed
qed

lemma grows_refl: "clean s \<Longrightarrow> grows s a n s a n"
  by (simp add: grows_def)

lemma growsD:
  assumes "grows s a n s' a' n'"
  shows "clean s'" "freeinode s' = freeinode s" "freeblock s \<le> freeblock s'"
    "unat (freeblock s') + need n = unat (freeblock s) + need n'"
    "set (owned (img s) a n) \<subseteq> set (owned (img s') a' n')"
    "set (owned (img s') a' n') \<subseteq> set (owned (img s) a n) \<union> {freeblock s..<freeblock s'}"
    "b \<notin> set (owned (img s') a' n') \<Longrightarrow> img s' b = img s b"
  using assms by (simp_all add: grows_def)

lemma subset_chain: "A' \<subseteq> A \<union> I \<Longrightarrow> A'' \<subseteq> A' \<union> J \<Longrightarrow> A'' \<subseteq> A \<union> (I \<union> J)"
  by blast

lemma grows_trans:
  assumes g: "grows s a n s' a' n'" and g': "grows s' a' n' s'' a'' n''"
  shows "grows s a n s'' a'' n''"
  unfolding grows_def
proof (intro conjI allI impI)
  let ?o = "set (owned (img s) a n)" and ?o' = "set (owned (img s') a' n')" and ?o'' = "set (owned (img s'') a'' n'')"
  have u: "{freeblock s..<freeblock s'} \<union> {freeblock s'..<freeblock s''} = {freeblock s..<freeblock s''}"
    by (rule ivl_disj_un_two(3) [OF growsD(3) [OF g] growsD(3) [OF g']])
  show "?o'' \<subseteq> ?o \<union> {freeblock s..<freeblock s''}"
    unfolding u [symmetric] by (rule subset_chain [OF growsD(6) [OF g] growsD(6) [OF g']])
  show "?o \<subseteq> ?o''" using growsD(5) [OF g] growsD(5) [OF g'] by (rule subset_trans)
  show "img s'' b = img s b" if "b \<notin> ?o''" for b
    using growsD(7) [OF g' that] growsD(7) [OF g contra_subsetD [OF growsD(5) [OF g'] that]] by (rule trans)
  show "freeblock s \<le> freeblock s''" using growsD(3) [OF g] growsD(3) [OF g'] by (rule order_trans)
  show "unat (freeblock s'') + need n = unat (freeblock s) + need n''"
    using growsD(4) [OF g] growsD(4) [OF g'] by linarith
qed (simp_all add: growsD(1) [OF g'] growsD(2) [OF g] growsD(2) [OF g'])

lemma grows_own:
  assumes "grows s a n s' a' n'" "set (owned (img s) a n) \<subseteq> {46..<freeblock s}" "clean s"
  shows "set (owned (img s') a' n') \<subseteq> {46..<freeblock s'}"
proof -
  have "46 \<le> freeblock s" "freeblock s \<le> freeblock s'" using assms by (auto simp: clean_def grows_def word_le_nat_alt)
  then have "{46..<freeblock s} \<subseteq> {46..<freeblock s'}" "{freeblock s..<freeblock s'} \<subseteq> {46..<freeblock s'}" by auto
  moreover have "set (owned (img s') a' n') \<subseteq> set (owned (img s) a n) \<union> {freeblock s..<freeblock s'}"
    using assms(1) by (simp add: grows_def)
  ultimately show ?thesis using assms(2) by blast
qed

lemma bmap_ok:
  assumes c: "clean s" and h: "holds (img s) (di_addrs din) (nb (length c)) c" and n: "length c div 1024 = n" "n < 268"
    and own: "set (owned (img s) (di_addrs din) (nb (length c))) \<subseteq> {46..<freeblock s}"
    and room: "unat (freeblock s) + need (n + 1) \<le> 2000 + need (nb (length c))"
  shows "\<exists>din' s'. mkfs_bmap n din s = Ok (fblk (img s') (di_addrs din') n, din') s' \<and>
    din' = din\<lparr>di_addrs := di_addrs din'\<rparr> \<and>
    holds (img s') (di_addrs din') (n + 1) c \<and> grows s (di_addrs din) (nb (length c)) s' (di_addrs din') (n + 1)"
proof (cases "length c mod 1024 = 0")
  case True
  then have e: "nb (length c) = n" using n by (simp add: nb_div)
  have r: "unat (freeblock s) < 2000" using room e by (simp add: need_def split: if_splits)
  consider "n < 12" | "n = 12" | "12 < n" by linarith
  then show ?thesis
  proof cases
    case 1
    then show ?thesis using bmap_direct [OF c _ _ _ r] h own e by simp
  next
    case 2
    then have "unat (freeblock s) + 1 < 2000" using room e by (simp add: need_def)
    then show ?thesis using bmap_indirect_first [OF c] h own e 2 by simp
  next
    case 3
    then show ?thesis using bmap_indirect [OF c _ _ _ _ r] h own e n by simp
  qed
next
  case False
  then have e: "nb (length c) = n + 1" using n by (simp add: nb_div)
  show ?thesis using bmap_present [OF c, of din n c] h own e grows_refl [OF c]
    by (intro exI [of _ din] exI [of _ s]) simp
qed

section \<open>Appending\<close>

lemma need_nb_mono: "m \<le> n \<Longrightarrow> need (nb m) \<le> need (nb n)"
proof -
  assume "m \<le> n"
  then have "nb m \<le> nb n" unfolding nb_def by (intro div_le_mono) simp
  then show ?thesis by (simp add: need_def)
qed

lemma block_write:
  assumes c: "clean s" and h: "holds (img s) a (length c div 1024 + 1) c" and p: "length p \<le> 1024 - length c mod 1024"
    and own: "set (owned (img s) a (length c div 1024 + 1)) \<subseteq> {46..<freeblock s}" and x: "x = fblk (img s) a (length c div 1024)"
  shows "\<exists>s'. wsect x (write_bytes (img s x) (length c mod 1024) p) s = s' \<and> rsect x s = Ok (img s x) s \<and>
    holds (img s') a (length c div 1024 + 1) (c @ p) \<and> grows s a (length c div 1024 + 1) s' a (length c div 1024 + 1)"
proof -
  let ?n = "length c div 1024 + 1" and ?s = "s\<lparr>img := (img s)(x := write_bytes (img s x) (length c mod 1024) p)\<rparr>"
  have xo: "x \<in> set (owned (img s) a ?n)" using x by (simp add: fblk_in_owned)
  with own have fb: "x < freeblock s" by auto
  then have xl: "unat x < 2000" using c by (simp add: clean_def word_less_nat_alt)
  have w: "holds (img ?s) a ?n (c @ p)" "owned (img ?s) a ?n = owned (img s) a ?n"
    using holds_write [OF h refl p, of x] x by simp_all
  have "clean ?s" using c fb by (auto simp: clean_def)
  then have "grows s a ?n ?s a ?n" using w(2) xo by (auto simp: grows_def)
  with w(1) xl c show ?thesis by (simp add: rsect_in wsect_in clean_def)
qed

lemma append_chunk:
  assumes c: "clean s" and h: "holds (img s) (di_addrs din) (nb (length c)) c"
    and l: "length c + length p \<le> 274432" and p: "0 < length p" "length p \<le> 1024 - length c mod 1024"
    and own: "set (owned (img s) (di_addrs din) (nb (length c))) \<subseteq> {46..<freeblock s}"
    and room: "unat (freeblock s) + need (nb (length (c @ p))) \<le> 2000 + need (nb (length c))"
  shows "\<exists>x din' s1 s2. mkfs_bmap (length c div 1024) din s = Ok (x, din') s1 \<and> rsect x s1 = Ok (img s1 x) s1 \<and>
    wsect x (write_bytes (img s1 x) (length c mod 1024) p) s1 = s2 \<and> din' = din\<lparr>di_addrs := di_addrs din'\<rparr> \<and>
    holds (img s2) (di_addrs din') (nb (length (c @ p))) (c @ p) \<and>
    grows s (di_addrs din) (nb (length c)) s2 (di_addrs din') (nb (length (c @ p)))"
proof -
  have n: "nb (length (c @ p)) = length c div 1024 + 1" using nb_append [OF p] by simp
  have "length c < 268 * 1024" using l p(1) by linarith
  then have "length c div 1024 < 268" by (simp add: less_mult_imp_div_less)
  from bmap_ok [OF c h refl this own] room n obtain din' s1 where
    b: "mkfs_bmap (length c div 1024) din s = Ok (fblk (img s1) (di_addrs din') (length c div 1024), din') s1"
      "din' = din\<lparr>di_addrs := di_addrs din'\<rparr>" "holds (img s1) (di_addrs din') (length c div 1024 + 1) c"
    and g: "grows s (di_addrs din) (nb (length c)) s1 (di_addrs din') (length c div 1024 + 1)" by auto
  from block_write [OF growsD(1) [OF g] b(3) p(2) grows_own [OF g own c] refl] obtain s2 where
    "wsect (fblk (img s1) (di_addrs din') (length c div 1024)) (write_bytes (img s1 (fblk (img s1) (di_addrs din')
       (length c div 1024))) (length c mod 1024) p) s1 = s2"
    "rsect (fblk (img s1) (di_addrs din') (length c div 1024)) s1 = Ok (img s1 (fblk (img s1) (di_addrs din') (length c div 1024))) s1"
    "holds (img s2) (di_addrs din') (length c div 1024 + 1) (c @ p)"
    "grows s1 (di_addrs din') (length c div 1024 + 1) s2 (di_addrs din') (length c div 1024 + 1)" by auto
  with b grows_trans [OF g] n show ?thesis by metis
qed

lemma off_parts:
  assumes "L \<le> 274432"
  shows "unat (word_of_nat L div 1024 :: u32) = L div 1024" "unat (word_of_nat L - word_of_nat L div 1024 * 1024 :: u32) = L mod 1024"
    "unat ((word_of_nat L div 1024 + 1) * 1024 - word_of_nat L :: u32) = 1024 - L mod 1024"
proof -
  have u: "unat (word_of_nat L :: u32) = L" using assms by (simp add: unat_of_nat take_bit_nat_eq_self)
  show "unat (word_of_nat L div 1024 :: u32) = L div 1024" by (simp add: unat_div u)
  show "unat ((word_of_nat L div 1024 + 1) * 1024 - word_of_nat L :: u32) = 1024 - L mod 1024" by (simp only: room u)
  have "(word_of_nat L :: u32) - word_of_nat L div 1024 * 1024 = word_of_nat L mod 1024" by (rule minus_div_mult_eq_mod)
  then show "unat (word_of_nat L - word_of_nat L div 1024 * 1024 :: u32) = L mod 1024" by (simp only: unat_mod u) simp
qed

lemma iappend_loop_ok:
  assumes "clean s" "holds (img s) (di_addrs din) (nb (length c)) c" "length c + length p \<le> 274432"
    "set (owned (img s) (di_addrs din) (nb (length c))) \<subseteq> {46..<freeblock s}"
    "unat (freeblock s) + need (nb (length (c @ p))) \<le> 2000 + need (nb (length c))"
  shows "\<exists>din' s'. iappend_loop din p (word_of_nat (length c)) s = Ok (din', word_of_nat (length (c @ p))) s' \<and>
    din' = din\<lparr>di_addrs := di_addrs din'\<rparr> \<and> holds (img s') (di_addrs din') (nb (length (c @ p))) (c @ p) \<and>
    grows s (di_addrs din) (nb (length c)) s' (di_addrs din') (nb (length (c @ p)))"
  using assms
proof (induction "length p" arbitrary: p c din s rule: less_induct)
  case less
  show ?case
  proof (cases "p = []")
    case True
    then show ?thesis using less.prems grows_refl by (subst iappend_loop.simps) auto
  next
    case False
    define n1 where "n1 = min (length p) (1024 - length c mod 1024)"
    let ?p = "take n1 p" and ?q = "drop n1 p"
    have k: "0 < length ?p" "length ?p \<le> 1024 - length c mod 1024" "length ?p = n1" "n1 \<le> length p"
      using False by (auto simp: n1_def)
    have cat: "(c @ ?p) @ ?q = c @ p" by simp
    have mono: "need (nb (length (c @ ?p))) \<le> need (nb (length (c @ p)))" by (rule need_nb_mono) (simp add: k)
    from append_chunk [OF less.prems(1,2) _ k(1,2) less.prems(4)] less.prems(3,5) mono k(4)
    obtain x din1 s1 s2 where b: "mkfs_bmap (length c div 1024) din s = Ok (x, din1) s1" "rsect x s1 = Ok (img s1 x) s1"
      "wsect x (write_bytes (img s1 x) (length c mod 1024) ?p) s1 = s2" "din1 = din\<lparr>di_addrs := di_addrs din1\<rparr>"
      and h: "holds (img s2) (di_addrs din1) (nb (length (c @ ?p))) (c @ ?p)"
      and g: "grows s (di_addrs din) (nb (length c)) s2 (di_addrs din1) (nb (length (c @ ?p)))"
      by (auto simp del: append_take_drop_id length_append)
    have step: "iappend_loop din p (word_of_nat (length c)) s = iappend_loop din1 ?q (word_of_nat (length (c @ ?p))) s2"
    proof -
      have "length c < 268 * 1024" using less.prems(3) False by (cases p) simp_all
      then have f: "length c div 1024 < 268" by (simp add: less_mult_imp_div_less)
      have L: "length c \<le> 274432" using less.prems(3) by simp
      show ?thesis
        by (subst iappend_loop.simps)
          (use False f b k in \<open>simp add: off_parts [OF L] Let_def n1_def del: distrib_right_numeral\<close>)
    qed
    have "length ?q < length p" using k by simp
    moreover have "length (c @ ?p) + length ?q \<le> 274432" using less.prems(3) k by simp
    moreover have "unat (freeblock s2) + need (nb (length ((c @ ?p) @ ?q))) \<le> 2000 + need (nb (length (c @ ?p)))"
      unfolding cat using growsD(4) [OF g] less.prems(5) by linarith
    ultimately have "\<exists>din' s'. iappend_loop din1 ?q (word_of_nat (length (c @ ?p))) s2 =
        Ok (din', word_of_nat (length ((c @ ?p) @ ?q))) s' \<and> din' = din1\<lparr>di_addrs := di_addrs din'\<rparr> \<and>
        holds (img s') (di_addrs din') (nb (length ((c @ ?p) @ ?q))) ((c @ ?p) @ ?q) \<and>
        grows s2 (di_addrs din1) (nb (length (c @ ?p))) s' (di_addrs din') (nb (length ((c @ ?p) @ ?q)))"
      by (rule less.hyps [OF _ growsD(1) [OF g] h _ grows_own [OF g less.prems(4,1)]])
    then obtain din2 s3 where r: "iappend_loop din1 ?q (word_of_nat (length (c @ ?p))) s2 = Ok (din2, word_of_nat (length (c @ p))) s3"
      "din2 = din1\<lparr>di_addrs := di_addrs din2\<rparr>" "holds (img s3) (di_addrs din2) (nb (length (c @ p))) (c @ p)"
      "grows s2 (di_addrs din1) (nb (length (c @ ?p))) s3 (di_addrs din2) (nb (length (c @ p)))"
      unfolding cat by auto
    have "din2 = din\<lparr>di_addrs := di_addrs din2\<rparr>" using b(4) r(2) by (cases din) (metis dinode.surjective dinode.update_convs(6))
    with step r grows_trans [OF g] show ?thesis by auto
  qed
qed

section \<open>The whole image\<close>

definition dino :: "(u32 \<Rightarrow> bytes) \<Rightarrow> nat \<Rightarrow> dinode" where
  "dino im k = get_dinode (im (word_of_nat (32 + k div 16))) (k mod 16)"

definition blocks_of :: "(u32 \<Rightarrow> bytes) \<Rightarrow> nat \<Rightarrow> u8 list \<Rightarrow> u32 set" where
  "blocks_of im k c = set (owned im (di_addrs (dino im k)) (nb (length c)))"

definition blocks_used :: "(u16 \<times> u8 list) list \<Rightarrow> nat" where
  "blocks_used fs = 46 + (\<Sum>(ty, c)\<leftarrow>fs. need (nb (length c)))"

definition file_at :: "(u32 \<Rightarrow> bytes) \<Rightarrow> u32 \<Rightarrow> u16 \<Rightarrow> u8 list \<Rightarrow> dinode \<Rightarrow> bool" where
  "file_at im fb ty c d \<longleftrightarrow> di_type d = ty \<and> di_nlink d = 1 \<and> di_size d = word_of_nat (length c) \<and>
     holds im (di_addrs d) (nb (length c)) c \<and> set (owned im (di_addrs d) (nb (length c))) \<subseteq> {46..<fb}"

definition is_image :: "(u32 \<Rightarrow> bytes) \<Rightarrow> mkfs_state \<Rightarrow> (u16 \<times> u8 list) list \<Rightarrow> bool" where
  "is_image low s fs \<longleftrightarrow> clean s \<and> length fs \<le> 206 \<and> freeinode s = word_of_nat (length fs + 1) \<and>
     unat (freeblock s) = blocks_used fs \<and> (\<forall>b<32. img s b = low b) \<and>
     (\<forall>i<length fs. file_at (img s) (freeblock s) (fst (fs ! i)) (snd (fs ! i)) (dino (img s) (i + 1))) \<and>
     (\<forall>i<length fs. \<forall>j<length fs. i \<noteq> j \<longrightarrow>
        blocks_of (img s) (i + 1) (snd (fs ! i)) \<inter> blocks_of (img s) (j + 1) (snd (fs ! j)) = {})"

lemma iblock:
  assumes "k < 208"
  shows "IBLOCK (word_of_nat k) mkfs_sb = word_of_nat (32 + k div 16)" "unat (word_of_nat k :: u32) mod 16 = k mod 16"
    "unat (word_of_nat (32 + k div 16) :: u32) = 32 + k div 16" "32 + k div 16 < 46"
proof -
  have u: "unat (word_of_nat k :: u32) = k" using assms by (simp add: unat_of_nat take_bit_nat_eq_self)
  show k: "32 + k div 16 < 46" using assms by (simp add: less_mult_imp_div_less)
  then show "unat (word_of_nat (32 + k div 16) :: u32) = 32 + k div 16" by (subst unat_of_nat) (simp add: take_bit_nat_eq_self)
  show "unat (word_of_nat k :: u32) mod 16 = k mod 16" by (simp add: u)
  have "word_of_nat k div 16 = (word_of_nat (k div 16) :: u32)"
    by (rule word_unat_eq_iff [THEN iffD2]) (use assms k in \<open>simp add: unat_div u unat_of_nat take_bit_nat_eq_self\<close>)
  then show "IBLOCK (word_of_nat k) mkfs_sb = word_of_nat (32 + k div 16)"
    by (simp add: IBLOCK_def mkfs_sb_def)
qed

lemma rinode_ok: "clean s \<Longrightarrow> k < 208 \<Longrightarrow> rinode (word_of_nat k) s = Ok (dino (img s) k) s"
  using iblock [of k] by (simp add: rinode_def rsect_in clean_def dino_def)

lemma winode_ok:
  "clean s \<Longrightarrow> k < 208 \<Longrightarrow> winode (word_of_nat k) d s =
     Ok () (s\<lparr>img := (img s)(word_of_nat (32 + k div 16) := put_dinode d (k mod 16) (img s (word_of_nat (32 + k div 16))))\<rparr>)"
  using iblock [of k] by (simp add: winode_def rsect_in wsect_in clean_def Let_def)

text \<open>Writing one inode of the table.\<close>

definition put_ino :: "nat \<Rightarrow> dinode \<Rightarrow> (u32 \<Rightarrow> bytes) \<Rightarrow> u32 \<Rightarrow> bytes" where
  "put_ino k d im = im(word_of_nat (32 + k div 16) := put_dinode d (k mod 16) (im (word_of_nat (32 + k div 16))))"

lemma dino_put_same: "dino (put_ino k d im) k = d\<lparr>di_addrs := (\<lambda>i. if i < 13 then di_addrs d i else 0)\<rparr>"
  by (simp add: dino_def put_ino_def get_put_dinode)

lemma dino_put_other:
  assumes "j \<noteq> k" "j < 208" "k < 208"
  shows "dino (put_ino k d im) j = dino im j"
proof (cases "j div 16 = k div 16")
  case True
  with assms(1) have "j mod 16 \<noteq> k mod 16" by (metis div_mult_mod_eq)
  with True show ?thesis by (simp add: dino_def put_ino_def get_put_dinode_other)
next
  case False
  then have "(word_of_nat (32 + j div 16) :: u32) \<noteq> word_of_nat (32 + k div 16)"
    using iblock(3) [OF assms(2)] iblock(3) [OF assms(3)] by (metis add_left_cancel)
  then show ?thesis by (simp add: dino_def put_ino_def)
qed

lemma put_ino_data: "k < 208 \<Longrightarrow> 46 \<le> b \<or> b < 32 \<Longrightarrow> put_ino k d im b = im b"
  using iblock(3,4) [of k] by (auto simp: put_ino_def word_le_nat_alt word_less_nat_alt)

lemma fblk_addrs: "fblk im (\<lambda>i. if i < 13 then a i else 0) = fblk im a"
  by (auto simp: fblk_def fun_eq_iff)

lemma file_at_addrs:
  "owned im (\<lambda>i. if i < 13 then a i else 0) = owned im a"
  "holds im (\<lambda>i. if i < 13 then a i else 0) = holds im a"
  by (auto simp: owned_def holds_def fblk_addrs fun_eq_iff)

lemma file_at_frame:
  assumes "file_at im fb ty c d" "\<And>b. b \<in> set (owned im (di_addrs d) (nb (length c))) \<Longrightarrow> im' b = im b" "fb \<le> fb'"
  shows "file_at im' fb' ty c d" "owned im' (di_addrs d) (nb (length c)) = owned im (di_addrs d) (nb (length c))"
proof -
  show o: "owned im' (di_addrs d) (nb (length c)) = owned im (di_addrs d) (nb (length c))" by (rule owned_frame [OF assms(2)])
  have "holds im' (di_addrs d) (nb (length c)) c" by (rule holds_frame [OF _ assms(2)]) (use assms(1) in \<open>simp add: file_at_def\<close>)
  moreover have "{46..<fb} \<subseteq> {46..<fb'}" using assms(3) by auto
  with assms(1) have "set (owned im (di_addrs d) (nb (length c))) \<subseteq> {46..<fb'}"
    unfolding file_at_def by (meson subset_trans)
  ultimately show "file_at im' fb' ty c d" using assms(1) o by (simp add: file_at_def)
qed

lemma dino_low: "k < 208 \<Longrightarrow> (\<And>b. b < 46 \<Longrightarrow> im' b = im b) \<Longrightarrow> dino im' k = dino im k"
  using iblock(3,4) [of k] by (simp add: dino_def word_less_nat_alt)

lemma blocks_used_update: "i < length fs \<Longrightarrow> fs ! i = (ty, c) \<Longrightarrow>
    blocks_used (fs[i := (ty, c')]) + need (nb (length c)) = blocks_used fs + need (nb (length c'))"
proof (induction fs arbitrary: i)
  case (Cons x fs)
  then show ?case by (cases i) (auto simp: blocks_used_def)
qed simp

lemma imageD:
  assumes "is_image low s fs"
  shows "clean s" "i < length fs \<Longrightarrow> file_at (img s) (freeblock s) (fst (fs ! i)) (snd (fs ! i)) (dino (img s) (i + 1))"
    "i < length fs \<Longrightarrow> j < length fs \<Longrightarrow> i \<noteq> j \<Longrightarrow>
       blocks_of (img s) (i + 1) (snd (fs ! i)) \<inter> blocks_of (img s) (j + 1) (snd (fs ! j)) = {}"
    "unat (freeblock s) = blocks_used fs" "length fs \<le> 206"
  using assms unfolding is_image_def by simp_all

lemma blocks_of_range: "is_image low s fs \<Longrightarrow> i < length fs \<Longrightarrow> blocks_of (img s) (i + 1) (snd (fs ! i)) \<subseteq> {46..<freeblock s}"
  using imageD(2) [of low s fs i] by (simp add: file_at_def blocks_of_def)

text \<open>One file changes; the others keep their inodes and their blocks.\<close>

lemma image_update:
  assumes im: "is_image low s fs" and i: "i < length fs"
    and s': "clean s'" "freeinode s' = freeinode s" "unat (freeblock s') = blocks_used (fs[i := (ty, c')])"
      "\<And>b. b < 32 \<Longrightarrow> img s' b = low b"
    and self: "file_at (img s') (freeblock s') ty c' (dino (img s') (i + 1))"
    and other: "\<And>j. j < length fs \<Longrightarrow> j \<noteq> i \<Longrightarrow>
        file_at (img s') (freeblock s') (fst (fs ! j)) (snd (fs ! j)) (dino (img s') (j + 1)) \<and>
        blocks_of (img s') (j + 1) (snd (fs ! j)) = blocks_of (img s) (j + 1) (snd (fs ! j)) \<and>
        blocks_of (img s) (j + 1) (snd (fs ! j)) \<inter> blocks_of (img s') (i + 1) c' = {}"
  shows "is_image low s' (fs[i := (ty, c')])" (is "is_image low s' ?fs")
proof -
  have "file_at (img s') (freeblock s') (fst (?fs ! j)) (snd (?fs ! j)) (dino (img s') (j + 1))" if "j < length fs" for j
    using that self other [of j] i by (cases "j = i") simp_all
  moreover have "blocks_of (img s') (j + 1) (snd (?fs ! j)) \<inter> blocks_of (img s') (k + 1) (snd (?fs ! k)) = {}"
    if jk: "j < length fs" "k < length fs" "j \<noteq> k" for j k
  proof -
    consider "j = i" "k \<noteq> i" | "k = i" "j \<noteq> i" | "j \<noteq> i" "k \<noteq> i" using jk(3) by auto
    then show ?thesis
    proof cases
      case 1
      then show ?thesis using other [of k] jk by (simp add: Int_commute)
    next
      case 2
      then show ?thesis using other [of j] jk by simp
    next
      case 3
      then show ?thesis using other [of j] other [of k] imageD(3) [OF im jk] jk by simp
    qed
  qed
  ultimately show ?thesis using im s' by (simp add: is_image_def)
qed

lemma file_keeps:
  assumes im: "is_image low s fs" and j: "j < length fs" and d: "dino im' (j + 1) = dino (img s) (j + 1)" and fb: "freeblock s \<le> fb'"
    and fr: "\<And>b. b \<in> blocks_of (img s) (j + 1) (snd (fs ! j)) \<Longrightarrow> im' b = img s b"
  shows "file_at im' fb' (fst (fs ! j)) (snd (fs ! j)) (dino im' (j + 1))"
    "blocks_of im' (j + 1) (snd (fs ! j)) = blocks_of (img s) (j + 1) (snd (fs ! j))"
  using file_at_frame [OF imageD(2) [OF im j] _ fb, of im'] fr d by (simp_all add: blocks_of_def)

lemma image_grow:
  assumes im: "is_image low s fs" and i: "i < length fs" "fs ! i = (ty, c)" and d: "d = dino (img s) (i + 1)"
    and g: "grows s (di_addrs d) (nb (length c)) s1 a' (nb (length c'))" and h: "holds (img s1) a' (nb (length c')) c'"
  shows "is_image low (s1\<lparr>img := put_ino (i + 1) (d\<lparr>di_addrs := a', di_size := word_of_nat (length c')\<rparr>) (img s1)\<rparr>)
    (fs[i := (ty, c')])" (is "is_image low ?s ?fs")
proof (rule image_update [OF im i(1)])
  let ?own = "set (owned (img s1) a' (nb (length c')))"
  have fi: "file_at (img s) (freeblock s) ty c d" and c: "clean s" and l: "length fs \<le> 206" using im i d by (auto simp: is_image_def)
  have own': "?own \<subseteq> {46..<freeblock s1}"
    by (rule grows_own [OF g _ c]) (use fi in \<open>simp add: file_at_def\<close>)
  have low: "img s1 b = img s b" if "b < 46" for b
    by (rule growsD(7) [OF g]) (use subsetD [OF own', of b] that in auto)
  have data: "img ?s b = img s1 b" if "46 \<le> b \<or> b < 32" for b
    using that i l by (simp add: put_ino_data)
  show "clean ?s" using growsD(1) [OF g] data by (auto simp: clean_def word_le_nat_alt)
  show "freeinode ?s = freeinode s" using growsD(2) [OF g] by simp
  show "unat (freeblock ?s) = blocks_used ?fs"
    using im blocks_used_update [OF i, of c'] growsD(4) [OF g] by (simp add: is_image_def)
  show "img ?s b = low b" if "b < 32" for b
    using that im data [of b] low [of b] by (simp add: is_image_def word_less_nat_alt)
  have self: "file_at (img s1) (freeblock s1) ty c' (dino (img ?s) (i + 1))"
    "di_addrs (dino (img ?s) (i + 1)) = (\<lambda>i. if i < 13 then a' i else 0)"
    using fi h own' by (auto simp: file_at_def dino_put_same file_at_addrs)
  have fr: "img ?s b = img s1 b" if "b \<in> set (owned (img s1) (di_addrs (dino (img ?s) (i + 1))) (nb (length c')))" for b
    by (rule data) (use that subsetD [OF own', of b] self(2) in \<open>auto simp: file_at_addrs\<close>)
  show "file_at (img ?s) (freeblock ?s) ty c' (dino (img ?s) (i + 1))"
    using file_at_frame(1) [OF self(1) fr order_refl] by simp
  have oi: "blocks_of (img ?s) (i + 1) c' = ?own"
    using file_at_frame(2) [OF self(1) fr order_refl] self(2) by (simp add: blocks_of_def file_at_addrs)
  fix j assume j: "j < length fs" "j \<noteq> i"
  let ?bj = "blocks_of (img s) (j + 1) (snd (fs ! j))"
  have r: "?bj \<subseteq> {46..<freeblock s}" by (rule blocks_of_range [OF im j(1)])
  have "?bj \<inter> set (owned (img s) (di_addrs d) (nb (length c))) = {}"
    using imageD(3) [OF im j(1) i(1) j(2)] i d by (simp add: blocks_of_def)
  moreover have "?bj \<inter> {freeblock s..<freeblock s1} = {}" using r by (fastforce dest: subsetD)
  ultimately have disj: "?bj \<inter> ?own = {}" using growsD(6) [OF g] by blast
  have "img ?s b = img s b" if b: "b \<in> ?bj" for b
  proof -
    have "46 \<le> b" using subsetD [OF r b] by simp
    moreover have "b \<notin> ?own" using disj b by (meson disjoint_iff)
    ultimately show ?thesis using data [of b] growsD(7) [OF g, of b] by simp
  qed
  moreover have "dino (img ?s) (j + 1) = dino (img s) (j + 1)"
    using j i l dino_put_other [of "j + 1" "i + 1"] dino_low [of "j + 1" "img s1" "img s"] low by simp
  ultimately show "file_at (img ?s) (freeblock ?s) (fst (fs ! j)) (snd (fs ! j)) (dino (img ?s) (j + 1)) \<and>
      blocks_of (img ?s) (j + 1) (snd (fs ! j)) = ?bj \<and> ?bj \<inter> blocks_of (img ?s) (i + 1) c' = {}"
    using file_keeps [OF im j(1), of "img ?s" "freeblock ?s"] growsD(3) [OF g] disj oi by simp
qed

lemma iappend_ok:
  assumes im: "is_image low s fs" and i: "i < length fs" "fs ! i = (ty, c)" and l: "length c + length p \<le> 274432"
    and room: "blocks_used (fs[i := (ty, c @ p)]) \<le> 2000"
  shows "\<exists>s'. iappend (word_of_nat (i + 1)) p s = Ok () s' \<and> is_image low s' (fs[i := (ty, c @ p)])"
proof -
  let ?d = "dino (img s) (i + 1)"
  have k: "i + 1 < 208" using imageD(5) [OF im] i by simp
  have f: "file_at (img s) (freeblock s) ty c ?d" using imageD(2) [OF im i(1)] i by simp
  have r: "unat (freeblock s) + need (nb (length (c @ p))) \<le> 2000 + need (nb (length c))"
    using room imageD(4) [OF im] blocks_used_update [OF i, of "c @ p"] by linarith
  obtain din' s1 where lp: "iappend_loop ?d p (word_of_nat (length c)) s = Ok (din', word_of_nat (length (c @ p))) s1"
    and d: "din' = ?d\<lparr>di_addrs := di_addrs din'\<rparr>" and h: "holds (img s1) (di_addrs din') (nb (length (c @ p))) (c @ p)"
    and g: "grows s (di_addrs ?d) (nb (length c)) s1 (di_addrs din') (nb (length (c @ p)))"
    using iappend_loop_ok [OF imageD(1) [OF im] _ l _ r, of ?d] f by (auto simp: file_at_def simp del: length_append)
  have e: "din'\<lparr>di_size := word_of_nat (length (c @ p))\<rparr> =
      ?d\<lparr>di_addrs := di_addrs din', di_size := word_of_nat (length (c @ p))\<rparr>" by (subst d) simp
  have "iappend (word_of_nat (i + 1)) p s = Ok () (s1\<lparr>img := put_ino (i + 1)
      (?d\<lparr>di_addrs := di_addrs din', di_size := word_of_nat (length (c @ p))\<rparr>) (img s1)\<rparr>)"
    using rinode_ok [OF imageD(1) [OF im] k] winode_ok [OF growsD(1) [OF g] k] lp f e
    by (simp add: iappend_def file_at_def put_ino_def del: of_nat_Suc of_nat_add length_append)
  with image_grow [OF im i refl g h] show ?thesis by blast
qed

lemma ialloc_ok:
  assumes im: "is_image low s fs" and l: "length fs < 206"
  shows "\<exists>s'. mkfs_ialloc ty s = Ok (word_of_nat (length fs + 1)) s' \<and> is_image low s' (fs @ [(ty, [])])"
proof -
  let ?d = "\<lparr>di_type = ty, di_major = 0, di_minor = 0, di_nlink = 1, di_size = 0, di_addrs = (\<lambda>_. 0 :: u32)\<rparr>" and ?k = "length fs + 1"
  let ?s = "s\<lparr>freeinode := word_of_nat (length fs + 2), img := put_ino ?k ?d (img s)\<rparr>"
  have c: "clean (s\<lparr>freeinode := x\<rparr>)" for x using imageD(1) [OF im] by (simp add: clean_def)
  have k: "?k < 208" using l by simp
  have fi: "freeinode s = word_of_nat ?k" using im by (simp add: is_image_def)
  have nx: "(word_of_nat ?k + 1 :: u32) = word_of_nat (length fs + 2)" by simp
  have run: "mkfs_ialloc ty s = Ok (word_of_nat ?k) ?s"
    unfolding mkfs_ialloc_def Let_def fi nx
    using winode_ok [OF c k] by (simp add: put_ino_def del: of_nat_Suc of_nat_add)
  have data: "img ?s b = img s b" if "46 \<le> b \<or> b < 32" for b using that k by (simp add: put_ino_data)
  have old: "file_at (img ?s) (freeblock s) (fst (fs ! j)) (snd (fs ! j)) (dino (img ?s) (j + 1))"
    "blocks_of (img ?s) (j + 1) (snd (fs ! j)) = blocks_of (img s) (j + 1) (snd (fs ! j))" if "j < length fs" for j
  proof -
    have d: "dino (img ?s) (j + 1) = dino (img s) (j + 1)" using that l dino_put_other [of "j + 1" ?k] by simp
    have fr: "img ?s b = img s b" if "b \<in> blocks_of (img s) (j + 1) (snd (fs ! j))" for b
      by (rule data) (use subsetD [OF blocks_of_range [OF im \<open>j < length fs\<close>] that] in simp)
    show "file_at (img ?s) (freeblock s) (fst (fs ! j)) (snd (fs ! j)) (dino (img ?s) (j + 1))"
      "blocks_of (img ?s) (j + 1) (snd (fs ! j)) = blocks_of (img s) (j + 1) (snd (fs ! j))"
      by (rule file_keeps [OF im that d order_refl fr], assumption)+
  qed
  have new: "file_at (img ?s) (freeblock s) ty [] (dino (img ?s) ?k)"
    by (simp add: file_at_def dino_put_same nb_def owned_def holds_def)
  have "clean ?s" using imageD(1) [OF im] data by (auto simp: clean_def word_le_nat_alt)
  moreover have "img ?s b = low b" if "b < 32" for b using that im data [of b] by (simp add: is_image_def)
  moreover have "file_at (img ?s) (freeblock s) (fst ((fs @ [(ty, [])]) ! j)) (snd ((fs @ [(ty, [])]) ! j)) (dino (img ?s) (j + 1))"
    if "j < length fs + 1" for j using that old(1) [of j] new by (cases "j < length fs") (simp_all add: nth_append less_Suc_eq)
  moreover have "blocks_of (img ?s) (i + 1) (snd ((fs @ [(ty, [])]) ! i)) \<inter> blocks_of (img ?s) (j + 1) (snd ((fs @ [(ty, [])]) ! j)) = {}"
    if "i < length fs + 1" "j < length fs + 1" "i \<noteq> j" for i j
  proof (cases "i < length fs \<and> j < length fs")
    case True
    then show ?thesis using old(2) imageD(3) [OF im _ _ that(3)] by (simp add: nth_append)
  next
    case False
    with that have "i = length fs \<or> j = length fs" by auto
    then show ?thesis by (auto simp: nb_def owned_def blocks_of_def)
  qed
  moreover have "blocks_used (fs @ [(ty, [])]) = blocks_used fs" by (simp add: blocks_used_def nb_def need_def)
  ultimately have "is_image low ?s (fs @ [(ty, [])])" using im l by (simp add: is_image_def)
  with run show ?thesis by blast
qed

lemma blocks_used_append_mono:
  assumes "i < length fs" "fs ! i = (ty, c)" "length c' \<le> length c''"
  shows "blocks_used (fs[i := (ty, c')]) \<le> blocks_used (fs[i := (ty, c'')])"
  using blocks_used_update [OF assms(1,2), of c'] blocks_used_update [OF assms(1,2), of c''] need_nb_mono [OF assms(3)]
  by linarith

lemma append_file_ok:
  assumes "is_image low s fs" "i < length fs" "fs ! i = (ty, c)" "length c + length cs \<le> 274432"
    "blocks_used (fs[i := (ty, c @ cs)]) \<le> 2000"
  shows "\<exists>s'. append_file (word_of_nat (i + 1)) cs s = Ok () s' \<and> is_image low s' (fs[i := (ty, c @ cs)])"
  using assms
proof (induction "length cs" arbitrary: cs c s fs rule: less_induct)
  case less
  show ?case
  proof (cases "cs = []")
    case True
    moreover have "fs[i := (ty, c)] = fs" using less.prems(3) by (metis list_update_id)
    ultimately show ?thesis using less.prems(1) by (subst append_file.simps) simp
  next
    case False
    let ?p = "take 1024 cs" and ?q = "drop 1024 cs" and ?fs = "fs[i := (ty, c @ take 1024 cs)]"
    have "blocks_used ?fs \<le> 2000"
      using blocks_used_append_mono [OF less.prems(2,3), of "c @ ?p" "c @ cs"] less.prems(5) by simp
    moreover have "length c + length ?p \<le> 274432" using less.prems(4) by simp
    ultimately obtain s1 where s1: "iappend (word_of_nat (i + 1)) ?p s = Ok () s1" "is_image low s1 ?fs"
      using iappend_ok [OF less.prems(1-3)] by blast
    have "length ?q < length cs" using False by simp
    moreover have "?fs ! i = (ty, c @ ?p)" "i < length ?fs" using less.prems(2) by simp_all
    moreover have "length (c @ ?p) + length ?q \<le> 274432" using less.prems(4) by simp
    moreover have "blocks_used (?fs[i := (ty, (c @ ?p) @ ?q)]) \<le> 2000" using less.prems(5) by simp
    ultimately obtain s' where "append_file (word_of_nat (i + 1)) ?q s1 = Ok () s'" "is_image low s' (?fs[i := (ty, (c @ ?p) @ ?q)])"
      using less.hyps s1(2) by meson
    with s1 False show ?thesis by (subst append_file.simps) (simp del: of_nat_Suc of_nat_add)
  qed
qed

section \<open>The files of the image\<close>

definition fname :: "u8 list \<Rightarrow> u8 list" where
  "fname arg = (let n = shortname arg in if nth0 n 0 = 95 then tl n else n)"

fun entries :: "nat \<Rightarrow> u8 list list \<Rightarrow> u8 list" where
  "entries k [] = []"
| "entries k (n # ns) = mkfs_dirent (word_of_nat k) n @ entries (Suc k) ns"

definition image_fits :: "(u16 \<times> u8 list) list \<Rightarrow> bool" where
  "image_fits fs \<longleftrightarrow> length fs \<le> 206 \<and> blocks_used fs \<le> 2000 \<and> (\<forall>x\<in>set fs. length (snd x) \<le> 274432)"

definition files_of :: "(u8 list \<Rightarrow> u8 list option) \<Rightarrow> u8 list list \<Rightarrow> (u16 \<times> u8 list) list" where
  "files_of host args = map (\<lambda>a. (T_FILE, the (host a))) args"

definition usable :: "(u8 list \<Rightarrow> u8 list option) \<Rightarrow> u8 list list \<Rightarrow> bool" where
  "usable host args \<longleftrightarrow> (\<forall>a\<in>set args. SLASH \<notin> set (shortname a) \<and> length (fname a) \<le> DIRSIZ \<and> host a \<noteq> None)"

lemma add_files_ok:
  assumes "is_image low s ((T_DIR, r) # g)" "usable host args"
    "image_fits ((T_DIR, r @ entries (length g + 2) (map fname args)) # g @ files_of host args)"
  shows "\<exists>s'. add_files host 1 args s = Ok () s' \<and>
    is_image low s' ((T_DIR, r @ entries (length g + 2) (map fname args)) # g @ files_of host args)"
  using assms
proof (induction args arbitrary: s r g)
  case Nil
  then show ?case by (simp add: files_of_def)
next
  case (Cons a args)
  obtain cs where cs: "host a = Some cs" using Cons.prems(2) by (auto simp: usable_def)
  let ?e = "mkfs_dirent (word_of_nat (length g + 2)) (fname a)"
  let ?fs = "(T_DIR, r) # g @ [(T_FILE, [])]"
  have fit: "length g + 2 + length args \<le> 206" "length (r @ ?e) \<le> 274432" "length cs \<le> 274432"
    "blocks_used ((T_DIR, r @ ?e) # g @ [(T_FILE, cs)]) \<le> 2000"
    using Cons.prems(3) cs need_nb_mono [of "length (r @ ?e)" "length (r @ entries (length g + 2) (map fname (a # args)))"]
    by (auto simp: image_fits_def files_of_def blocks_used_def)
  have "length ((T_DIR, r) # g) < 206" using fit(1) by simp
  from ialloc_ok [OF Cons.prems(1) this] obtain s1 where
    s1: "mkfs_ialloc T_FILE s = Ok (word_of_nat (length g + 2)) s1" "is_image low s1 ?fs" by auto
  have "blocks_used (?fs[0 := (T_DIR, r @ ?e)]) \<le> 2000" using fit(4) by (simp add: blocks_used_def nb_def need_def)
  with iappend_ok [OF s1(2), of 0 T_DIR r ?e] fit(2) obtain s2 where
    s2: "iappend 1 ?e s1 = Ok () s2" "is_image low s2 ((T_DIR, r @ ?e) # g @ [(T_FILE, [])])" by auto
  let ?i = "length g + 1"
  have "\<exists>s'. append_file (word_of_nat (?i + 1)) cs s2 = Ok () s' \<and>
      is_image low s' (((T_DIR, r @ ?e) # g @ [(T_FILE, [])])[?i := (T_FILE, [] @ cs)])"
    by (rule append_file_ok [OF s2(2)]) (use fit in \<open>simp_all add: list_update_append nth_append\<close>)
  then obtain s3 where s3: "append_file (word_of_nat (length g + 2)) cs s2 = Ok () s3"
    "is_image low s3 ((T_DIR, r @ ?e) # g @ [(T_FILE, cs)])" by (auto simp: list_update_append)
  from Cons.IH [OF s3(2)] Cons.prems(2,3) cs obtain s' where
    "add_files host 1 args s3 = Ok () s'"
    "is_image low s' ((T_DIR, r @ entries (length g + 2) (map fname (a # args))) # g @ files_of host (a # args))"
    by (auto simp: files_of_def usable_def)
  moreover have "add_files host 1 (a # args) s = add_files host 1 args s3"
    using s1(1) s2(1) s3(1) cs Cons.prems(2) by (simp add: usable_def fname_def [of a] Let_def)
  ultimately show ?case by simp
qed

section \<open>The finished image\<close>

lemma get_superblock_sb_bytes: "get_superblock (write_bytes m 0 (sb_bytes b)) = b"
  by (cases b) (simp add: get_superblock_def sb_bytes_def write_bytes_append store32_def [symmetric]
      load32_store32_disjoint del: le_bytes.simps)

lemma mkfs_bits: "bit (mkfs_bits n (\<lambda>_. 0) (b div 8)) (b mod 8) \<longleftrightarrow> b < n"
proof (induction n)
  case (Suc n)
  have "bit (push_bit (n mod 8) 1 :: u8) (b mod 8) \<longleftrightarrow> b mod 8 = n mod 8" by (auto simp: bit_simps)
  moreover have "b = n \<longleftrightarrow> b div 8 = n div 8 \<and> b mod 8 = n mod 8" by (metis div_mult_mod_eq)
  ultimately show ?case using Suc.IH by (auto simp: Let_def bit_or_iff less_Suc_eq simp del: push_bit_of_1)
qed simp

lemma zero_sectors:
  "n \<le> 2000 \<Longrightarrow> img s = (\<lambda>_ _. 0) \<Longrightarrow> nsect s = 0 \<Longrightarrow> zero_sectors n s = s\<lparr>nsect := n\<rparr>"
proof (induction n)
  case (Suc n)
  then have "unat (word_of_nat n :: u32) = n" by (simp add: unat_of_nat take_bit_nat_eq_self)
  with Suc show ?case by (simp add: wsect_def fun_upd_idem)
qed simp

definition boot_blocks :: "u32 \<Rightarrow> bytes" where
  "boot_blocks b = (if b = 1 then write_bytes (\<lambda>_. 0) 0 (sb_bytes mkfs_sb) else (\<lambda>_. 0))"

lemma is_image_start:
  "is_image boot_blocks (wsect 1 (write_bytes (\<lambda>_. 0) 0 (sb_bytes mkfs_sb))
     (zero_sectors 2000 (mkfs_init\<lparr>msb := mkfs_sb, freeblock := nmeta\<rparr>))) []"
  by (auto simp: zero_sectors mkfs_init_def wsect_in is_image_def clean_def boot_blocks_def blocks_used_def word_le_nat_alt)

definition stored :: "(u32 \<Rightarrow> bytes) \<Rightarrow> nat \<Rightarrow> u16 \<Rightarrow> nat \<Rightarrow> u8 list \<Rightarrow> bool" where
  "stored im k ty len c \<longleftrightarrow>
     (let d = dino im k in di_type d = ty \<and> di_nlink d = 1 \<and> di_size d = word_of_nat len \<and>
      (\<forall>i<1024 * nb (length c). im (fblk im (di_addrs d) (i div 1024)) (i mod 1024) = nth0 c i))"

definition file_size :: "u16 \<times> u8 list \<Rightarrow> nat" where
  "file_size f = (let n = length (snd f) in if fst f = T_DIR then (n div 1024 + 1) * 1024 else n)"

definition finished :: "(u32 \<Rightarrow> bytes) \<Rightarrow> (u16 \<times> u8 list) list \<Rightarrow> bool" where
  "finished im fs \<longleftrightarrow> get_superblock (im 1) = mkfs_sb \<and> (\<forall>b<32. b \<noteq> 1 \<longrightarrow> im b = (\<lambda>_. 0)) \<and>
     (\<forall>b<BPB. bit (im 45 (b div 8)) (b mod 8) \<longleftrightarrow> b < blocks_used fs) \<and>
     (\<forall>i<length fs. stored im (i + 1) (fst (fs ! i)) (file_size (fs ! i)) (snd (fs ! i)) \<and>
        (\<forall>b\<in>blocks_of im (i + 1) (snd (fs ! i)). 46 \<le> unat b \<and> unat b < blocks_used fs)) \<and>
     (\<forall>i<length fs. \<forall>j<length fs. i \<noteq> j \<longrightarrow> blocks_of im (i + 1) (snd (fs ! i)) \<inter> blocks_of im (j + 1) (snd (fs ! j)) = {})"

lemma stored_of:
  assumes f: "file_at im fb ty c d" and d: "d' = dino im' k" "di_addrs d' = di_addrs d" "di_type d' = ty" "di_nlink d' = 1"
    "di_size d' = word_of_nat len" and fr: "\<And>b. 46 \<le> b \<Longrightarrow> im' b = im b"
  shows "stored im' k ty len c" "blocks_of im' k c = set (owned im (di_addrs d) (nb (length c)))"
    "b \<in> blocks_of im' k c \<Longrightarrow> 46 \<le> b \<and> b < fb"
proof -
  have own: "set (owned im (di_addrs d) (nb (length c))) \<subseteq> {46..<fb}" using f by (simp add: file_at_def)
  have fr': "im' b = im b" if "b \<in> set (owned im (di_addrs d) (nb (length c)))" for b
    by (rule fr) (use subsetD [OF own that] in simp)
  have "holds im' (di_addrs d) (nb (length c)) c" by (rule holds_frame [OF _ fr']) (use f in \<open>simp add: file_at_def\<close>)
  with d show "stored im' k ty len c" by (simp add: stored_def holds_def Let_def)
  show b: "blocks_of im' k c = set (owned im (di_addrs d) (nb (length c)))"
    using owned_frame [OF fr'] d by (simp add: blocks_of_def)
  show "b \<in> blocks_of im' k c \<Longrightarrow> 46 \<le> b \<and> b < fb" unfolding b using own by auto
qed

lemma root_size:
  "L \<le> 274432 \<Longrightarrow> (word_of_nat L div 1024 + 1) * 1024 = (word_of_nat ((L div 1024 + 1) * 1024) :: u32)"
proof -
  assume L: "L \<le> 274432"
  then have "L div 1024 < 4294967296" by (simp add: less_mult_imp_div_less)
  with off_parts(1) [OF L] have "word_of_nat L div 1024 = (word_of_nat (L div 1024) :: u32)"
    by (intro word_unat_eq_iff [THEN iffD2]) (simp add: unat_of_nat take_bit_nat_eq_self)
  then show ?thesis by simp
qed

lemma dino_addrs: "(\<lambda>i. if i < 13 then di_addrs (dino im k) i else 0) = di_addrs (dino im k)"
  by (simp add: dino_def get_dinode_def fun_eq_iff)

lemma finished_of:
  assumes im: "is_image boot_blocks s fs" and low: "\<And>b. b < 32 \<Longrightarrow> im' b = boot_blocks b"
    and bm: "im' 45 = mkfs_bits (blocks_used fs) (\<lambda>_. 0)" and dat: "\<And>b. 46 \<le> b \<Longrightarrow> im' b = img s b"
    and d: "\<And>i. i < length fs \<Longrightarrow> di_addrs (dino im' (i + 1)) = di_addrs (dino (img s) (i + 1)) \<and>
      di_type (dino im' (i + 1)) = fst (fs ! i) \<and> di_nlink (dino im' (i + 1)) = 1 \<and>
      di_size (dino im' (i + 1)) = word_of_nat (file_size (fs ! i))"
  shows "finished im' fs"
  unfolding finished_def
proof (intro conjI allI impI ballI)
  have st: "stored im' (i + 1) (fst (fs ! i)) (file_size (fs ! i)) (snd (fs ! i))"
    "blocks_of im' (i + 1) (snd (fs ! i)) = blocks_of (img s) (i + 1) (snd (fs ! i))"
    "b \<in> blocks_of im' (i + 1) (snd (fs ! i)) \<Longrightarrow> 46 \<le> b \<and> b < freeblock s" if i: "i < length fs" for i b
    using stored_of [OF imageD(2) [OF im i] refl, of im' "i + 1", OF _ _ _ _ dat] d [OF i] unfolding blocks_of_def by blast+
  show "get_superblock (im' 1) = mkfs_sb" using low [of 1] by (simp add: boot_blocks_def get_superblock_sb_bytes)
  show "im' b = (\<lambda>_. 0)" if "b < 32" "b \<noteq> 1" for b using low [OF that(1)] that(2) by (simp add: boot_blocks_def)
  show "bit (im' 45 (b div 8)) (b mod 8) = (b < blocks_used fs)" for b by (simp add: bm mkfs_bits)
  show "46 \<le> unat b" "unat b < blocks_used fs" if "i < length fs" "b \<in> blocks_of im' (i + 1) (snd (fs ! i))" for i b
    using st(3) [OF that] imageD(4) [OF im] by (simp_all add: word_le_nat_alt word_less_nat_alt)
  show "blocks_of im' (i + 1) (snd (fs ! i)) \<inter> blocks_of im' (j + 1) (snd (fs ! j)) = {}"
    if "i < length fs" "j < length fs" "i \<noteq> j" for i j
    unfolding st(2) [OF that(1)] st(2) [OF that(2)] by (rule imageD(3) [OF im that])
  show "stored im' (i + 1) (fst (fs ! i)) (file_size (fs ! i)) (snd (fs ! i))" if "i < length fs" for i by (rule st(1) [OF that])
qed

lemma finish_ok:
  assumes im: "is_image boot_blocks s ((T_DIR, r) # g)" and g: "\<And>f. f \<in> set g \<Longrightarrow> fst f = T_FILE" and r: "length r \<le> 274432"
  shows "\<exists>s' s''. mkfs_fix_root 1 s = Ok () s' \<and> mkfs_balloc (freeblock s') s' = Ok () s'' \<and> finished (img s'') ((T_DIR, r) # g)"
proof -
  let ?fs = "(T_DIR, r) # g" and ?d = "dino (img s) 1"
  let ?d' = "?d\<lparr>di_size := word_of_nat (file_size (T_DIR, r))\<rparr>"
  let ?s = "s\<lparr>img := put_ino 1 ?d' (img s)\<rparr>"
  let ?im = "(put_ino 1 ?d' (img s))(45 := mkfs_bits (blocks_used ?fs) (\<lambda>_. 0))"
  have c: "clean s" and l: "length ?fs \<le> 206" and u: "unat (freeblock s) = blocks_used ?fs"
    using imageD(1,4,5) [OF im] by simp_all
  have f0: "file_at (img s) (freeblock s) T_DIR r ?d" using imageD(2) [OF im, of 0] by simp
  have len: "di_size ?d = word_of_nat (length r)" using f0 by (simp add: file_at_def)
  have "mkfs_fix_root 1 s = winode 1 (?d\<lparr>di_size := (di_size ?d div 1024 + 1) * 1024\<rparr>) s"
    using rinode_ok [OF c, of 1] by (simp add: mkfs_fix_root_def Let_def del: distrib_right_numeral)
  also have "\<dots> = winode 1 ?d' s" unfolding len root_size [OF r] file_size_def by (simp add: Let_def)
  also have "\<dots> = Ok () ?s" using winode_ok [OF c, of 1 ?d'] by (simp add: put_ino_def)
  finally have fix_root: "mkfs_fix_root 1 s = Ok () ?s" .
  have "unat (freeblock s) \<le> 2000" using c by (simp add: clean_def)
  then have balloc: "mkfs_balloc (freeblock ?s) ?s = Ok () (?s\<lparr>img := ?im\<rparr>)"
    using c u by (simp add: mkfs_balloc_def sint_small wsect_in clean_def mkfs_sb_def)
  have dat: "?im b = img s b" if "46 \<le> b" for b using that by (auto simp: put_ino_data)
  have low: "?im b = boot_blocks b" if "b < 32" for b using that im by (auto simp: put_ino_data is_image_def)
  have din: "dino ?im k = dino (put_ino 1 ?d' (img s)) k" if "k < 208" for k
  proof -
    have "k div 16 < 13" using that by (simp add: less_mult_imp_div_less)
    then have "unat (word_of_nat (32 + k div 16) :: u32) \<noteq> unat (45 :: u32)" unfolding iblock(3) [OF that] by simp
    then have "(word_of_nat (32 + k div 16) :: u32) \<noteq> 45" by metis
    then show ?thesis by (simp add: dino_def)
  qed
  have "di_addrs (dino ?im (i + 1)) = di_addrs (dino (img s) (i + 1)) \<and> di_type (dino ?im (i + 1)) = fst (?fs ! i) \<and>
      di_nlink (dino ?im (i + 1)) = 1 \<and> di_size (dino ?im (i + 1)) = word_of_nat (file_size (?fs ! i))" if i: "i < length ?fs" for i
  proof (cases "i = 0")
    case True
    then show ?thesis using f0 din [of 1] by (simp add: dino_put_same dino_addrs file_at_def cong: if_cong)
  next
    case False
    then have "fst (?fs ! i) = T_FILE" using i g by (auto simp: nth_Cons')
    moreover have k: "i + 1 < 208" using i l by simp
    ultimately show ?thesis using False din [OF k] imageD(2) [OF im i] dino_put_other [of "i + 1" 1 ?d' "img s"]
      by (simp add: file_at_def file_size_def)
  qed
  note d = this
  have "finished ?im ?fs"
    by (rule finished_of [OF im low _ dat d]) (assumption | rule fun_upd_same)+
  with fix_root balloc show ?thesis by auto
qed

definition root_dir :: "u8 list list \<Rightarrow> u8 list" where
  "root_dir args = mkfs_dirent 1 [46] @ mkfs_dirent 1 [46, 46] @ entries 2 (map fname args)"

lemma length_mkfs_dirent [simp]: "length (mkfs_dirent k n) = 16"
  by (simp add: mkfs_dirent_def put_dirent_def)

lemma length_entries [simp]: "length (entries k ns) = 16 * length ns"
  by (induction ns arbitrary: k) simp_all

lemma length_root_dir [simp]: "length (root_dir args) = 32 + 16 * length args"
  by (simp add: root_dir_def)

text \<open>
  C6: when the files exist, their names are short and free of slashes, and their blocks fit, \<open>mkfs\<close>
  ends normally and leaves an image in which the superblock reads back, the blocks of the boot area and
  the log are zero, inode 1 is the root directory with an entry for every file, the inodes after it
  hold the files, byte for byte, no block belongs to two files, and the bitmap marks exactly the blocks
  in use.
\<close>

theorem mkfs_writes_image:
  assumes "creat fsimg" "usable host args" "image_fits ((T_DIR, root_dir args) # files_of host args)"
  shows "\<exists>s. mkfs_main creat host (fsimg # args) = Ok () s \<and> finished (img s) ((T_DIR, root_dir args) # files_of host args)"
proof -
  obtain s1 where s1: "mkfs_ialloc T_DIR (wsect 1 (write_bytes (\<lambda>_. 0) 0 (sb_bytes mkfs_sb))
     (zero_sectors 2000 (mkfs_init\<lparr>msb := mkfs_sb, freeblock := nmeta\<rparr>))) = Ok 1 s1" "is_image boot_blocks s1 [(T_DIR, [])]"
    using ialloc_ok [OF is_image_start, of T_DIR] by auto
  let ?r = "mkfs_dirent 1 [46]" and ?q = "mkfs_dirent 1 [46, 46]"
  obtain s2 where s2: "iappend 1 ?r s1 = Ok () s2" "is_image boot_blocks s2 [(T_DIR, ?r)]"
    using iappend_ok [OF s1(2), of 0 T_DIR "[]" ?r] by (auto simp: blocks_used_def nb_def need_def)
  obtain s3 where s3: "iappend 1 ?q s2 = Ok () s3" "is_image boot_blocks s3 [(T_DIR, ?r @ ?q)]"
    using iappend_ok [OF s2(2), of 0 T_DIR ?r ?q] by (auto simp: blocks_used_def nb_def need_def)
  obtain s4 where s4: "add_files host 1 args s3 = Ok () s4"
    "is_image boot_blocks s4 ((T_DIR, root_dir args) # files_of host args)"
    using add_files_ok [OF s3(2) assms(2)] assms(3) by (auto simp: root_dir_def numeral_2_eq_2)
  have "length (root_dir args) \<le> 274432" using assms(3) by (simp add: image_fits_def)
  moreover have "fst f = T_FILE" if "f \<in> set (files_of host args)" for f using that by (auto simp: files_of_def)
  ultimately obtain s5 s6 where "mkfs_fix_root 1 s4 = Ok () s5" "mkfs_balloc (freeblock s5) s5 = Ok () s6"
    "finished (img s6) ((T_DIR, root_dir args) # files_of host args)"
    using finish_ok [OF s4(2)] by blast
  then show ?thesis using s1(1) s2(1) s3(1) s4(1) assms(1) 
    by (simp add: mkfs_main_def Let_def mkfs_init_def ROOTINO_def wsect_def zero_sectors)
qed

definition demo_file :: "u8 list" where "demo_file = replicate 13000 7"

definition demo_host :: "u8 list \<Rightarrow> u8 list option" where
  "demo_host a = (if a = str ''user/_cat'' then Some demo_file else if a = str ''README'' then Some (str ''xv6'') else None)"

lemma demo_file: "length demo_file = 13000"
  unfolding demo_file_def by (rule length_replicate)

lemma demo_usable: "usable demo_host [str ''README'', str ''user/_cat'']"
proof -
  have "shortname (str ''README'') = str ''README''" "shortname (str ''user/_cat'') = str ''_cat''" by code_simp+
  then show ?thesis by (simp add: usable_def demo_host_def fname_def str_def)
qed

theorem mkfs_writes_image_witness:
  "\<exists>s. mkfs_main (\<lambda>_. True) demo_host [str ''fs.img'', str ''README'', str ''user/_cat''] = Ok () s \<and>
     finished (img s) ((T_DIR, root_dir [str ''README'', str ''user/_cat'']) # files_of demo_host [str ''README'', str ''user/_cat''])"
proof (rule mkfs_writes_image [OF _ demo_usable])
  show "image_fits ((T_DIR, root_dir [str ''README'', str ''user/_cat'']) # files_of demo_host [str ''README'', str ''user/_cat''])"
    by (simp add: image_fits_def blocks_used_def files_of_def demo_host_def demo_file
        str_def nb_def need_def)
qed simp

end
