(* ===== verification/Umalloc.thy ===== *)
theory Umalloc
  imports Ulib
begin

text \<open>
  The memory allocator of user programs (user/umalloc.c): a circular list of free blocks in address
  order, each with a header of 16 bytes.  The memory is the bytes of the process; the static header
  \<open>base\<close> is at an address that is a parameter, and so is the system call \<open>sbrk\<close>.  A walk of a list that is
  not circular may not end; not returning is \<open>None\<close>.
\<close>

section \<open>Headers\<close>

record uheap =
  ubytes :: bytes
  freep :: u64

definition hptr :: "bytes \<Rightarrow> u64 \<Rightarrow> u64" where
  "hptr m p = load64 m (unat p)"

definition hsize :: "bytes \<Rightarrow> u64 \<Rightarrow> u32" where
  "hsize m p = load32 m (unat p + 8)"

definition set_hptr :: "u64 \<Rightarrow> u64 \<Rightarrow> bytes \<Rightarrow> bytes" where
  "set_hptr p q m = store64 m (unat p) q"

definition set_hsize :: "u64 \<Rightarrow> u32 \<Rightarrow> bytes \<Rightarrow> bytes" where
  "set_hsize p n m = store32 m (unat p + 8) n"

definition hadd :: "u64 \<Rightarrow> u32 \<Rightarrow> u64" where
  "hadd p n = p + 16 * ucast n"

section \<open>free, morecore, malloc\<close>

partial_function (option) free_find :: "bytes \<Rightarrow> u64 \<Rightarrow> u64 \<Rightarrow> u64 option" where
  "free_find m bp p =
     (if bp > p \<and> bp < hptr m p then Some p
      else if p \<ge> hptr m p \<and> (bp > p \<or> bp < hptr m p) then Some p
      else free_find m bp (hptr m p))"

declare free_find.simps [code]

definition free_next :: "u64 \<Rightarrow> u64 \<Rightarrow> bytes \<Rightarrow> bytes" where
  "free_next bp p m =
     (if hadd bp (hsize m bp) = hptr m p then
        let m = set_hsize bp (hsize m bp + hsize m (hptr m p)) m in set_hptr bp (hptr m (hptr m p)) m
      else set_hptr bp (hptr m p) m)"

definition free_prev :: "u64 \<Rightarrow> u64 \<Rightarrow> bytes \<Rightarrow> bytes" where
  "free_prev bp p m =
     (if hadd p (hsize m p) = bp then
        let m = set_hsize p (hsize m p + hsize m bp) m in set_hptr p (hptr m bp) m
      else set_hptr p bp m)"

definition ufree :: "u64 \<Rightarrow> uheap \<Rightarrow> uheap option" where
  "ufree ap h =
     (let bp = ap - 16 in
      case free_find (ubytes h) bp (freep h) of None \<Rightarrow> None
      | Some p \<Rightarrow> Some (h\<lparr>ubytes := free_prev bp p (free_next bp p (ubytes h)), freep := p\<rparr>))"

text \<open>The product of \<open>morecore\<close> has 64 bits and the argument of \<open>sbrk\<close> is an \<open>int\<close>.\<close>

definition morecore :: "(int \<Rightarrow> 'w \<Rightarrow> u64 \<times> 'w) \<Rightarrow> u32 \<Rightarrow> uheap \<Rightarrow> 'w \<Rightarrow> (u64 \<times> uheap \<times> 'w) option" where
  "morecore sbrk nu h w =
     (let nu = (if nu < 4096 then 4096 else nu);
          (p, w) = sbrk (sint (ucast (ucast nu * 16 :: u64) :: u32)) w
      in if p = - 1 then Some (0, h, w)
      else case ufree (p + 16) (h\<lparr>ubytes := set_hsize p nu (ubytes h)\<rparr>) of None \<Rightarrow> None
      | Some h \<Rightarrow> Some (freep h, h, w))"

partial_function (option) malloc_loop ::
    "(int \<Rightarrow> 'w \<Rightarrow> u64 \<times> 'w) \<Rightarrow> u32 \<Rightarrow> u64 \<Rightarrow> u64 \<Rightarrow> uheap \<Rightarrow> 'w \<Rightarrow> (u64 \<times> uheap \<times> 'w) option" where
  "malloc_loop sbrk nunits prevp p h w =
     (if hsize (ubytes h) p \<ge> nunits then
        if hsize (ubytes h) p = nunits then
          Some (p + 16, h\<lparr>ubytes := set_hptr prevp (hptr (ubytes h) p) (ubytes h), freep := prevp\<rparr>, w)
        else
          let m = set_hsize p (hsize (ubytes h) p - nunits) (ubytes h); p = hadd p (hsize m p); m = set_hsize p nunits m
          in Some (p + 16, h\<lparr>ubytes := m, freep := prevp\<rparr>, w)
      else if p = freep h then
        case morecore sbrk nunits h w of None \<Rightarrow> None
        | Some (p, h, w) \<Rightarrow>
            if p = 0 then Some (0, h, w) else malloc_loop sbrk nunits p (hptr (ubytes h) p) h w
      else malloc_loop sbrk nunits p (hptr (ubytes h) p) h w)"

declare malloc_loop.simps [code]

definition malloc :: "u64 \<Rightarrow> (int \<Rightarrow> 'w \<Rightarrow> u64 \<times> 'w) \<Rightarrow> u32 \<Rightarrow> uheap \<Rightarrow> 'w \<Rightarrow> (u64 \<times> uheap \<times> 'w) option" where
  "malloc bas sbrk nbytes h w =
     (let nunits = ucast ((ucast nbytes + 15) div 16 + 1 :: u64);
          h = (if freep h = 0
               then h\<lparr>ubytes := set_hsize bas 0 (set_hptr bas bas (ubytes h)), freep := bas\<rparr> else h)
      in malloc_loop sbrk nunits (freep h) (hptr (ubytes h) (freep h)) h w)"

end
