(* ===== verification/Umalloc_Heap.thy ===== *)
theory Umalloc_Heap
  imports Umalloc
begin

text \<open>
  Correctness of the allocator of user programs.  \<open>chain\<close> relates a list of addresses to the links in
  memory, \<open>spaced\<close> says that the blocks follow one another without overlap, \<open>cover\<close> is the set of their
  bytes.  \<open>heap_ok\<close> is the invariant of the circular list; \<open>free\<close> and \<open>malloc\<close> keep it, and move
  whole blocks between the free memory and the program.
\<close>

section \<open>Headers\<close>

definition apart :: "u64 \<Rightarrow> u64 \<Rightarrow> bool" where
  "apart p q \<longleftrightarrow> unat p + 16 \<le> unat q \<or> unat q + 16 \<le> unat p"

lemma header_simps [simp]:
  "hptr (set_hptr p v m) p = v" "hsize (set_hsize p n m) p = n"
  "hsize (set_hptr p v m) p = hsize m p" "hptr (set_hsize p n m) p = hptr m p"
  unfolding hptr_def hsize_def set_hptr_def set_hsize_def
  by (auto intro!: load32_cong load64_cong)

lemma header_apart [simp]:
  assumes "apart p q"
  shows "hptr (set_hptr p v m) q = hptr m q" "hsize (set_hsize p n m) q = hsize m q"
    "hsize (set_hptr p v m) q = hsize m q" "hptr (set_hsize p n m) q = hptr m q"
  using assms unfolding apart_def hptr_def hsize_def set_hptr_def set_hsize_def
  by (auto intro!: load32_cong load64_cong)

lemma header_bytes:
  "a < unat p \<or> unat p + 16 \<le> a \<Longrightarrow> set_hptr p v m a = m a"
  "a < unat p \<or> unat p + 16 \<le> a \<Longrightarrow> set_hsize p n m a = m a"
  by (auto simp: set_hptr_def set_hsize_def)

lemma hadd_unat: "unat p + 16 * unat n < 2 ^ 64 \<Longrightarrow> unat (hadd p n) = unat p + 16 * unat n"
proof -
  assume l: "unat p + 16 * unat n < 2 ^ 64"
  from l have "unat (16 * ucast n :: u64) = 16 * unat n" by (simp add: unat_word_ariths)
  with l show ?thesis by (simp add: hadd_def unat_word_ariths)
qed

section \<open>Free lists\<close>

abbreviation len :: "bytes \<Rightarrow> u64 \<Rightarrow> nat" where
  "len m p \<equiv> 16 * unat (hsize m p)"

definition blk :: "bytes \<Rightarrow> u64 \<Rightarrow> nat set" where
  "blk m p = {unat p..<unat p + len m p}"

definition cover :: "bytes \<Rightarrow> u64 list \<Rightarrow> nat set" where
  "cover m xs = (\<Union>x\<in>set xs. blk m x)"

fun chain :: "bytes \<Rightarrow> u64 list \<Rightarrow> u64 \<Rightarrow> bool" where
  "chain m [] e = True"
| "chain m (x # xs) e = (hptr m x = hd (xs @ [e]) \<and> chain m xs e)"

fun spaced :: "bytes \<Rightarrow> nat \<Rightarrow> u64 list \<Rightarrow> nat \<Rightarrow> bool" where
  "spaced m lo [] hi = (lo \<le> hi)"
| "spaced m lo (x # xs) hi = (lo \<le> unat x \<and> 0 < hsize m x \<and> spaced m (unat x + len m x) xs hi)"

lemma chain_append: "chain m (xs @ ys) e \<longleftrightarrow> chain m xs (hd (ys @ [e])) \<and> chain m ys e"
  by (induction xs) (auto simp: hd_append)

lemma chain_cong: "(\<And>x. x \<in> set xs \<Longrightarrow> hptr m' x = hptr m x) \<Longrightarrow> chain m' xs e = chain m xs e"
  by (induction xs) auto

lemma chain_frame: "chain m xs e \<Longrightarrow> (\<And>x. x \<in> set xs \<Longrightarrow> hptr m' x = hptr m x) \<Longrightarrow> chain m' xs e"
  using chain_cong by blast

lemma spaced_cong: "(\<And>x. x \<in> set xs \<Longrightarrow> hsize m' x = hsize m x) \<Longrightarrow> spaced m' lo xs hi = spaced m lo xs hi"
  by (induction xs arbitrary: lo) auto

lemma cover_cong: "(\<And>x. x \<in> set xs \<Longrightarrow> hsize m' x = hsize m x) \<Longrightarrow> cover m' xs = cover m xs"
  by (simp add: cover_def blk_def)

lemma spaced_le: "spaced m lo xs hi \<Longrightarrow> lo \<le> hi"
  by (induction xs arbitrary: lo) force+

lemma spaced_append: "spaced m lo (xs @ ys) hi \<longleftrightarrow> (\<exists>mid. spaced m lo xs mid \<and> spaced m mid ys hi)"
proof (induction xs arbitrary: lo)
  case Nil
  show ?case by (cases ys) (auto intro: order_trans)
qed auto

lemma spaced_weaken: "spaced m lo xs hi \<Longrightarrow> lo' \<le> lo \<Longrightarrow> hi \<le> hi' \<Longrightarrow> spaced m lo' xs hi'"
  by (induction xs arbitrary: lo lo') auto

lemma spaced_mem: "spaced m lo xs hi \<Longrightarrow> x \<in> set xs \<Longrightarrow> lo \<le> unat x \<and> 0 < hsize m x \<and> unat x + len m x \<le> hi"
proof (induction xs arbitrary: lo)
  case (Cons y ys)
  show ?case
  proof (cases "x = y")
    case True
    then show ?thesis using Cons.prems spaced_le by auto
  next
    case False
    then have "unat y + len m y \<le> unat x \<and> 0 < hsize m x \<and> unat x + len m x \<le> hi"
      using Cons.IH [of "unat y + len m y"] Cons.prems by auto
    then show ?thesis using Cons.prems(1) by auto
  qed
qed simp

lemma pos_len: "0 < hsize m x \<Longrightarrow> 16 \<le> len m x"
  by (simp add: word_less_nat_alt)

lemma spaced_apart: "spaced m lo (xs @ x # ys) hi \<Longrightarrow> y \<in> set (xs @ ys) \<Longrightarrow> apart x y"
proof -
  assume s: "spaced m lo (xs @ x # ys) hi" and y: "y \<in> set (xs @ ys)"
  then obtain mid where m: "spaced m lo xs mid" "mid \<le> unat x" "0 < hsize m x" "spaced m (unat x + len m x) ys hi"
    by (auto simp: spaced_append)
  from y consider "y \<in> set xs" | "y \<in> set ys" by auto
  then show "apart x y"
  proof cases
    case 1
    with spaced_mem [OF m(1) 1] m(2) pos_len [of m y] show ?thesis by (auto simp: apart_def)
  next
    case 2
    with spaced_mem [OF m(4) 2] m(3) pos_len [of m x] show ?thesis by (auto simp: apart_def)
  qed
qed

text \<open>A block that overlaps no free block lies between two of them.\<close>

lemma spaced_split:
  assumes "spaced m lo xs hi" "lo \<le> b" "b + l \<le> hi" "0 < l" "{b..<b + l} \<inter> cover m xs = {}"
  shows "\<exists>pre post. xs = pre @ post \<and> spaced m lo pre b \<and> spaced m (b + l) post hi"
  using assms
proof (induction xs arbitrary: lo)
  case Nil
  then show ?case by simp
next
  case (Cons x xs)
  have x: "lo \<le> unat x" "16 \<le> len m x" "spaced m (unat x + len m x) xs hi" using Cons.prems(1) pos_len by auto
  have dis: "{b..<b + l} \<inter> {unat x..<unat x + len m x} = {}" "{b..<b + l} \<inter> cover m xs = {}"
    using Cons.prems(5) by (simp_all add: cover_def blk_def Int_Un_distrib)
  have "unat x + len m x \<le> b \<or> b + l \<le> unat x"
  proof (rule ccontr)
    assume "\<not> ?thesis"
    then have "max b (unat x) \<in> {b..<b + l} \<inter> {unat x..<unat x + len m x}" using x(2) Cons.prems(4) by auto
    with dis(1) show False by blast
  qed
  then show ?case
  proof
    assume "unat x + len m x \<le> b"
    with Cons.IH [OF x(3) _ Cons.prems(3,4) dis(2)] obtain pre post where
      "xs = pre @ post" "spaced m (unat x + len m x) pre b" "spaced m (b + l) post hi" by auto
    then show ?thesis using Cons.prems(1) by (intro exI [of _ "x # pre"] exI [of _ post]) simp
  next
    assume "b + l \<le> unat x"
    then show ?thesis using Cons.prems by (intro exI [of _ "[]"] exI [of _ "x # xs"]) simp
  qed
qed

lemma spaced_sorted: "spaced m lo xs hi \<Longrightarrow> sorted_wrt (<) xs"
proof (induction xs arbitrary: lo)
  case (Cons x xs)
  have "unat x < unat y" if "y \<in> set xs" for y
    using Cons.prems spaced_mem [OF _ that, of m "unat x + len m x" hi] pos_len [of m x] by auto
  then show ?case using Cons by (auto simp: word_less_nat_alt)
qed simp

section \<open>free\<close>

lemma free_find_pre:
  assumes "chain m (q # zs @ post) e" "sorted_wrt (<) (q # zs)" "\<And>x. x \<in> set (q # zs) \<Longrightarrow> e \<le> x \<and> x < bp"
    "\<And>y. y \<in> set post \<Longrightarrow> bp < y"
  shows "free_find m bp q = Some (last (q # zs))"
  using assms
proof (induction zs arbitrary: q)
  case Nil
  then show ?case by (subst free_find.simps) (cases post; auto)
next
  case (Cons z zs)
  have "free_find m bp z = Some (last (z # zs))" by (rule Cons.IH) (use Cons.prems in auto)
  moreover have "hptr m q = z" "q < z" "z < bp" using Cons.prems by auto
  ultimately show ?case by (subst free_find.simps) auto
qed

lemma free_find_post:
  assumes "chain m (q # zs) e" "sorted_wrt (<) (q # zs)" "\<And>x. x \<in> set (q # zs) \<Longrightarrow> bp < x" "e < bp"
  shows "free_find m bp q = free_find m bp e"
  using assms
proof (induction zs arbitrary: q)
  case Nil
  then show ?case by (subst free_find.simps) auto
next
  case (Cons z zs)
  have "free_find m bp z = free_find m bp e" by (rule Cons.IH) (use Cons.prems in auto)
  moreover have "hptr m q = z" "q < z" "bp < q" "bp < z" using Cons.prems by auto
  ultimately show ?case by (subst free_find.simps) auto
qed

definition heap_ok :: "u64 \<Rightarrow> nat \<Rightarrow> uheap \<Rightarrow> u64 list \<Rightarrow> bool" where
  "heap_ok bas brk h xs \<longleftrightarrow> chain (ubytes h) (bas # xs) bas \<and> hsize (ubytes h) bas = 0 \<and>
     spaced (ubytes h) (unat bas + 16) xs brk \<and> freep h \<in> set (bas # xs) \<and> bas \<noteq> 0 \<and> brk < 2 ^ 36"

lemma free_find_ok:
  assumes c: "chain m (bas # pre @ post) bas" and s: "spaced m (unat bas + 16) pre (unat bp)" "spaced m (unat bp + l) post brk"
    and l: "0 < l" and f: "f \<in> set (bas # pre @ post)"
  shows "free_find m bp f = Some (last (bas # pre))"
proof -
  have pre: "bas < x \<and> x < bp" if "x \<in> set pre" for x
    using spaced_mem [OF s(1) that] pos_len [of m x] by (auto simp: word_less_nat_alt)
  have post: "bp < x" if "x \<in> set post" for x
    using spaced_mem [OF s(2) that] l by (auto simp: word_less_nat_alt)
  have b: "bas < bp" using spaced_le [OF s(1)] by (simp add: word_less_nat_alt)
  have head: "free_find m bp bas = Some (last (bas # pre))"
    by (rule free_find_pre [OF c]) (use pre post b spaced_sorted [OF s(1)] in \<open>auto simp: less_imp_le\<close>)
  from f consider "f = bas" | "f \<in> set pre" | "f \<in> set post" by auto
  then show ?thesis
  proof cases
    case 1
    then show ?thesis using head by simp
  next
    case 2
    then obtain us zs where u: "pre = us @ f # zs" by (auto dest: split_list)
    have "chain m (f # zs @ post) bas" using c u chain_append [of m "bas # us" "f # zs @ post" bas] by simp
    then have "free_find m bp f = Some (last (f # zs))"
      by (rule free_find_pre) (use pre post u spaced_sorted [OF s(1)] in \<open>auto simp: less_imp_le sorted_wrt_append\<close>)
    then show ?thesis using u by simp
  next
    case 3
    then obtain us zs where u: "post = us @ f # zs" by (auto dest: split_list)
    have "chain m (f # zs) bas" using c u chain_append [of m "bas # pre @ us" "f # zs" bas] by simp
    then have "free_find m bp f = free_find m bp bas"
      by (rule free_find_post) (use post b u spaced_sorted [OF s(2)] in \<open>auto simp: sorted_wrt_append\<close>)
    then show ?thesis using head by simp
  qed
qed

lemma free_next_ok:
  assumes nx: "hptr m p = hd (post @ [e])" and c: "chain m post e" and s: "spaced m (unat bp + len m bp) post brk"
    and n: "0 < hsize m bp" and brk: "brk < 2 ^ 36" and e: "e < bp" "apart bp p"
  shows "\<exists>post'. chain (free_next bp p m) (bp # post') e \<and> spaced (free_next bp p m) (unat bp) (bp # post') brk \<and>
    cover (free_next bp p m) (bp # post') = blk m bp \<union> cover m post \<and> blk m bp \<subseteq> blk (free_next bp p m) bp \<and>
    (\<forall>q. apart bp q \<longrightarrow> hptr (free_next bp p m) q = hptr m q \<and> hsize (free_next bp p m) q = hsize m q) \<and>
    (\<forall>a. a < unat bp \<or> unat bp + 16 \<le> a \<longrightarrow> free_next bp p m a = m a)"
proof -
  have bnd: "unat bp + len m bp \<le> brk" using spaced_le [OF s] .
  then have ha: "unat (hadd bp (hsize m bp)) = unat bp + len m bp" using brk by (intro hadd_unat) simp
  have pl: "16 \<le> len m bp" using pos_len [OF n] .
  have ap: "apart bp x" if "x \<in> set post" for x using spaced_mem [OF s that] pl by (auto simp: apart_def)
  show ?thesis
  proof (cases "hadd bp (hsize m bp) = hptr m p")
    case False
    let ?m = "set_hptr bp (hptr m p) m"
    have "free_next bp p m = ?m" using False by (simp add: free_next_def)
    moreover have "chain ?m (bp # post) e" "spaced ?m (unat bp) (bp # post) brk" "cover ?m (bp # post) = blk m bp \<union> cover m post"
      using nx c s n ap chain_cong [of post ?m m] spaced_cong [of post ?m m] cover_cong [of post ?m m]
      by (auto simp: cover_def blk_def)
    ultimately show ?thesis by (intro exI [of _ post]) (auto simp: header_bytes blk_def)
  next
    case True
    have "post \<noteq> []"
    proof
      assume "post = []"
      then have "hadd bp (hsize m bp) = e" using True nx by simp
      then show False using ha e(1) by (auto simp: word_less_nat_alt)
    qed
    then obtain y ys where y: "post = y # ys" by (cases post) auto
    have hy: "hptr m p = y" "unat y = unat bp + len m bp" "apart bp y" using nx y True ha ap by auto
    let ?m = "set_hptr bp (hptr m y) (set_hsize bp (hsize m bp + hsize m y) m)"
    have fn: "free_next bp p m = ?m" using True hy e(2) by (simp add: free_next_def Let_def)
    have sy: "0 < hsize m y" "spaced m (unat y + len m y) ys brk" using s y by auto
    have "unat (hsize m bp) + unat (hsize m y) < 2 ^ 32" using spaced_le [OF sy(2)] hy(2) brk by simp
    then have sum: "unat (hsize m bp + hsize m y) = unat (hsize m bp) + unat (hsize m y)" by (simp add: unat_word_ariths)
    have keep: "hptr ?m x = hptr m x" "hsize ?m x = hsize m x" if "x \<in> set ys" for x using ap y that by simp_all
    have "chain ?m (bp # ys) e" using c y chain_cong [of ys ?m m] keep by simp
    moreover have "spaced ?m (unat bp) (bp # ys) brk"
      using sy spaced_cong [of ys ?m m] keep sum hy(2) n by (simp add: algebra_simps word_less_nat_alt)
    moreover have "cover ?m (bp # ys) = blk m bp \<union> cover m post"
      using cover_cong [of ys ?m m] keep sum hy(2) y by (auto simp: cover_def blk_def algebra_simps)
    moreover have "blk m bp \<subseteq> blk ?m bp" using sum by (auto simp: blk_def)
    ultimately show ?thesis using y fn by (intro exI [of _ ys]) (auto simp: header_bytes)
  qed
qed

lemma free_prev_ok:
  assumes p: "p = last (bas # pre)" and c: "chain m (butlast (bas # pre)) p" "chain m (bp # post) bas" and z: "hsize m bas = 0"
    and s: "spaced m (unat bas + 16) pre (unat bp)" "spaced m (unat bp) (bp # post) brk" and brk: "brk < 2 ^ 36"
  shows "\<exists>xs. chain (free_prev bp p m) (bas # xs) bas \<and> hsize (free_prev bp p m) bas = 0 \<and>
    spaced (free_prev bp p m) (unat bas + 16) xs brk \<and> cover (free_prev bp p m) xs = cover m pre \<union> cover m (bp # post) \<and>
    p \<in> set (bas # xs) \<and> (\<exists>x\<in>set xs. blk m bp \<subseteq> blk (free_prev bp p m) x) \<and> (\<forall>a. a < unat p \<or> unat p + 16 \<le> a \<longrightarrow> free_prev bp p m a = m a)"
proof (cases pre rule: rev_cases)
  case Nil
  then have pb: "p = bas" using p by simp
  have ap: "apart bas x" if "x \<in> set (bp # post)" for x
    using spaced_mem [OF s(2) that] spaced_le [OF s(1)] by (auto simp: apart_def)
  have "hadd bas 0 \<noteq> bp" using ap [of bp] by (auto simp: apart_def hadd_def)
  then have m': "free_prev bp p m = set_hptr bas bp m" using z pb by (simp add: free_prev_def)
  have "spaced m (unat bas + 16) (bp # post) brk" using s(2) spaced_le [OF s(1)] by simp
  then show ?thesis
    using c(2) z ap pb Nil chain_cong [of "bp # post" "set_hptr bas bp m" m] spaced_cong [of "bp # post" "set_hptr bas bp m" m]
      cover_cong [of "bp # post" "set_hptr bas bp m" m]
    unfolding m' by (intro exI [of _ "bp # post"]) (auto simp: header_bytes cover_def blk_def)
next
  case (snoc ws q)
  then have q: "q = p" and pre: "pre = ws @ [p]" and cu: "chain m (bas # ws) p" using p c(1) by (auto simp: butlast_append)
  obtain mid where sm: "spaced m (unat bas + 16) ws mid" "mid \<le> unat p" "0 < hsize m p" "unat p + len m p \<le> unat bp"
    using s(1) pre by (auto simp: spaced_append)
  have sp: "spaced m (unat bas + 16) (ws @ p # bp # post) brk" using sm s(2) by (auto simp: spaced_append)
  have ap: "apart p x" if "x \<in> set (ws @ bp # post)" for x using spaced_apart [OF sp that] .
  have apb: "apart p bas" using spaced_mem [OF sp, of p] by (auto simp: apart_def)
  have bnd: "unat bp + len m bp \<le> brk" using s(2) spaced_le by auto
  have ha: "unat (hadd p (hsize m p)) = unat p + len m p" using sm(4) bnd brk by (intro hadd_unat) simp
  show ?thesis
  proof (cases "hadd p (hsize m p) = bp")
    case False
    let ?m = "set_hptr p bp m"
    have m': "free_prev bp p m = ?m" using False by (simp add: free_prev_def)
    have keep: "hptr ?m x = hptr m x" if "x \<in> set (bas # ws @ bp # post)" for x using ap apb that by auto
    have size: "hsize ?m x = hsize m x" if "x \<in> set (bas # ws @ p # bp # post)" for x using ap apb that by auto
    have "chain ?m (bas # ws) p" by (rule chain_frame [OF cu], rule keep) auto
    moreover have "chain ?m (bp # post) bas" by (rule chain_frame [OF c(2)], rule keep) auto
    ultimately have "chain ?m (bas # ws @ p # bp # post) bas" using chain_append [of ?m "bas # ws" "p # bp # post" bas] by simp
    moreover have "spaced ?m (unat bas + 16) (ws @ p # bp # post) brk" "cover ?m (ws @ p # bp # post) = cover m (ws @ p # bp # post)"
      using sp size spaced_cong [of "ws @ p # bp # post" ?m m] cover_cong [of "ws @ p # bp # post" ?m m] by simp_all
    moreover have "blk m bp \<subseteq> blk ?m bp" using size [of bp] by (simp add: blk_def)
    ultimately show ?thesis using z size [of bas] pre unfolding m'
      by (intro exI [of _ "ws @ p # bp # post"]) (auto simp: header_bytes cover_def)
  next
    case True
    let ?m = "set_hptr p (hptr m bp) (set_hsize p (hsize m p + hsize m bp) m)"
    have m': "free_prev bp p m = ?m" using True ap [of bp] by (simp add: free_prev_def Let_def)
    have e: "unat bp = unat p + len m p" using ha True by simp
    have "unat (hsize m p) + unat (hsize m bp) < 2 ^ 32" using e bnd brk by simp
    then have sum: "unat (hsize m p + hsize m bp) = unat (hsize m p) + unat (hsize m bp)" by (simp add: unat_word_ariths)
    have keep: "hptr ?m x = hptr m x" "hsize ?m x = hsize m x" if "x \<in> set (bas # ws @ bp # post)" for x using ap apb that by auto
    have "chain ?m (bas # ws) p" by (rule chain_frame [OF cu], rule keep(1)) auto
    moreover have "chain ?m post bas" by (rule chain_frame [of m], use c(2) in simp, rule keep(1)) auto
    ultimately have "chain ?m (bas # ws @ p # post) bas" using c(2) chain_append [of ?m "bas # ws" "p # post" bas] by simp
    moreover have "spaced ?m (unat bas + 16) ws mid" "spaced ?m (unat bp + len m bp) post brk"
      using sm(1) s(2) keep spaced_cong [of ws ?m m] spaced_cong [of post ?m m] by simp_all
    then have "spaced ?m (unat bas + 16) (ws @ p # post) brk"
      using sm(2,3) sum e by (auto simp: spaced_append algebra_simps word_less_nat_alt)
    moreover have bm: "blk ?m p = blk m p \<union> blk m bp" using sum e by (auto simp: blk_def algebra_simps)
    moreover have "cover ?m (ws @ p # post) = cover m (ws @ p # bp # post)"
    proof -
      show ?thesis using bm keep cover_cong [of ws ?m m] cover_cong [of post ?m m] by (simp add: cover_def Un_ac)
    qed
    ultimately show ?thesis using z keep(2) [of bas] pre unfolding m'
      by (intro exI [of _ "ws @ p # post"]) (auto simp: header_bytes cover_def)
  qed
qed

lemma apart_sym: "apart p q \<longleftrightarrow> apart q p"
  by (auto simp: apart_def)

lemma ufree_ok:
  assumes h: "heap_ok bas brk h xs" and m: "m = ubytes h" and n: "0 < hsize m bp" "unat bas + 16 \<le> unat bp" "unat bp + len m bp \<le> brk"
    and d: "blk m bp \<inter> cover m xs = {}"
  shows "\<exists>h' xs'. ufree (bp + 16) h = Some h' \<and> heap_ok bas brk h' xs' \<and> cover (ubytes h') xs' = cover m xs \<union> blk m bp \<and>
    (\<exists>x\<in>set xs'. blk m bp \<subseteq> blk (ubytes h') x) \<and>
    (\<forall>a. a \<notin> cover m xs \<union> blk m bp \<union> {unat bas..<unat bas + 16} \<longrightarrow> ubytes h' a = m a)"
proof -
  have hk: "chain m (bas # xs) bas" "hsize m bas = 0" "spaced m (unat bas + 16) xs brk" "freep h \<in> set (bas # xs)"
    "bas \<noteq> 0" "brk < 2 ^ 36" using h m by (auto simp: heap_ok_def)
  have l: "16 \<le> len m bp" using n(1) by (rule pos_len)
  obtain pre post where x: "xs = pre @ post" and s: "spaced m (unat bas + 16) pre (unat bp)" "spaced m (unat bp + len m bp) post brk"
    using spaced_split [OF hk(3) n(2,3)] l d by (auto simp: blk_def)
  define p where "p = last (bas # pre)"
  define us where "us = butlast (bas # pre)"
  have up: "bas # pre = us @ [p]" unfolding p_def us_def by (simp del: butlast.simps last.simps)
  have xu: "bas # xs = us @ p # post" using x up by (metis append_Cons append.assoc append_Nil)
  have ff: "free_find m bp (freep h) = Some p"
    using free_find_ok [OF _ s] hk(1,4) x l by (simp add: p_def)
  have c: "chain m us p" "hptr m p = hd (post @ [bas])" "chain m post bas"
    using hk(1) unfolding xu chain_append by simp_all
  have apb: "apart bp x" if "x \<in> set (bas # pre)" for x
    using that n(2) spaced_mem [OF s(1), of x] pos_len [of m x] by (auto simp: apart_def)
  have pm: "p \<in> set (bas # pre)" unfolding up by simp
  have "bas < bp" using n(2) by (simp add: word_less_nat_alt)
  from free_next_ok [OF c(2,3) s(2) n(1) hk(6) this apb [OF pm]] obtain post' where
    f: "chain (free_next bp p m) (bp # post') bas" "spaced (free_next bp p m) (unat bp) (bp # post') brk"
      "cover (free_next bp p m) (bp # post') = blk m bp \<union> cover m post" "blk m bp \<subseteq> blk (free_next bp p m) bp"
      "\<And>q. apart bp q \<Longrightarrow> hptr (free_next bp p m) q = hptr m q" "\<And>q. apart bp q \<Longrightarrow> hsize (free_next bp p m) q = hsize m q"
      "\<And>a. a < unat bp \<or> unat bp + 16 \<le> a \<Longrightarrow> free_next bp p m a = m a" by blast
  let ?m1 = "free_next bp p m"
  have k: "chain ?m1 (butlast (bas # pre)) p" unfolding us_def [symmetric]
    by (rule chain_frame [OF c(1)], rule f(5), rule apb) (simp only: up set_append UnI1)
  have k': "spaced ?m1 (unat bas + 16) pre (unat bp)" "cover ?m1 pre = cover m pre"
    using s(1) f(6) apb spaced_cong [of pre ?m1 m] cover_cong [of pre ?m1 m] by simp_all
  have "hsize ?m1 bas = 0" using f(6) [OF apb, of bas] hk(2) by simp
  from free_prev_ok [OF p_def k f(1) this k'(1) f(2) hk(6)] obtain xs' where
    g: "chain (free_prev bp p ?m1) (bas # xs') bas" "hsize (free_prev bp p ?m1) bas = 0"
    "spaced (free_prev bp p ?m1) (unat bas + 16) xs' brk" "cover (free_prev bp p ?m1) xs' = cover m pre \<union> (blk m bp \<union> cover m post)"
    "p \<in> set (bas # xs')" "\<exists>x\<in>set xs'. blk ?m1 bp \<subseteq> blk (free_prev bp p ?m1) x" "\<And>a. a < unat p \<or> unat p + 16 \<le> a \<Longrightarrow> free_prev bp p ?m1 a = ?m1 a"
    unfolding k'(2) f(3) by blast
  let ?h = "h\<lparr>ubytes := free_prev bp p ?m1, freep := p\<rparr>"
  have "ufree (bp + 16) h = Some ?h" using ff m by (simp add: ufree_def Let_def)
  moreover have "heap_ok bas brk ?h xs'" using g hk by (simp add: heap_ok_def)
  moreover have "cover (ubytes ?h) xs' = cover m xs \<union> blk m bp" using g(4) x by (auto simp: cover_def)
  moreover have "\<exists>x\<in>set xs'. blk m bp \<subseteq> blk (ubytes ?h) x" using g(6) f(4) by auto
  moreover have "ubytes ?h a = m a" if a: "a \<notin> cover m xs \<union> blk m bp \<union> {unat bas..<unat bas + 16}" for a
  proof -
    have "a < unat p \<or> unat p + 16 \<le> a"
    proof (cases "p = bas")
      case False
      then have "p \<in> set pre" using pm by simp
      then have "blk m p \<subseteq> cover m xs" "16 \<le> len m p" using x spaced_mem [OF s(1)] pos_len by (auto simp: cover_def)
      moreover from this(1) have "a \<notin> blk m p" using a by blast
      ultimately show ?thesis by (auto simp: blk_def)
    qed (use a in auto)
    moreover have "a < unat bp \<or> unat bp + 16 \<le> a" using a l by (auto simp: blk_def)
    ultimately show ?thesis using g(7) f(7) by simp
  qed
  ultimately show ?thesis by blast
qed

section \<open>malloc\<close>

lemma heap_okD:
  assumes "heap_ok bas brk h xs"
  shows "chain (ubytes h) (bas # xs) bas" "hsize (ubytes h) bas = 0" "spaced (ubytes h) (unat bas + 16) xs brk"
    "freep h \<in> set (bas # xs)" "bas \<noteq> 0" "brk < 2 ^ 36"
  using assms by (auto simp: heap_ok_def)

lemma chain_rotate: "chain m (us @ f # vs) e \<Longrightarrow> hd (us @ [f]) = e \<Longrightarrow> chain m (f # vs @ us) f"
  using chain_append [of m us "f # vs" e] chain_append [of m "f # vs" us f] by (simp add: hd_append split: if_splits)

definition carve :: "u32 \<Rightarrow> u64 \<Rightarrow> u64 \<Rightarrow> uheap \<Rightarrow> u64 \<times> uheap" where
  "carve n u p h =
     (let m = ubytes h in
      if hsize m p = n then (p + 16, h\<lparr>ubytes := set_hptr u (hptr m p) m, freep := u\<rparr>)
      else let q = hadd p (hsize m p - n) in
        (q + 16, h\<lparr>ubytes := set_hsize q n (set_hsize p (hsize m p - n) m), freep := u\<rparr>))"

definition more :: "(int \<Rightarrow> 'w \<Rightarrow> u64 \<times> 'w) \<Rightarrow> u32 \<Rightarrow> uheap \<Rightarrow> 'w \<Rightarrow> (u64 \<times> uheap \<times> 'w) option" where
  "more sbrk n h w =
     (case morecore sbrk n h w of None \<Rightarrow> None
      | Some (p, h, w) \<Rightarrow> if p = 0 then Some (0, h, w) else malloc_loop sbrk n p (hptr (ubytes h) p) h w)"

lemma malloc_loop_step:
  "malloc_loop sbrk n u p h w =
     (if n \<le> hsize (ubytes h) p then (case carve n u p h of (r, h) \<Rightarrow> Some (r, h, w))
      else if p = freep h then more sbrk n h w
      else malloc_loop sbrk n p (hptr (ubytes h) p) h w)"
  by (subst malloc_loop.simps) (simp add: carve_def more_def Let_def)

text \<open>One round of the list: the first block that is large enough, or more memory.\<close>

lemma malloc_search:
  assumes "chain (ubytes h) (u # zs) (freep h)" "freep h \<notin> set zs"
  shows "(\<exists>v p. v \<in> set (u # zs) \<and> p \<in> set (zs @ [freep h]) \<and> hptr (ubytes h) v = p \<and> n \<le> hsize (ubytes h) p \<and>
      malloc_loop sbrk n u (hptr (ubytes h) u) h w = (case carve n v p h of (r, h) \<Rightarrow> Some (r, h, w))) \<or>
    (\<forall>p\<in>set (zs @ [freep h]). hsize (ubytes h) p < n) \<and> malloc_loop sbrk n u (hptr (ubytes h) u) h w = more sbrk n h w"
  using assms
proof (induction zs arbitrary: u)
  case Nil
  then have e: "hptr (ubytes h) u = freep h" by simp
  show ?case
  proof (cases "n \<le> hsize (ubytes h) (freep h)")
    case True
    then show ?thesis using e malloc_loop_step [of sbrk n u "freep h" h w] by auto
  next
    case False
    then show ?thesis using e malloc_loop_step [of sbrk n u "freep h" h w] by auto
  qed
next
  case (Cons z zs)
  have e: "hptr (ubytes h) u = z" "z \<noteq> freep h" using Cons.prems by auto
  show ?case
  proof (cases "n \<le> hsize (ubytes h) z")
    case True
    then have "malloc_loop sbrk n u z h w = (case carve n u z h of (r, h) \<Rightarrow> Some (r, h, w))"
      using malloc_loop_step [of sbrk n u z h w] by simp
    with True e show ?thesis by (intro disjI1 exI [of _ u] exI [of _ z]) simp
  next
    case False
    then have st: "malloc_loop sbrk n u z h w = malloc_loop sbrk n z (hptr (ubytes h) z) h w"
      using malloc_loop_step [of sbrk n u z h w] e by simp
    have "chain (ubytes h) (z # zs) (freep h)" "freep h \<notin> set zs" using Cons.prems by auto
    from Cons.IH [OF this] show ?thesis
    proof (elim disjE exE conjE)
      fix v p assume "v \<in> set (z # zs)" "p \<in> set (zs @ [freep h])" "hptr (ubytes h) v = p" "n \<le> hsize (ubytes h) p"
        "malloc_loop sbrk n z (hptr (ubytes h) z) h w = (case carve n v p h of (r, h) \<Rightarrow> Some (r, h, w))"
      then show ?thesis unfolding e(1) st by (intro disjI1 exI [of _ v] exI [of _ p]) auto
    next
      assume "\<forall>p\<in>set (zs @ [freep h]). hsize (ubytes h) p < n"
        "malloc_loop sbrk n z (hptr (ubytes h) z) h w = more sbrk n h w"
      then show ?thesis unfolding e(1) st using False by (intro disjI2) auto
    qed
  qed
qed

lemma ring_apart:
  assumes s: "spaced m (unat bas + 16) xs hi" and xy: "x \<in> set (bas # xs)" "y \<in> set (bas # xs)" "x \<noteq> y"
  shows "apart x y"
proof -
  have b: "apart bas z" if "z \<in> set xs" for z using spaced_mem [OF s that] by (simp add: apart_def)
  from xy consider "x = bas" "y \<in> set xs" | "y = bas" "x \<in> set xs" | "x \<in> set xs" "y \<in> set xs" by auto
  then show ?thesis
  proof cases
    case 3
    then obtain us vs where "xs = us @ x # vs" by (auto dest: split_list)
    then show ?thesis using spaced_apart [of m _ us x vs hi y] s 3 xy(3) by auto
  qed (use b apart_sym in blast)+
qed

lemma ring_distinct: "spaced m (unat bas + 16) xs hi \<Longrightarrow> distinct (bas # xs)"
  using spaced_mem [of m "unat bas + 16" xs hi bas] spaced_sorted [of m "unat bas + 16" xs hi] by (auto simp: strict_sorted_iff)

lemma spaced_remove: "spaced m lo (us @ p # vs) hi \<Longrightarrow> spaced m lo (us @ vs) hi"
proof -
  assume "spaced m lo (us @ p # vs) hi"
  then obtain mid where m: "spaced m lo us mid" "mid \<le> unat p" "spaced m (unat p + len m p) vs hi" by (auto simp: spaced_append)
  then have "spaced m mid vs hi" by (intro spaced_weaken [OF m(3)]) auto
  with m(1) show ?thesis unfolding spaced_append by blast
qed

lemma pred_unique:
  assumes "chain m (us @ p # vs) e" "distinct (us @ p # vs)" "e = hd (us @ [p])" "v \<in> set (us @ p # vs)" "hptr m v = p" "us \<noteq> []"
  shows "v = last us"
proof -
  obtain as bs where v: "us @ p # vs = as @ v # bs" using split_list [OF assms(4)] by blast
  then have "p = hd (bs @ [e])" using assms(1,5) by (simp add: chain_append)
  moreover have "e \<noteq> p" using assms(2,3,6) by (cases us) auto
  ultimately obtain bs' where "bs = p # bs'" by (cases bs) auto
  then have "us @ p # vs = (as @ [v]) @ p # bs'" using v by simp
  moreover have "p \<notin> set us" "p \<notin> set vs" using assms(2) by auto
  ultimately have "us = as @ [v]" using append_Cons_eq_iff by metis
  then show ?thesis by simp
qed

lemma spaced_disjoint: "spaced m lo (us @ p # vs) hi \<Longrightarrow> blk m p \<inter> cover m (us @ vs) = {}"
proof -
  assume s: "spaced m lo (us @ p # vs) hi"
  then obtain mid where m: "spaced m lo us mid" "mid \<le> unat p" "spaced m (unat p + len m p) vs hi" by (auto simp: spaced_append)
  have "blk m p \<inter> blk m x = {}" if "x \<in> set us" for x using spaced_mem [OF m(1) that] m(2) by (auto simp: blk_def)
  moreover have "blk m p \<inter> blk m x = {}" if "x \<in> set vs" for x using spaced_mem [OF m(3) that] by (auto simp: blk_def)
  ultimately show ?thesis by (auto simp: cover_def)
qed

definition gives :: "u64 \<Rightarrow> nat \<Rightarrow> uheap \<Rightarrow> nat set \<Rightarrow> u32 \<Rightarrow> u64 \<Rightarrow> uheap \<Rightarrow> bool" where
  "gives bas brk h c n r h' \<longleftrightarrow> (\<exists>xs. heap_ok bas brk h' xs \<and> r \<noteq> 0 \<and> 16 \<le> unat r \<and>
     blk (ubytes h') (r - 16) = {unat r - 16..<unat r - 16 + 16 * unat n} \<and> blk (ubytes h') (r - 16) \<subseteq> c \<and>
     cover (ubytes h') xs = c - blk (ubytes h') (r - 16) \<and>
     (\<forall>a. a \<notin> c \<union> {unat bas..<unat bas + 16} \<longrightarrow> ubytes h' a = ubytes h a))"

lemma plus16: "unat (p :: u64) < 2 ^ 36 \<Longrightarrow> unat (p + 16) = unat p + 16 \<and> p + 16 - 16 = p \<and> p + 16 \<noteq> 0"
proof -
  assume l: "unat p < 2 ^ 36"
  then have "unat (p + 16) = unat p + 16" by (simp add: unat_word_ariths)
  then show ?thesis by (metis add_diff_cancel_right' add_is_0 unat_0 zero_neq_numeral)
qed

lemma carve_exact:
  assumes h: "heap_ok bas brk h (us @ p # vs)" and v: "v = last (bas # us)" and n: "hsize (ubytes h) p = n"
  shows "gives bas brk h (cover (ubytes h) (us @ p # vs)) n (p + 16)
    (h\<lparr>ubytes := set_hptr v (hptr (ubytes h) p) (ubytes h), freep := v\<rparr>)"
proof -
  let ?m = "ubytes h" let ?m' = "set_hptr v (hptr ?m p) ?m"
  note hk = heap_okD [OF h]
  have p: "unat p + len ?m p \<le> brk" using spaced_mem [OF hk(3), of p] by auto
  obtain ws where ws: "bas # us = ws @ [v]" using v by (metis append_butlast_last_id list.distinct(1))
  have vb: "v \<in> set (bas # us)" unfolding ws by simp
  have ring: "bas # us @ p # vs = ws @ v # p # vs" using ws by (metis append_Cons append.assoc append_Nil)
  have dis: "distinct (ws @ v # p # vs)" using ring_distinct [OF hk(3)] ring by simp
  have keep: "hptr ?m' x = hptr ?m x" "hsize ?m' x = hsize ?m x" if "x \<in> set (bas # us @ p # vs)" "x \<noteq> v" for x
    using ring_apart [OF hk(3) _ that(1), of v] vb that by auto
  have size: "hsize ?m' x = hsize ?m x" if "x \<in> set (bas # us @ p # vs)" for x using keep(2) [OF that] by (cases "x = v") auto
  have cw: "chain ?m ws v" "chain ?m vs bas" "hptr ?m p = hd (vs @ [bas])"
    using hk(1) unfolding ring chain_append by auto
  have nv: "v \<notin> set ws" "v \<notin> set vs" and sub: "set ws \<subseteq> set (bas # us @ p # vs)" "set vs \<subseteq> set (bas # us @ p # vs)"
    using dis unfolding ring by auto
  have "chain ?m' ws v" by (rule chain_frame [OF cw(1)], rule keep(1)) (use nv sub in auto)
  moreover have "chain ?m' vs bas" by (rule chain_frame [OF cw(2)], rule keep(1)) (use nv sub in auto)
  ultimately have "chain ?m' (ws @ v # vs) bas" using cw(3) by (simp add: chain_append)
  moreover have "ws @ v # vs = bas # us @ vs" using ws by (metis append_Cons append.assoc append_Nil)
  moreover have "spaced ?m' (unat bas + 16) (us @ vs) brk"
    using spaced_remove [OF hk(3)] size spaced_cong [of "us @ vs" ?m' ?m] by simp
  ultimately have ok: "heap_ok bas brk (h\<lparr>ubytes := ?m', freep := v\<rparr>) (us @ vs)"
    using hk size [of bas] vb by (auto simp: heap_ok_def)
  have cov: "cover ?m' (us @ vs) = cover ?m (us @ p # vs) - blk ?m p"
    using spaced_disjoint [OF hk(3)] cover_cong [of "us @ vs" ?m' ?m] size by (auto simp: cover_def)
  have "?m' a = ?m a" if a: "a \<notin> cover ?m (us @ p # vs) \<union> {unat bas..<unat bas + 16}" for a
  proof (rule header_bytes(1))
    show "a < unat v \<or> unat v + 16 \<le> a"
    proof (cases "v = bas")
      case False
      then have "v \<in> set us" using vb by simp
      then have "blk ?m v \<subseteq> cover ?m (us @ p # vs)" "16 \<le> len ?m v" using spaced_mem [OF hk(3), of v] pos_len by (auto simp: cover_def)
      moreover from this(1) have "a \<notin> blk ?m v" using a by blast
      ultimately show ?thesis by (auto simp: blk_def)
    qed (use a in auto)
  qed
  moreover have "blk ?m' p = blk ?m p" using size [of p] by (simp add: blk_def)
  moreover have "unat p < 2 ^ 36" using p hk(6) by simp
  ultimately show ?thesis using ok cov plus16 [of p] n unfolding gives_def
    by (intro exI [of _ "us @ vs"]) (auto simp: blk_def cover_def)
qed

lemma cover_split: "cover m (us @ p # vs) = blk m p \<union> cover m (us @ vs)"
  by (auto simp: cover_def)

lemma part_removed: "P \<inter> C = {} \<Longrightarrow> Q \<subseteq> P \<Longrightarrow> P' = P - Q \<Longrightarrow> P' \<union> C = P \<union> C - Q"
  by blast

lemma carve_split:
  assumes h: "heap_ok bas brk h (us @ p # vs)" and v: "v \<in> set (bas # us @ p # vs)" and n: "0 < n" "n < hsize (ubytes h) p"
    and q: "q = hadd p (hsize (ubytes h) p - n)"
  shows "gives bas brk h (cover (ubytes h) (us @ p # vs)) n (q + 16)
    (h\<lparr>ubytes := set_hsize q n (set_hsize p (hsize (ubytes h) p - n) (ubytes h)), freep := v\<rparr>)"
proof -
  let ?m = "ubytes h" let ?S = "hsize ?m p" let ?m' = "set_hsize q n (set_hsize p (?S - n) ?m)"
  note hk = heap_okD [OF h]
  obtain mid where s: "spaced ?m (unat bas + 16) us mid" "mid \<le> unat p" "spaced ?m (unat p + len ?m p) vs brk"
    using hk(3) by (auto simp: spaced_append)
  have S: "unat (?S - n) = unat ?S - unat n" "unat n < unat ?S" "0 < unat n" 
    using n unat_sub [OF less_imp_le [OF n(2)]] by (auto simp: word_less_nat_alt)
  have b: "unat p + len ?m p \<le> brk" "unat bas + 16 \<le> unat p" using spaced_le [OF s(3)] spaced_le [OF s(1)] s(2) by auto
  have uq: "unat q = unat p + 16 * (unat ?S - unat n)" unfolding q S(1) [symmetric] using b S hk(6) by (intro hadd_unat) simp
  have apq: "apart q x" if x: "x \<in> set (bas # us @ p # vs)" for x
  proof -
    consider "x = bas" | "x \<in> set us" | "x = p" | "x \<in> set vs" using x by auto
    then show ?thesis
    proof cases
      case 2
      then show ?thesis using spaced_mem [OF s(1) 2] pos_len [of ?m x] s(2) uq by (auto simp: apart_def)
    next
      case 4
      then show ?thesis using spaced_mem [OF s(3) 4] uq S by (auto simp: apart_def)
    qed (use uq S b in \<open>auto simp: apart_def\<close>)
  qed
  have app: "apart p x" if "x \<in> set (bas # us @ vs)" for x
    using ring_apart [OF hk(3), of p x] ring_distinct [OF hk(3)] that by auto
  have keep: "hsize ?m' x = hsize ?m x" if "x \<in> set (bas # us @ vs)" for x using apq [of x] app [OF that] that by auto
  have kp: "hsize ?m' p = ?S - n" "hsize ?m' q = n" using apq [of p] by simp_all
  have "chain ?m' (bas # us @ p # vs) bas"
  proof (rule chain_frame [OF hk(1)])
    show "hptr ?m' x = hptr ?m x" if "x \<in> set (bas # us @ p # vs)" for x
      using apq [OF that] app [of x] that by (cases "x = p") auto
  qed
  moreover have "spaced ?m' (unat bas + 16) (us @ p # vs) brk"
  proof -
    have "spaced ?m' (unat bas + 16) us mid" using s(1) keep spaced_cong [of us ?m' ?m] by simp
    moreover have "spaced ?m' (unat p + len ?m p) vs brk" using s(3) keep spaced_cong [of vs ?m' ?m] by simp
    from spaced_weaken [OF this] have "spaced ?m' (unat p + len ?m' p) vs brk" using kp(1) S by simp
    ultimately show ?thesis using s(2) kp(1) S unfolding spaced_append by (auto simp: word_less_nat_alt)
  qed
  ultimately have ok: "heap_ok bas brk (h\<lparr>ubytes := ?m', freep := v\<rparr>) (us @ p # vs)"
    using hk keep [of bas] v by (auto simp: heap_ok_def)
  have bq: "blk ?m' q = {unat q..<unat q + 16 * unat n}" "blk ?m' q \<subseteq> blk ?m p" "blk ?m' p = blk ?m p - blk ?m' q"
    using kp S uq by (auto simp: blk_def)
  have cv: "cover ?m' (us @ vs) = cover ?m (us @ vs)" using keep by (intro cover_cong) auto
  have cov: "cover ?m' (us @ p # vs) = cover ?m (us @ p # vs) - blk ?m' q" "blk ?m' q \<subseteq> cover ?m (us @ p # vs)"
    unfolding cover_split cv using part_removed [OF spaced_disjoint [OF hk(3)] bq(2,3)] bq(2) by (simp_all add: le_supI1)
  have "?m' a = ?m a" if a: "a \<notin> cover ?m (us @ p # vs) \<union> {unat bas..<unat bas + 16}" for a
  proof -
    have "a \<notin> blk ?m p" using a by (auto simp: cover_def)
    then have "a < unat p \<or> unat p + 16 \<le> a" "a < unat q \<or> unat q + 16 \<le> a" using uq S by (auto simp: blk_def)
    then show ?thesis by (simp add: header_bytes)
  qed
  moreover have "unat q < 2 ^ 36" using b uq S hk(6) by simp
  ultimately show ?thesis using ok cov bq(1) plus16 [of q] unfolding gives_def
    by (intro exI [of _ "us @ p # vs"]) auto
qed

lemma carve_ok:
  assumes h: "heap_ok bas brk h xs" and v: "v \<in> set (bas # xs)" "hptr (ubytes h) v = p" and p: "p \<in> set (bas # xs)"
    and n: "0 < n" "n \<le> hsize (ubytes h) p"
  shows "\<exists>r h'. carve n v p h = (r, h') \<and> gives bas brk h (cover (ubytes h) xs) n r h'"
proof -
  have "p \<noteq> bas" using heap_okD(2) [OF h] n by auto
  then obtain us vs where xs: "xs = us @ p # vs" using p by (auto dest: split_list)
  show ?thesis
  proof (cases "hsize (ubytes h) p = n")
    case True
    have "v = last (bas # us)"
      by (rule pred_unique [of "ubytes h" _ p vs bas])
        (use heap_okD(1,3) [OF h] ring_distinct [OF heap_okD(3) [OF h]] xs v in auto)
    then show ?thesis using carve_exact [OF h [unfolded xs] _ True] True xs by (simp add: carve_def Let_def)
  next
    case False
    then have "n < hsize (ubytes h) p" using n(2) by simp
    then show ?thesis using carve_split [OF h [unfolded xs] v(1) [unfolded xs] n(1) _ refl] False xs by (simp add: carve_def Let_def)
  qed
qed

text \<open>What the allocator relies on: \<open>sbrk\<close> fails or returns the old end of the process and moves it.\<close>

definition sbrk_law :: "(int \<Rightarrow> 'w \<Rightarrow> u64 \<times> 'w) \<Rightarrow> ('w \<Rightarrow> nat) \<Rightarrow> bool" where
  "sbrk_law sbrk brk \<longleftrightarrow> (\<forall>n w. 0 < n \<longrightarrow> (case sbrk n w of (p, w') \<Rightarrow>
     p = - 1 \<and> brk w' = brk w \<or> p \<noteq> - 1 \<and> unat p = brk w \<and> brk w' = brk w + nat n \<and> brk w' < 2 ^ 36))"

lemma sbrk_lawD:
  assumes "sbrk_law sbrk brk" "0 < k" "sbrk (int k) w = (p, w')"
  shows "p = - 1 \<and> brk w' = brk w \<or> p \<noteq> - 1 \<and> unat p = brk w \<and> brk w' = brk w + k \<and> brk w' < 2 ^ 36"
  using assms(1) [unfolded sbrk_law_def, rule_format, of "int k" w] assms(2,3) by simp

lemma heap_ok_header:
  assumes h: "heap_ok bas brk h xs" and p: "unat p = brk" "brk \<le> brk'" "brk' < 2 ^ 36"
  shows "heap_ok bas brk' (h\<lparr>ubytes := set_hsize p n (ubytes h)\<rparr>) xs" "cover (set_hsize p n (ubytes h)) xs = cover (ubytes h) xs"
proof -
  note hk = heap_okD [OF h]
  have ap: "apart p x" if "x \<in> set (bas # xs)" for x
    using that spaced_le [OF hk(3)] spaced_mem [OF hk(3), of x] pos_len [of "ubytes h" x] p(1) by (auto simp: apart_def)
  then have "chain (set_hsize p n (ubytes h)) (bas # xs) bas" by (intro chain_frame [OF hk(1)]) simp
  moreover have "spaced (set_hsize p n (ubytes h)) (unat bas + 16) xs brk'"
    using spaced_cong [of xs "set_hsize p n (ubytes h)" "ubytes h"] ap spaced_weaken [OF hk(3) order_refl p(2)] by simp
  ultimately show "heap_ok bas brk' (h\<lparr>ubytes := set_hsize p n (ubytes h)\<rparr>) xs" using hk p(3) ap by (simp add: heap_ok_def)
  show "cover (set_hsize p n (ubytes h)) xs = cover (ubytes h) xs" using ap by (intro cover_cong) simp
qed

lemma sbrk_arg: "unat (nu :: u32) * 16 < 2 ^ 31 \<Longrightarrow> sint (ucast (ucast nu * 16 :: u64) :: u32) = int (16 * unat nu)"
proof -
  assume l: "unat nu * 16 < 2 ^ 31"
  from l have "unat (ucast nu * 16 :: u64) = unat nu * 16" by (simp add: unat_word_ariths)
  with l have u: "unat (ucast (ucast nu * 16 :: u64) :: u32) = 16 * unat nu" by (simp add: unsigned_ucast_eq take_bit_nat_eq_self)
  then show ?thesis using sint_small [of "ucast (ucast nu * 16 :: u64)"] l by simp
qed

lemma cover_below: "heap_ok bas brk h xs \<Longrightarrow> a \<in> cover (ubytes h) xs \<Longrightarrow> unat bas + 16 \<le> a \<and> a < brk"
  using spaced_mem [OF heap_okD(3)] by (fastforce simp: cover_def blk_def)

lemma blk_size: "{b..<b + 16 * unat n} \<subseteq> blk m x \<Longrightarrow> 0 < n \<Longrightarrow> n \<le> hsize m x"
  by (auto simp: blk_def word_le_nat_alt word_less_nat_alt)

lemma heap_ok_freep: "heap_ok bas brk h xs \<Longrightarrow> freep h \<noteq> 0"
  using heap_okD(4,5) [of bas brk h xs] spaced_mem [OF heap_okD(3), of bas brk h xs "freep h"] by auto

text \<open>\<open>malloc\<close> asks for at least 4096 units.\<close>

definition refused :: "(int \<Rightarrow> 'w \<Rightarrow> u64 \<times> 'w) \<Rightarrow> nat \<Rightarrow> 'w \<Rightarrow> bool" where
  "refused sbrk n w \<longleftrightarrow> fst (sbrk (int (16 * max n 4096)) w) = - 1"

lemma morecore_ok:
  assumes h: "heap_ok bas (brk w) h xs" and law: "sbrk_law sbrk brk" and nu: "unat nu * 16 < 2 ^ 31"
  shows "\<exists>p h' w'. morecore sbrk nu h w = Some (p, h', w') \<and> (p = 0 \<and> h' = h \<and> brk w' = brk w \<and> refused sbrk (unat nu) w \<or>
    p \<noteq> 0 \<and> p = freep h' \<and> brk w \<le> brk w' \<and> (\<exists>xs'. heap_ok bas (brk w') h' xs' \<and>
      cover (ubytes h') xs' = cover (ubytes h) xs \<union> {brk w..<brk w'} \<and> (\<exists>x\<in>set xs'. nu \<le> hsize (ubytes h') x) \<and>
      (\<forall>a. a \<notin> cover (ubytes h) xs \<union> {brk w..<brk w'} \<union> {unat bas..<unat bas + 16} \<longrightarrow> ubytes h' a = ubytes h a)))"
proof -
  define n where "n = (if nu < 4096 then 4096 else nu)"
  have "nu \<le> n" by (auto simp: n_def)
  moreover have "0 < n" "unat n * 16 < 2 ^ 31" using nu by (auto simp: n_def word_less_nat_alt)
  ultimately have n: "nu \<le> n" "0 < n" "unat n * 16 < 2 ^ 31" by blast+
  obtain p w' where sb: "sbrk (int (16 * unat n)) w = (p, w')" by fastforce
  have "0 < 16 * unat n" using n(2) by (simp add: word_less_nat_alt)
  from sbrk_lawD [OF law this sb] have l: "p = - 1 \<and> brk w' = brk w \<or> p \<noteq> - 1 \<and> unat p = brk w \<and> brk w' = brk w + 16 * unat n \<and> brk w' < 2 ^ 36" .
  have mc: "morecore sbrk nu h w = (if p = - 1 then Some (0, h, w')
      else case ufree (p + 16) (h\<lparr>ubytes := set_hsize p n (ubytes h)\<rparr>) of None \<Rightarrow> None | Some h \<Rightarrow> Some (freep h, h, w'))"
    unfolding morecore_def n_def [symmetric] Let_def sbrk_arg [OF n(3)] sb by simp
  show ?thesis
  proof (cases "p = - 1")
    case True
    moreover have "max (unat nu) 4096 = unat n" by (auto simp: n_def max_def word_less_nat_alt)
    ultimately show ?thesis using mc l sb by (simp add: refused_def)
  next
    case False
    with l have p: "unat p = brk w" "brk w' = brk w + 16 * unat n" "brk w' < 2 ^ 36" by auto
    let ?m = "set_hsize p n (ubytes h)"
    have h1: "heap_ok bas (brk w') (h\<lparr>ubytes := ?m\<rparr>) xs" "cover ?m xs = cover (ubytes h) xs"
      by (rule heap_ok_header [OF h p(1)]; use p in simp)+
    have bp: "blk ?m p = {brk w..<brk w'}" using p by (simp add: blk_def)
    have "unat bas + 16 \<le> unat p" using spaced_le [OF heap_okD(3) [OF h]] p(1) by simp
    moreover have "blk ?m p \<inter> cover ?m xs = {}" using cover_below [OF h] bp h1(2) by fastforce
    ultimately obtain h' xs' where r: "ufree (p + 16) (h\<lparr>ubytes := ?m\<rparr>) = Some h'" "heap_ok bas (brk w') h' xs'"
      "cover (ubytes h') xs' = cover (ubytes h) xs \<union> {brk w..<brk w'}" "\<exists>x\<in>set xs'. blk ?m p \<subseteq> blk (ubytes h') x"
      "\<And>a. a \<notin> cover (ubytes h) xs \<union> {brk w..<brk w'} \<union> {unat bas..<unat bas + 16} \<Longrightarrow> ubytes h' a = ?m a"
      using ufree_ok [OF h1(1), of ?m p] n(2) p h1(2) bp by auto
    have "freep h' \<noteq> 0" by (rule heap_ok_freep [OF r(2)])
    moreover have "\<exists>x\<in>set xs'. nu \<le> hsize (ubytes h') x"
    proof -
      obtain x where x: "x \<in> set xs'" "{brk w..<brk w'} \<subseteq> blk (ubytes h') x" using r(4) bp by auto
      then have "n \<le> hsize (ubytes h') x" using p(2) n(2) blk_size [of "brk w" n] by simp
      then have "nu \<le> hsize (ubytes h') x" using n(1) by (rule order_trans [rotated])
      then show ?thesis using x(1) by blast
    qed
    moreover have "ubytes h' a = ubytes h a" if "a \<notin> cover (ubytes h) xs \<union> {brk w..<brk w'} \<union> {unat bas..<unat bas + 16}" for a
    proof -
      have "a < unat p \<or> unat p + 16 \<le> a" using that p n(2) by (auto simp: word_less_nat_alt)
      then show ?thesis using r(5) [OF that] by (simp add: header_bytes)
    qed
    ultimately show ?thesis using mc False r(1-3) p(2) by (auto intro!: exI [of _ xs'])
  qed
qed

lemma malloc_ring:
  assumes h: "heap_ok bas brk h xs"
  obtains zs where "chain (ubytes h) (freep h # zs) (freep h)" "freep h \<notin> set zs" "set (freep h # zs) = set (bas # xs)"
proof -
  note hk = heap_okD [OF h]
  obtain us vs where r: "bas # xs = us @ freep h # vs" using split_list [OF hk(4)] by blast
  have "hd (us @ [freep h]) = bas" using r by (cases us) auto
  then have "chain (ubytes h) (freep h # vs @ us) (freep h)" using hk(1) unfolding r by (rule chain_rotate [rotated])
  moreover have "freep h \<notin> set (vs @ us)" using ring_distinct [OF hk(3)] unfolding r by auto
  moreover have "set (freep h # vs @ us) = set (bas # xs)" unfolding r by auto
  ultimately show thesis by (rule that)
qed

lemma malloc_round:
  assumes h: "heap_ok bas brk h xs" and n: "0 < n"
  shows "(\<exists>r h'. malloc_loop sbrk n (freep h) (hptr (ubytes h) (freep h)) h w = Some (r, h', w) \<and>
      gives bas brk h (cover (ubytes h) xs) n r h') \<or>
    (\<forall>x\<in>set xs. hsize (ubytes h) x < n) \<and>
    malloc_loop sbrk n (freep h) (hptr (ubytes h) (freep h)) h w = more sbrk n h w"
proof -
  obtain zs where z: "chain (ubytes h) (freep h # zs) (freep h)" "freep h \<notin> set zs" "set (freep h # zs) = set (bas # xs)"
    by (rule malloc_ring [OF h])
  show ?thesis using malloc_search [OF z(1,2), of n sbrk w]
  proof (elim disjE exE conjE)
    fix v p assume a: "v \<in> set (freep h # zs)" "p \<in> set (zs @ [freep h])" "hptr (ubytes h) v = p" "n \<le> hsize (ubytes h) p"
      "malloc_loop sbrk n (freep h) (hptr (ubytes h) (freep h)) h w = (case carve n v p h of (r, h) \<Rightarrow> Some (r, h, w))"
    have "p \<in> set (bas # xs)" using a(2) z(3) by auto
    with carve_ok [OF h a(1) [unfolded z(3)] a(3) _ n a(4)] a(5) show ?thesis by auto
  next
    assume "\<forall>p\<in>set (zs @ [freep h]). hsize (ubytes h) p < n"
      "malloc_loop sbrk n (freep h) (hptr (ubytes h) (freep h)) h w = more sbrk n h w"
    moreover have "set xs \<subseteq> set (zs @ [freep h])" using z(3) by auto
    ultimately show ?thesis by blast
  qed
qed

text \<open>What a call of \<open>malloc\<close> does: it fails and changes nothing, or it returns a block of the free memory.\<close>

definition allocates :: "u64 \<Rightarrow> (int \<Rightarrow> 'w \<Rightarrow> u64 \<times> 'w) \<Rightarrow> ('w \<Rightarrow> nat) \<Rightarrow> uheap \<Rightarrow> 'w \<Rightarrow> nat set \<Rightarrow> u32 \<Rightarrow> u64 \<Rightarrow> uheap \<Rightarrow> 'w \<Rightarrow> bool" where
  "allocates bas sbrk brk h w c n r h' w' \<longleftrightarrow>
     (if r = 0 then h' = h \<and> brk w' = brk w \<and> refused sbrk (unat n) w
      else brk w \<le> brk w' \<and> gives bas (brk w') h (c \<union> {brk w..<brk w'}) n r h')"

lemma malloc_loop_ok:
  assumes h: "heap_ok bas (brk w) h xs" and law: "sbrk_law sbrk brk" and n: "0 < n" "unat n * 16 < 2 ^ 31"
  shows "\<exists>r h' w'. malloc_loop sbrk n (freep h) (hptr (ubytes h) (freep h)) h w = Some (r, h', w') \<and>
    allocates bas sbrk brk h w (cover (ubytes h) xs) n r h' w'"
  using malloc_round [OF h n(1), of sbrk w]
proof (elim disjE exE conjE)
  fix r h' assume "malloc_loop sbrk n (freep h) (hptr (ubytes h) (freep h)) h w = Some (r, h', w)"
    "gives bas (brk w) h (cover (ubytes h) xs) n r h'"
  moreover from this(2) have "r \<noteq> 0" by (auto simp: gives_def)
  ultimately show ?thesis by (auto simp: allocates_def)
next
  assume l: "malloc_loop sbrk n (freep h) (hptr (ubytes h) (freep h)) h w = more sbrk n h w"
  obtain p h1 w1 where m: "morecore sbrk n h w = Some (p, h1, w1)" and c: "p = 0 \<and> h1 = h \<and> brk w1 = brk w \<and> refused sbrk (unat n) w \<or>
      p \<noteq> 0 \<and> p = freep h1 \<and> brk w \<le> brk w1 \<and> (\<exists>xs'. heap_ok bas (brk w1) h1 xs' \<and>
      cover (ubytes h1) xs' = cover (ubytes h) xs \<union> {brk w..<brk w1} \<and> (\<exists>x\<in>set xs'. n \<le> hsize (ubytes h1) x) \<and>
      (\<forall>a. a \<notin> cover (ubytes h) xs \<union> {brk w..<brk w1} \<union> {unat bas..<unat bas + 16} \<longrightarrow> ubytes h1 a = ubytes h a))"
    using morecore_ok [OF h law n(2)] by blast
  show ?thesis
  proof (cases "p = 0")
    case True
    then show ?thesis using l m c by (auto simp: more_def allocates_def)
  next
    case False
    then obtain xs' where x: "p = freep h1" "brk w \<le> brk w1" "heap_ok bas (brk w1) h1 xs'"
      "cover (ubytes h1) xs' = cover (ubytes h) xs \<union> {brk w..<brk w1}" "\<exists>x\<in>set xs'. n \<le> hsize (ubytes h1) x"
      and fr: "\<forall>a. a \<notin> cover (ubytes h) xs \<union> {brk w..<brk w1} \<union> {unat bas..<unat bas + 16} \<longrightarrow> ubytes h1 a = ubytes h a"
      using c by blast
    from malloc_round [OF x(3) n(1), of sbrk w1] x(5) obtain r h' where
      g: "malloc_loop sbrk n (freep h1) (hptr (ubytes h1) (freep h1)) h1 w1 = Some (r, h', w1)"
      "gives bas (brk w1) h1 (cover (ubytes h1) xs') n r h'" by fastforce
    then have "gives bas (brk w1) h (cover (ubytes h) xs \<union> {brk w..<brk w1}) n r h'"
      using fr unfolding gives_def x(4) by metis
    moreover from this have "r \<noteq> 0" by (auto simp: gives_def)
    moreover have "more sbrk n h w = Some (r, h', w1)" using m False g(1) x(1) by (simp add: more_def)
    ultimately show ?thesis using l x(2) by (auto simp: allocates_def)
  qed
qed

definition heap_state :: "u64 \<Rightarrow> nat \<Rightarrow> uheap \<Rightarrow> u64 list \<Rightarrow> bool" where
  "heap_state bas brk h xs \<longleftrightarrow>
     (if freep h = 0 then xs = [] \<and> bas \<noteq> 0 \<and> unat bas + 16 \<le> brk \<and> brk < 2 ^ 36 else heap_ok bas brk h xs)"

lemma heap_init:
  assumes "heap_state bas brk h xs"
    and h1: "h1 = (if freep h = 0 then h\<lparr>ubytes := set_hsize bas 0 (set_hptr bas bas (ubytes h)), freep := bas\<rparr> else h)"
  shows "heap_ok bas brk h1 xs" "cover (ubytes h1) xs = cover (ubytes h) xs"
    "a \<notin> {unat bas..<unat bas + 16} \<Longrightarrow> ubytes h1 a = ubytes h a"
  using assms by (auto simp: heap_state_def heap_ok_def cover_def header_bytes not_le not_less)

lemma heap_state_range:
  assumes "heap_state bas brk h xs" "a \<in> cover (ubytes h) xs \<union> {brk..<b}" "brk \<le> b"
  shows "unat bas + 16 \<le> a \<and> a < b"
proof -
  note hi = heap_init [OF assms(1) refl]
  have "unat bas + 16 \<le> brk" using spaced_le [OF heap_okD(3) [OF hi(1)]] .
  moreover have "unat bas + 16 \<le> a \<and> a < brk" if "a \<in> cover (ubytes h) xs"
    using cover_below [OF hi(1), of a] that unfolding hi(2) by simp
  ultimately show ?thesis using assms(2,3) by fastforce
qed

lemma nunits:
  assumes "unat nbytes < 2 ^ 31 - 32"
  shows "unat (ucast ((ucast (nbytes :: u32) + 15) div 16 + 1 :: u64) :: u32) = (unat nbytes + 15) div 16 + 1"
proof -
  have "unat (ucast nbytes + 15 :: u64) = unat nbytes + 15" using assms by (simp add: unat_word_ariths)
  then have d: "unat ((ucast nbytes + 15) div 16 :: u64) = (unat nbytes + 15) div 16" by (simp add: unat_div)
  have l: "(unat nbytes + 15) div 16 < 2 ^ 27" using assms by (simp add: less_mult_imp_div_less)
  then have "unat ((ucast nbytes + 15) div 16 + 1 :: u64) = (unat nbytes + 15) div 16 + 1"
    using d by (simp add: unat_word_ariths)
  then show ?thesis using l by (simp add: unsigned_ucast_eq take_bit_nat_eq_self)
qed

lemma malloc_run:
  assumes "heap_state bas (brk w) h xs" "sbrk_law sbrk brk" "unat nbytes < 2 ^ 31 - 32"
  shows "\<exists>r h' w' xs'. malloc bas sbrk nbytes h w = Some (r, h', w') \<and> heap_ok bas (brk w') h' xs' \<and> brk w \<le> brk w' \<and>
    (\<forall>a. a \<notin> cover (ubytes h) xs \<union> {brk w..<brk w'} \<union> {unat bas..<unat bas + 16} \<longrightarrow> ubytes h' a = ubytes h a) \<and>
    (if r = 0 then refused sbrk ((unat nbytes + 15) div 16 + 1) w \<and> brk w' = brk w \<and> cover (ubytes h') xs' = cover (ubytes h) xs
     else 16 \<le> unat r \<and> blk (ubytes h') (r - 16) = {unat r - 16..<unat r + 16 * ((unat nbytes + 15) div 16)} \<and>
       blk (ubytes h') (r - 16) \<subseteq> cover (ubytes h) xs \<union> {brk w..<brk w'} \<and>
       cover (ubytes h') xs' = cover (ubytes h) xs \<union> {brk w..<brk w'} - blk (ubytes h') (r - 16))"
proof -
  let ?n = "ucast ((ucast nbytes + 15) div 16 + 1 :: u64) :: u32"
  define h1 where "h1 = (if freep h = 0 then h\<lparr>ubytes := set_hsize bas 0 (set_hptr bas bas (ubytes h)), freep := bas\<rparr> else h)"
  note init = heap_init [OF assms(1) h1_def]
  note u = nunits [OF assms(3)]
  have n: "0 < ?n" "unat ?n * 16 < 2 ^ 31" using assms(3) unfolding word_less_nat_alt u by auto
  have run: "malloc bas sbrk nbytes h w = malloc_loop sbrk ?n (freep h1) (hptr (ubytes h1) (freep h1)) h1 w"
    unfolding malloc_def Let_def h1_def [symmetric] ..
  obtain r h' w' where m: "malloc bas sbrk nbytes h w = Some (r, h', w')"
    and a: "allocates bas sbrk brk h1 w (cover (ubytes h1) xs) ?n r h' w'"
    using malloc_loop_ok [OF init(1) assms(2) n] unfolding run by blast
  show ?thesis
  proof (cases "r = 0")
    case True
    then show ?thesis using m a init by (intro exI [of _ r] exI [of _ h'] exI [of _ w'] exI [of _ xs]) (simp add: allocates_def u)
  next
    case False
    let ?b = "blk (ubytes h') (r - 16)"
    from False a obtain xs' where g: "heap_ok bas (brk w') h' xs'" "brk w \<le> brk w'" "16 \<le> unat r"
      "?b = {unat r - 16..<unat r - 16 + 16 * unat ?n}" "?b \<subseteq> cover (ubytes h) xs \<union> {brk w..<brk w'}"
      "cover (ubytes h') xs' = cover (ubytes h) xs \<union> {brk w..<brk w'} - ?b"
      "\<And>a. a \<notin> cover (ubytes h) xs \<union> {brk w..<brk w'} \<union> {unat bas..<unat bas + 16} \<Longrightarrow> ubytes h' a = ubytes h1 a"
      unfolding allocates_def gives_def init(2) by auto
    have "?b = {unat r - 16..<unat r + 16 * ((unat nbytes + 15) div 16)}" unfolding g(4) u using g(3) by simp
    then show ?thesis using m g init(3) False
      by (intro exI [of _ r] exI [of _ h'] exI [of _ w'] exI [of _ xs']) simp
  qed
qed

lemma inside_removed: "U \<subseteq> B \<Longrightarrow> B \<subseteq> X \<Longrightarrow> C = X - B \<Longrightarrow> U \<subseteq> X \<and> U \<inter> C = {}"
  by blast

lemma round_up: "k \<le> 16 * ((k + 15) div 16)" for k :: nat
  by simp

section \<open>A concrete heap\<close>

text \<open>A process whose end moves as far as \<open>sbrk\<close> asks; the state of the world is that end.\<close>

definition bump :: "int \<Rightarrow> nat \<Rightarrow> u64 \<times> nat" where
  "bump n brk = (if 0 < n \<and> int brk + n < 2 ^ 36 then (word_of_nat brk, nat (int brk + n)) else (- 1, brk))"

lemma bump_law: "sbrk_law bump (\<lambda>brk. brk)"
proof -
  have "word_of_nat b \<noteq> (- 1 :: u64) \<and> unat (word_of_nat b :: u64) = b" if "b < 2 ^ 36" for b
  proof -
    have "unat (word_of_nat b :: u64) = b" using that by (simp add: unat_of_nat take_bit_nat_eq_self)
    moreover have "unat (- 1 :: u64) = 18446744073709551615" by (simp add: unsigned_minus_1_eq_mask mask_eq_exp_minus_1)
    ultimately show ?thesis using that by auto
  qed
  then show ?thesis by (auto simp: sbrk_law_def bump_def nat_add_distrib)
qed

definition fresh :: uheap where
  "fresh = \<lparr>ubytes = (\<lambda>_. 0), freep = 0\<rparr>"

lemma fresh_state: "heap_state 4096 8192 fresh []"
  by (simp add: heap_state_def fresh_def)

text \<open>
  C7: \<open>malloc\<close> returns.  Either \<open>sbrk\<close> has refused, and the free memory is what it was, or it returns a block: the
  \<open>nbytes\<close> bytes at the result lie in free memory, or in what \<open>sbrk\<close> has added, the rest of that memory is
  what is free now, and no other byte but those of the header \<open>base\<close> has changed.
\<close>

theorem malloc_correct:
  assumes "heap_state bas (brk w) h xs" "sbrk_law sbrk brk" "unat nbytes < 2 ^ 31 - 32"
  shows "\<exists>r h' w' xs'. malloc bas sbrk nbytes h w = Some (r, h', w') \<and> heap_ok bas (brk w') h' xs' \<and> brk w \<le> brk w' \<and>
    (\<forall>a. a \<notin> cover (ubytes h) xs \<union> {brk w..<brk w'} \<union> {unat bas..<unat bas + 16} \<longrightarrow> ubytes h' a = ubytes h a) \<and>
    (if r = 0 then refused sbrk ((unat nbytes + 15) div 16 + 1) w \<and> brk w' = brk w \<and> cover (ubytes h') xs' = cover (ubytes h) xs
     else {unat r..<unat r + unat nbytes} \<subseteq> cover (ubytes h) xs \<union> {brk w..<brk w'} \<and>
       {unat r..<unat r + unat nbytes} \<inter> cover (ubytes h') xs' = {} \<and>
       cover (ubytes h') xs' = cover (ubytes h) xs \<union> {brk w..<brk w'} - blk (ubytes h') (r - 16))"
proof -
  from malloc_run [OF assms] obtain r h' w' xs' where
    m: "malloc bas sbrk nbytes h w = Some (r, h', w')" "heap_ok bas (brk w') h' xs'" "brk w \<le> brk w'"
      "\<forall>a. a \<notin> cover (ubytes h) xs \<union> {brk w..<brk w'} \<union> {unat bas..<unat bas + 16} \<longrightarrow> ubytes h' a = ubytes h a"
    and c: "if r = 0 then refused sbrk ((unat nbytes + 15) div 16 + 1) w \<and> brk w' = brk w \<and> cover (ubytes h') xs' = cover (ubytes h) xs
     else 16 \<le> unat r \<and> blk (ubytes h') (r - 16) = {unat r - 16..<unat r + 16 * ((unat nbytes + 15) div 16)} \<and>
       blk (ubytes h') (r - 16) \<subseteq> cover (ubytes h) xs \<union> {brk w..<brk w'} \<and>
       cover (ubytes h') xs' = cover (ubytes h) xs \<union> {brk w..<brk w'} - blk (ubytes h') (r - 16)" by blast
  have "{unat r..<unat r + unat nbytes} \<subseteq> {unat r - 16..<unat r + 16 * ((unat nbytes + 15) div 16)}"
    using round_up [of "unat nbytes"] by auto
  then have "r \<noteq> 0 \<Longrightarrow> {unat r..<unat r + unat nbytes} \<subseteq> cover (ubytes h) xs \<union> {brk w..<brk w'} \<and>
      {unat r..<unat r + unat nbytes} \<inter> cover (ubytes h') xs' = {}" using c inside_removed by (metis (no_types, lifting))
  with m c show ?thesis
    by (intro exI [of _ r] exI [of _ h'] exI [of _ w'] exI [of _ xs']) (cases "r = 0"; simp)
qed

theorem malloc_correct_witness:
  "\<exists>r h' brk' xs'. malloc 4096 bump 100 fresh 8192 = Some (r, h', brk') \<and> heap_ok 4096 brk' h' xs' \<and> r \<noteq> 0 \<and>
     {unat r..<unat r + 100} \<inter> cover (ubytes h') xs' = {}"
proof -
  have "\<not> refused bump 8 8192" by (simp add: refused_def bump_def)
  then show ?thesis
    using malloc_correct [of 4096 "\<lambda>brk. brk" 8192 fresh "[]" bump 100] fresh_state bump_law by (auto split: if_splits)
qed

text \<open>A heap depends on the headers of its free blocks only.\<close>

lemma header_cong:
  assumes "\<And>a. unat p \<le> a \<Longrightarrow> a < unat p + 16 \<Longrightarrow> m' a = m a"
  shows "hptr m' p = hptr m p" "hsize m' p = hsize m p"
  unfolding hptr_def hsize_def by (auto intro!: load32_cong load64_cong assms)

lemma heap_ok_cong:
  assumes h: "heap_ok bas brk h xs" and m: "\<And>a. a \<in> cover (ubytes h) xs \<union> {unat bas..<unat bas + 16} \<Longrightarrow> m a = ubytes h a"
  shows "heap_ok bas brk (h\<lparr>ubytes := m\<rparr>) xs" "cover m xs = cover (ubytes h) xs"
proof -
  note hk = heap_okD [OF h]
  have same: "hptr m x = hptr (ubytes h) x \<and> hsize m x = hsize (ubytes h) x" if x: "x \<in> set (bas # xs)" for x
  proof -
    have "a \<in> cover (ubytes h) xs \<union> {unat bas..<unat bas + 16}" if a: "unat x \<le> a" "a < unat x + 16" for a
    proof (cases "x = bas")
      case False
      with x have "x \<in> set xs" by simp
      moreover from this have "a \<in> blk (ubytes h) x" using spaced_mem [OF hk(3)] pos_len [of "ubytes h" x] a by (auto simp: blk_def)
      ultimately show ?thesis by (auto simp: cover_def)
    qed (use a in simp)
    then show ?thesis using header_cong [of x m "ubytes h"] m by simp
  qed
  show "cover m xs = cover (ubytes h) xs" using same by (intro cover_cong) simp
  have "chain m (bas # xs) bas" by (rule chain_frame [OF hk(1)]) (simp add: same)
  moreover have "spaced m (unat bas + 16) xs brk" using hk(3) same spaced_cong [of xs m "ubytes h"] by simp
  ultimately show "heap_ok bas brk (h\<lparr>ubytes := m\<rparr>) xs" using hk same [of bas] by (simp add: heap_ok_def)
qed

text \<open>
  C15: whatever the program writes into the bytes it asked for, giving the block back with \<open>free\<close> returns,
  leaves the list well formed, and makes free again exactly the memory that was free before \<open>malloc\<close>,
  with what \<open>sbrk\<close> had added.
\<close>

theorem malloc_free_roundtrip:
  assumes "heap_state bas (brk w) h xs" "sbrk_law sbrk brk" "unat nbytes < 2 ^ 31 - 32"
    and m: "malloc bas sbrk nbytes h w = Some (r, h', w')" "r \<noteq> 0"
    and user: "\<And>a. a < unat r \<or> unat r + unat nbytes \<le> a \<Longrightarrow> m a = ubytes h' a"
  shows "\<exists>h'' xs''. ufree r (h'\<lparr>ubytes := m\<rparr>) = Some h'' \<and> heap_ok bas (brk w') h'' xs'' \<and>
    cover (ubytes h'') xs'' = cover (ubytes h) xs \<union> {brk w..<brk w'}"
proof -
  let ?q = "r - 16"
  from malloc_run [OF assms(1-3)] m obtain xs' where g: "heap_ok bas (brk w') h' xs'" "16 \<le> unat r"
    "blk (ubytes h') ?q = {unat r - 16..<unat r + 16 * ((unat nbytes + 15) div 16)}"
    "blk (ubytes h') ?q \<subseteq> cover (ubytes h) xs \<union> {brk w..<brk w'}"
    "cover (ubytes h') xs' = cover (ubytes h) xs \<union> {brk w..<brk w'} - blk (ubytes h') ?q" "brk w \<le> brk w'" by auto
  let ?B = "blk (ubytes h') ?q"
  have q: "unat ?q = unat r - 16" "?q + 16 = r" using g(2) by (simp_all add: unat_sub word_le_nat_alt)
  have rng: "unat bas + 16 \<le> a \<and> a < brk w'" if "a \<in> ?B" for a
    using heap_state_range [OF assms(1)] g(4,6) that by fastforce
  have usr: "a \<in> ?B" if "unat r \<le> a" "a < unat r + unat nbytes" for a
    unfolding g(3) using that round_up [of "unat nbytes"] by simp
  have keep: "m a = ubytes h' a" if "a \<in> cover (ubytes h') xs' \<union> {unat bas..<unat bas + 16}" for a
  proof (rule user)
    have "a \<notin> ?B"
    proof
      assume a: "a \<in> ?B"
      then have "a \<notin> cover (ubytes h') xs'" unfolding g(5) by simp
      then show False using that rng [OF a] by simp
    qed
    then show "a < unat r \<or> unat r + unat nbytes \<le> a" using usr [of a] by linarith
  qed
  have hm: "heap_ok bas (brk w') (h'\<lparr>ubytes := m\<rparr>) xs'" by (rule heap_ok_cong(1) [OF g(1)]) (rule keep)
  have cm: "cover m xs' = cover (ubytes h') xs'" by (rule heap_ok_cong(2) [OF g(1)]) (rule keep)
  have hs: "hsize m ?q = hsize (ubytes h') ?q" by (rule header_cong, rule user) (use q g(2) in simp)
  then have b: "blk m ?q = ?B" by (simp add: blk_def)
  have "unat ?q \<in> ?B" unfolding g(3) q(1) using g(2) by simp
  then have pos: "0 < hsize m ?q" "unat bas + 16 \<le> unat ?q" using rng hs by (auto simp: blk_def word_less_nat_alt)
  have "unat ?q + len m ?q - 1 \<in> ?B" using pos_len [OF pos(1)] unfolding b [symmetric] by (auto simp: blk_def)
  then have "unat ?q + len m ?q \<le> brk w'" using rng by fastforce
  moreover have "blk m ?q \<inter> cover m xs' = {}" unfolding b cm g(5) by (rule Diff_disjoint)
  ultimately obtain h'' xs'' where "ufree (?q + 16) (h'\<lparr>ubytes := m\<rparr>) = Some h''" "heap_ok bas (brk w') h'' xs''"
    "cover (ubytes h'') xs'' = cover m xs' \<union> blk m ?q"
    using ufree_ok [OF hm, of m ?q] pos by auto
  moreover have "cover (ubytes h) xs \<union> {brk w..<brk w'} - ?B \<union> ?B = cover (ubytes h) xs \<union> {brk w..<brk w'}"
    using g(4) by (simp add: Un_absorb2)
  ultimately show ?thesis unfolding q(2) b cm g(5) by metis
qed

theorem malloc_free_roundtrip_witness:
  "\<exists>r h' brk' h'' xs''. malloc 4096 bump 100 fresh 8192 = Some (r, h', brk') \<and> r \<noteq> 0 \<and>
     ufree r (h'\<lparr>ubytes := (ubytes h')(unat r := 7)\<rparr>) = Some h'' \<and> heap_ok 4096 brk' h'' xs'' \<and>
     cover (ubytes h'') xs'' = {8192..<brk'}"
proof -
  have "\<not> refused bump 8 8192" by (simp add: refused_def bump_def)
  then obtain r h' brk' where m: "malloc 4096 bump 100 fresh 8192 = Some (r, h', brk')" "r \<noteq> 0"
    using malloc_run [of 4096 "\<lambda>brk. brk" 8192 fresh "[]" bump 100] fresh_state bump_law by (auto split: if_splits)
  have "\<exists>h'' xs''. ufree r (h'\<lparr>ubytes := (ubytes h')(unat r := 7)\<rparr>) = Some h'' \<and> heap_ok 4096 brk' h'' xs'' \<and>
      cover (ubytes h'') xs'' = cover (ubytes fresh) [] \<union> {8192..<brk'}"
    by (rule malloc_free_roundtrip [where brk = "\<lambda>brk. brk", OF fresh_state bump_law _ m]) auto
  then show ?thesis using m by (auto simp: cover_def)
qed

lemma wrap_args:
  "(ucast ((ucast (4294967295 :: u32) + 15) div 16 + 1 :: u64) :: u32) = 268435457"
  "sint (ucast (ucast (268435457 :: u32) * 16 :: u64) :: u32) = 16"
  by simp_all

text \<open>
  C40: a request of 4294967295 bytes needs 268435457 units, and the number of bytes that \<open>morecore\<close> computes for
  them does not fit the \<open>int\<close> that \<open>sbrk\<close> takes: the process grows by 16 bytes and \<open>malloc\<close> returns a block
  that reaches past its end.
\<close>

theorem malloc_past_end:
  assumes h: "heap_state bas (brk w) h []" "freep h = 0" and sb: "sbrk_law sbrk brk" "sbrk 16 w = (p, w')" "p \<noteq> - 1"
    and b: "brk w < 2 ^ 35"
  shows "\<exists>r h'. malloc bas sbrk 4294967295 h w = Some (r, h', w') \<and> r \<noteq> 0 \<and> brk w' = brk w + 16 \<and> brk w' < unat r + 4294967295"
proof -
  let ?n = "268435457 :: u32" and ?B = "brk w + 4294967312"
  define h1 where "h1 = (if freep h = 0 then h\<lparr>ubytes := set_hsize bas 0 (set_hptr bas bas (ubytes h)), freep := bas\<rparr> else h)"
  have ok: "heap_ok bas (brk w) h1 []" using heap_init(1) [OF h(1) h1_def] .
  have p: "unat p = brk w" "brk w' = brk w + 16" using sbrk_lawD [OF sb(1), of 16 w p w'] sb(2,3) by simp_all
  let ?h2 = "h1\<lparr>ubytes := set_hsize p ?n (ubytes h1)\<rparr>"
  have ok2: "heap_ok bas ?B ?h2 []" using heap_ok_header(1) [OF ok p(1), of ?B ?n] b by simp
  have "unat bas + 16 \<le> unat p" using spaced_le [OF heap_okD(3) [OF ok]] p(1) by simp
  then obtain h3 xs where f: "ufree (p + 16) ?h2 = Some h3" "heap_ok bas ?B h3 xs" "cover (ubytes h3) xs = {brk w..<?B}"
    "\<exists>x\<in>set xs. {brk w..<?B} \<subseteq> blk (ubytes h3) x"
    using ufree_ok [OF ok2 refl, of p] p(1) by (auto simp: cover_def blk_def)
  have big: "\<exists>x\<in>set xs. ?n \<le> hsize (ubytes h3) x" using f(4) blk_size [of "brk w" ?n] by auto
  have "malloc bas sbrk 4294967295 h w = malloc_loop sbrk ?n (freep h1) (hptr (ubytes h1) (freep h1)) h1 w"
    unfolding malloc_def Let_def h1_def [symmetric] wrap_args ..
  also have "\<dots> = more sbrk ?n h1 w"
    using malloc_round [OF ok, of ?n sbrk w] by (auto simp: gives_def cover_def)
  also have "\<dots> = malloc_loop sbrk ?n (freep h3) (hptr (ubytes h3) (freep h3)) h3 w'"
  proof -
    have "morecore sbrk ?n h1 w = Some (freep h3, h3, w')"
      using sb(2,3) f(1) unfolding morecore_def Let_def by simp
    then show ?thesis using heap_ok_freep [OF f(2)] by (simp add: more_def)
  qed
  finally have run: "malloc bas sbrk 4294967295 h w = malloc_loop sbrk ?n (freep h3) (hptr (ubytes h3) (freep h3)) h3 w'" .
  obtain r h' where r: "malloc bas sbrk 4294967295 h w = Some (r, h', w')" "gives bas ?B h3 {brk w..<?B} ?n r h'"
    using malloc_round [OF f(2), of ?n sbrk w'] big unfolding run f(3) by fastforce
  have "unat r - 16 \<in> {unat r - 16..<unat r - 16 + 16 * unat ?n}" by simp
  then have "unat r - 16 \<in> {brk w..<?B}" "r \<noteq> 0" using r(2) unfolding gives_def by blast+
  then show ?thesis using r(1) p(2) by auto
qed

theorem malloc_past_end_witness:
  "\<exists>r h'. malloc 4096 bump 4294967295 fresh 8192 = Some (r, h', 8208) \<and> r \<noteq> 0 \<and> 8208 < unat r + 4294967295"
  using malloc_past_end [of 4096 "\<lambda>brk. brk" 8192 fresh bump 8192 8208] fresh_state bump_law
  by (simp add: fresh_def bump_def)

end
