(* ===== verification/Spec2Isabelle.thy ===== *)
theory Spec2Isabelle
  imports Spinlock Proc_Pids Trap Grep Uprogs Sh_Run Log_Mkfs Mkfs_Image Umalloc_Heap
begin

text \<open>
  A verification development for xv6-riscv: the kernel under src/kernel, the user programs under src/user
  and the builder of the file system image under src/mkfs.

  \<^bold>\<open>The program and its parts.\<close>  xv6 is a small Unix-like kernel in C.  From the bottom up: string
  functions on memory (string.c); spinlocks (spinlock.c); a page allocator (kalloc.c); page tables
  and the copies to and from user space (vm.c); processes, sleep, wakeup and the scheduler
  (proc.c); sleep-locks (sleeplock.c); the buffer cache over the disk (bio.c, virtio_disk.c); the redo
  log (log.c); the file system (fs.c); the serial line, the console and printing (uart.c, console.c,
  printf.c); pipes (pipe.c) and open files (file.c); program loading (exec.c); the system calls
  (syscall.c, sysproc.c, sysfile.c); traps, interrupts and start-up (trap.c, plic.c, start.c, main.c).
  Above the system calls: the user library (ulib.c, printf.c, umalloc.c), the shell (sh.c), grep and the
  small programs.  mkfs.c runs on the host and writes the disk that the kernel starts from.

  \<^bold>\<open>Theories.\<close>  One theory per component, in this order; each imports the ones it calls.
  \<^item> \<open>Prelude\<close>: machine integers, the type \<open>outcome\<close> of what an operation does, \<open>obind\<close>, the total
    correctness predicate \<open>ensures\<close>, the frame predicate \<open>keeps\<close>, the root \<open>kstate\<close> of the kernel
    state and its lock set.
  \<^item> \<open>Bytes\<close>, \<open>Cstring\<close>: byte-addressed storage and string.c.
  \<^item> \<open>Spinlock\<close>: spinlock.c on several harts, down to the atomic swap; \<open>lock_step\<close> interleaves them.
  \<^item> \<open>Kalloc\<close>, \<open>Vm\<close>: kalloc.c and vm.c on physical memory; the free list and the page tables are bytes
    of that memory.
  \<^item> \<open>Proc\<close>, \<open>Sleeplock\<close>: proc.c (what does not need files) and sleeplock.c; \<open>Proc_Pids\<close>: the runs of the
    operations of proc.c (\<open>proc_step\<close>) and the invariant on process identifiers.
  \<^item> \<open>Bio\<close>, \<open>Log\<close>: bio.c and log.c over a disk of blocks.
  \<^item> \<open>Ring\<close>: ring buffers with free-running counters; \<open>Uart\<close>, \<open>Printf\<close>, \<open>Console\<close>: uart.c, printf.c
    and \<open>procdump\<close>, console.c.
  \<^item> \<open>Fs\<close>: fs.c, the block allocator, inodes, directories and path names.
  \<^item> \<open>Pipe\<close>, \<open>File\<close>: pipe.c and file.c with \<open>fileread\<close>, \<open>filewrite\<close> and the device switch.
  \<^item> \<open>Process\<close>: \<open>userinit\<close>, \<open>fork\<close> and \<open>exit\<close>, which need files, and the trap frame.
  \<^item> \<open>Exec\<close>: exec.c; \<open>Sysfile\<close>, \<open>Syscall\<close>: sysfile.c, sysproc.c and syscall.c.
  \<^item> \<open>Virtio\<close>: virtio_disk.c, with the device a parameter.
  \<^item> \<open>Trap\<close>: trap.c, plic.c, \<open>forkret\<close>, start.c and main.c.
  \<^item> \<open>Ulib\<close>: user/ulib.c and user/printf.c, with the record \<open>os\<close> of the system calls of user.h.
  \<^item> \<open>Grep\<close>: grep.c; \<open>Uprogs\<close>: cat, wc, echo, kill, ln, mkdir, rm, ls, init, zombie and forktest.
  \<^item> \<open>Sh\<close>: sh.c; \<open>Sh_Parse\<close>: its parser against a printer of commands; \<open>Sh_Run\<close>: \<open>runcmd\<close> on
    every system whose calls keep the law \<open>unix_law\<close>; a small Unix shows that the law can be kept.
  \<^item> \<open>Umalloc\<close>: user/umalloc.c; \<open>Umalloc_Heap\<close>: the invariant of the free list and the correctness of
    \<open>malloc\<close> and \<open>free\<close>.
  \<^item> \<open>Mkfs\<close>: mkfs/mkfs.c; \<open>Mkfs_Image\<close>: what the image holds when it returns; \<open>Log_Mkfs\<close>: the kernel's log
    on the layout of mkfs.

  \<^bold>\<open>State and operations.\<close>  The state of the kernel is one record that grows by extension, in the
  order of the theories; the global variables and tables of a C file are the fields its theory adds
  (\<open>freelist\<close> for \<open>kmem.freelist\<close>, \<open>bufs\<close> for \<open>bcache.buf\<close>, \<open>procs\<close> for \<open>proc\<close>, and so on).  A pointer
  into a table is an index, a null pointer is \<open>None\<close>; pages, page tables, trap frames and user
  memory are bytes of the field \<open>mem\<close>.  A C function of the same name is an Isabelle function that
  takes the state last and returns an \<open>outcome\<close>:
  \<^item> \<open>Ok v s\<close>: it returns \<open>v\<close>; \<open>Panic m\<close>: it calls \<open>panic(m)\<close>;
  \<^item> \<open>Sleep c s\<close>: the process sleeps on \<open>c\<close>; \<open>Gone s\<close>: the process has ended in \<open>exit\<close>;
  \<^item> \<open>Spin\<close>: it loops until another agent acts; \<open>Undef\<close>: undefined behaviour of C.

  A user program is a function of the record \<open>os\<close>, which has one field per system call on a state of the
  world that the program does not see; \<open>Gone\<close> is \<open>exit\<close>.  The allocator works on the bytes of the
  process and takes \<open>sbrk\<close> and the address of \<open>base\<close> as parameters; mkfs takes the files of the host.

  A call that goes on after a sleep is cut there: the rest is a definition of its own (\<open>sleep_resume\<close>,
  \<open>wait_loop\<close>, \<open>consolewrite_from\<close>, \<open>pipewrite_from\<close>) and \<open>Blocked\<close> carries the local variables it needs.
  Unsigned arithmetic that can wrap is on \<open>word\<close>s of the width of the source.  A critical section
  under a spinlock is one step: \<open>lk_acquire\<close> and \<open>lk_release\<close> act on the set of held locks, with the
  panics of the code; \<open>Spinlock.acquire_release_refine\<close> links them to the code of spinlock.c, and
  \<open>Spinlock.mutual_exclusion\<close> justifies treating the section as one step.

  \<^bold>\<open>Loops and fuel.\<close>  Loops over tables recurse on the number of entries left.  Three loops have a
  bound of their own: \<open>freewalk\<close> is cut at 32 nested calls, more than the three levels of a page
  table; \<open>uartstart\<close> and \<open>uartintr\<close> run as long as the device is ready or has input, which the model
  of the device bounds by \<open>uart_room\<close> and by the length of the input.  A scan of \<open>bget\<close> visits NBUF
  buffers.  The loops of user programs that end when the system says so (\<open>cat_loop\<close>, \<open>grep_loop\<close>, \<open>sh_loop\<close>,
  \<open>init_loop\<close> and the like) take \<open>fuel\<close>, one unit per turn; \<open>Grep.grep_prints_matches\<close> shows how much is
  enough for grep.  The parser of the shell recurses with fuel that \<open>Sh.parsecmd_returns\<close> shows to be
  enough for every line.  Loops over C strings and over the free list of \<open>malloc\<close>, which need not end on
  every memory, are partial functions into \<open>option\<close>, \<open>None\<close> for a loop that does not return; the theorems
  show that \<open>malloc\<close> and \<open>free\<close> return.  Everything else terminates by the measure given with the function.

  \<^bold>\<open>Bounds.\<close>  \<open>Mkfs_Image.mkfs_writes_image\<close> is for images that the layout can hold: inodes that stay
  in the inode blocks (at most 206 files), files of at most 268 blocks and 2000 blocks in all.
  \<open>Umalloc_Heap.malloc_correct\<close> is for requests that the \<open>int\<close> argument of \<open>sbrk\<close> can express;
  \<open>Umalloc_Heap.malloc_past_end\<close> shows what happens above.

  \<^bold>\<open>Interfaces.\<close>  \<open>Ring.ring\<close> is the contract of a ring buffer with wrapping counters, interpreted
  for pipes, the console and the UART.  The locales of \<open>Kalloc\<close> and \<open>Bio\<close> state what the
  page allocator and the buffer cache promise to their clients; page tables are verified against
  the first and the log against the second, and each is interpreted on the code's model.

  \<^bold>\<open>What is shown.\<close>  Strings: \<open>memmove\<close> for any overlap, \<open>strncmp\<close>, \<open>safestrcpy\<close>.  Locks: mutual exclusion,
  interrupts off while a lock is held, no panic in \<open>release\<close>, nesting of \<open>push_off\<close>, when \<open>acquire\<close> and
  \<open>release\<close> return, spin or panic and what they do to the interrupt state.  Memory: no page is
  handed out twice or lost, \<open>kinit\<close> frees exactly the pages of RAM, \<open>mappages\<close> and \<open>uvmunmap\<close> change
  exactly the requested translations, \<open>copyin\<close> and \<open>copyout\<close> move the user's bytes and \<open>copyout\<close> changes no others.  Disk: the buffer
  cache is a block store, a commit is atomic under crashes at any write and in recovery, an
  admitted call fits the log if the log is larger than LOGSIZE (the log of mkfs is not, and three admitted
  calls overflow it).  Character
  devices: output leaves the UART in order and makes progress, console input refines a line
  editor, pipes are queues (and \<open>piperead\<close> drops a byte on a faulting destination), \<open>printint\<close> prints
  its argument when the characters fit its buffer (and overruns it for 17 digits or more, for 16 with a
  sign, and for a negative \<open>int\<close> printed with %u).  Processes: identifiers are unique.  User
  programs: \<open>malloc\<close> gives out memory that was free or new, and \<open>free\<close> takes it back; grep prints exactly the
  matching lines however its input is cut into reads, and its matcher decides the language of the pattern;
  the parser of the shell returns on every line, gives well-formed trees and inverts printing, and
  \<open>runcmd\<close> starts the programs of a command, each by its name with its arguments and the descriptors it asks
  for, on every system that keeps \<open>unix_law\<close>, failing calls included.  mkfs: the superblock,
  the root directory, every file and the bitmap read back from the image, no block in two files.

  \<^bold>\<open>Not modelled.\<close>  The assembly files (entry.S, swtch.S, trampoline.S, kernelvec.S) are the points at
  which the model cuts a run; the hardware (the PLIC, the virtio device, the timer) is a parameter of
  the definitions that use it.  The test programs (usertests.c, grind.c, stressfs.c) are scripts of
  system calls with no function of their own; usys.pl generates assembly; the messages that mkfs prints on
  the host are left out.

  \<^bold>\<open>Abstractions.\<close>  \<open>Bio\<close> and \<open>Log\<close> use a disk of whole blocks (\<open>disk_rw\<close>): a transfer takes place at once.
  The driver of \<open>Virtio\<close> is modelled on its own, and no theorem connects its device to that disk.  \<open>log_area\<close>
  has the header and LOGSIZE slots, the most that the header can name; the log that mkfs lays out has one
  block less, so the theorems on transactions leave out the first inode block there.  The steps of \<open>lock_step\<close>
  are those of \<open>acquire\<close> and \<open>release\<close> and the switching of interrupts; \<open>push_off\<close> and \<open>pop_off\<close> called on their own, and the
  \<open>intena\<close> that \<open>sched\<close> saves and restores, are not steps of it.  \<open>log_run\<close> allows any change between the
  calls of log.c that leaves the variables of the log alone.  The reads of mkfs from a file of the host are of
  1024 bytes as long as the file has them, and its seeks and writes on the image succeed.  \<open>runcmd\<close> has no
  default case: the type of commands has the five constructors only.
\<close>

end
